theory Spec2Isabelle
  imports Main "HOL-Library.Sublist" "HOL-Library.Monad_Syntax"
begin

unbundle bit_operations_syntax

section \<open>The editor's data\<close>

text \<open>
  The repository holds two variants of one terminal editor: version 0.1
  (\<^verbatim>\<open>editor.c\<close>) and version 0.3 (the program listed in \<^verbatim>\<open>README.md\<close>).
  Functions of version 0.3 keep their C names; a function of version 0.1 that differs
  from its 0.3 namesake carries the suffix \<open>_v1\<close>.

  Conventions of the embedding.
  \<^item> C \<^verbatim>\<open>int\<close> is modelled by \<open>int\<close>: signed overflow is undefined in C, so the
    executions with defined behaviour are exactly those where no value leaves the
    range.
  \<^item> The buffer is described twice. The sections before \<open>The buffer in memory\<close>
    describe the document as the list of its lines: a line is the byte span of \<open>len[row]\<close> bytes the buffer
    holds before the terminator it writes, the arrays \<open>lines\<close> and \<open>len\<close> are their
    first \<open>count\<close> slots, and allocation is assumed to succeed. \<open>memmove\<close> and
    \<open>memcpy\<close> with a byte count \<open>k\<close> become \<open>take k\<close> of the source span, so every
    count the code computes from the cached length \<open>len[row]\<close> appears in the model.
    The section \<open>The buffer in memory\<close> describes the same functions on the arrays
    with all their \<open>cap\<close> slots and on the heap blocks, terminators included; the
    section \<open>The list of lines and the memory\<close> relates the two descriptions.
  \<^item> A line may hold NUL bytes (a file can contain them). Where the code reads a line
    as a C string (\<open>strstr\<close>, \<open>strlen\<close>), the model reads it up to its first NUL
    byte: \<open>c_str\<close>.
  \<^item> A function on the list of lines returns \<open>None\<close> where the C call does not return
    normally (undefined behaviour, a loop that never ends, an input that never
    delivers another byte, the death of the process), and also where the call leaves
    what the list shows: \<open>buffer_insert_char\<close>, \<open>buffer_delete_char\<close> and
    \<open>buffer_split_line\<close> of version 0.3 called with a row that is not a row of the
    document. Version 0.3 does not check the row there; for \<open>count \<le> row < cap\<close> it
    works on whatever the slot holds, which the list does not tell. These calls are
    followed in the section \<open>The buffer in memory\<close>. No caller in the editor makes
    one: the row is always the cursor's, which stays inside the document.
  \<^item> Terminal output and the status line are not modelled; \<open>editor_draw_screen\<close> keeps
    its one effect on the state, the call of \<open>editor_scroll\<close>.
\<close>

record Buffer =
  lines :: "string list"
  len :: "int list"
  count :: int
  cap :: int

record View =
  cx :: int
  cy :: int
  rowoff :: int
  coloff :: int
  screenrows :: int
  screencols :: int
  pref_cx :: int

text \<open>The globals of the program. Version 0.1 has no search state, no preferred
  column and no quit counter; its functions leave those fields alone.\<close>

record editor =
  buf :: Buffer
  view :: View
  dirty :: bool
  filename :: string
  last_query :: string
  last_match_row :: int
  last_match_col :: int
  hl_row :: int
  hl_col :: int
  hl_len :: int
  quit_times_needed :: int

type_synonym fs = "string \<rightharpoonup> string"

definition LF :: char where "LF = CHR 0x0A"
definition CR :: char where "CR = CHR 0x0D"
definition ESC :: char where "ESC = CHR 0x1B"
definition DEL :: char where "DEL = CHR 0x7F"

section \<open>Buffer\<close>

definition buffer_init :: Buffer where
  "buffer_init = \<lparr>lines = [''''], len = [0], count = 1, cap = 64\<rparr>"

text \<open>\<^verbatim>\<open>while (b->cap < need) b->cap *= 2;\<close> A capacity that is not positive never
  reaches \<open>need\<close>: the loop does not end.\<close>

function grow_cap :: "int \<Rightarrow> int \<Rightarrow> int option" where
  "grow_cap c need =
     (if c < need then (if c \<le> 0 then None else grow_cap (c * 2) need) else Some c)"
  by pat_completeness auto
termination
  by (relation "measure (\<lambda>(c, need). nat (need - c))") auto

declare grow_cap.simps [simp del]

definition buffer_ensure_capacity :: "Buffer \<Rightarrow> int \<Rightarrow> Buffer option" where
  "buffer_ensure_capacity b need =
     (if need \<le> cap b then Some b
      else map_option (\<lambda>c. b\<lparr>cap := c\<rparr>) (grow_cap (cap b) need))"

text \<open>\<open>memmove(&a[at+1], &a[at], k * sizeof ...)\<close> followed by the store into \<open>a[at]\<close>.\<close>

definition shift_insert :: "'a list \<Rightarrow> int \<Rightarrow> int \<Rightarrow> 'a \<Rightarrow> 'a list" where
  "shift_insert xs at k x = take (nat at) xs @ [x] @ take (nat k) (drop (nat at) xs)"

text \<open>\<open>memmove(&a[row], &a[row+1], k * sizeof ...)\<close> on the first \<open>n\<close> slots, one slot
  fewer being used afterwards.\<close>

definition shift_remove :: "'a list \<Rightarrow> int \<Rightarrow> int \<Rightarrow> 'a list" where
  "shift_remove xs row k = take (nat row) xs @ take (nat k) (drop (nat (row + 1)) xs)"

text \<open>\<open>buffer_insert_line(b, at, s, n)\<close>: \<open>s\<close> are the bytes readable at the pointer.
  Copying more bytes than are there, or a negative number, is undefined. The function
  does not touch \<open>dirty\<close>.\<close>

definition buffer_insert_line :: "editor \<Rightarrow> int \<Rightarrow> string \<Rightarrow> int \<Rightarrow> editor option" where
  "buffer_insert_line e at s n =
     (let b = buf e in
      if at < 0 \<or> at > count b then Some e
      else case buffer_ensure_capacity b (count b + 1) of
        None \<Rightarrow> None
      | Some b1 \<Rightarrow>
          if n < 0 \<or> int (length s) < n then None
          else Some (e\<lparr>buf := b1\<lparr>
                 lines := shift_insert (lines b1) at (count b1 - at) (take (nat n) s),
                 len := shift_insert (len b1) at (count b1 - at) n,
                 count := count b1 + 1\<rparr>\<rparr>))"

definition buffer_append_empty :: "editor \<Rightarrow> editor option" where
  "buffer_append_empty e = buffer_insert_line e (count (buf e)) '''' 0"

definition row_ok :: "Buffer \<Rightarrow> int \<Rightarrow> bool" where
  "row_ok b row \<longleftrightarrow> 0 \<le> row \<and> row < count b"

text \<open>\<open>buffer_insert_char\<close>, \<open>buffer_delete_char\<close> and \<open>buffer_split_line\<close> of
  version 0.3 read \<open>b->len[row]\<close> and \<open>b->lines[row]\<close> without a check of \<open>row\<close>. On
  the list of lines they are described at the rows of the document; at any other row
  the result is \<open>None\<close>, which here says that the list does not determine what the call
  does (the slot may be outside the arrays, never used, or stale). The functions
  \<open>buffer_insert_char_mem\<close>, \<open>buffer_delete_char_mem\<close> and \<open>buffer_split_line_mem\<close>
  describe the calls at every row.\<close>

definition buffer_insert_char :: "editor \<Rightarrow> int \<Rightarrow> int \<Rightarrow> char \<Rightarrow> editor option" where
  "buffer_insert_char e row col c =
     (let b = buf e in
      if \<not> row_ok b row then None
      else
        let L = len b ! nat row;
            col1 = (if col < 0 then 0 else col);
            col2 = (if col1 > L then L else col1);
            s = lines b ! nat row
        in Some (e\<lparr>buf := b\<lparr>
               lines := (lines b)[nat row :=
                  take (nat col2) s @ [c] @ take (nat (L - col2)) (drop (nat col2) s)],
               len := (len b)[nat row := L + 1]\<rparr>,
             dirty := True\<rparr>))"

definition buffer_delete_char :: "editor \<Rightarrow> int \<Rightarrow> int \<Rightarrow> editor option" where
  "buffer_delete_char e row col =
     (let b = buf e in
      if \<not> row_ok b row then None
      else
        let L = len b ! nat row; s = lines b ! nat row in
        if col \<le> 0 \<or> col > L then Some e
        else Some (e\<lparr>buf := b\<lparr>
               lines := (lines b)[nat row :=
                  take (nat (col - 1)) s @ take (nat (L - col)) (drop (nat col) s)],
               len := (len b)[nat row := L - 1]\<rparr>,
             dirty := True\<rparr>))"

definition buffer_split_line :: "editor \<Rightarrow> int \<Rightarrow> int \<Rightarrow> editor option" where
  "buffer_split_line e row col =
     (let b = buf e in
      if \<not> row_ok b row then None
      else
        let L = len b ! nat row;
            col1 = (if col < 0 then 0 else col);
            col2 = (if col1 > L then L else col1);
            right = drop (nat col2) (lines b ! nat row)
        in case buffer_insert_line e (row + 1) right (L - col2) of
             None \<Rightarrow> None
           | Some e1 \<Rightarrow>
               let b1 = buf e1 in
               Some (e1\<lparr>buf := b1\<lparr>
                  lines := (lines b1)[nat row := take (nat col2) (lines b1 ! nat row)],
                  len := (len b1)[nat row := col2]\<rparr>,
                dirty := True\<rparr>))"

definition buffer_join_with_prev :: "editor \<Rightarrow> int \<Rightarrow> editor option" where
  "buffer_join_with_prev e row =
     (let b = buf e in
      if row \<le> 0 \<or> row \<ge> count b then Some e
      else
        let Lp = len b ! nat (row - 1);
            Lc = len b ! nat row;
            joined = take (nat Lp) (lines b ! nat (row - 1)) @ take (nat Lc) (lines b ! nat row);
            ls = (lines b)[nat (row - 1) := joined];
            ns = (len b)[nat (row - 1) := Lp + Lc]
        in Some (e\<lparr>buf := b\<lparr>
               lines := shift_remove ls row (count b - row - 1),
               len := shift_remove ns row (count b - row - 1),
               count := count b - 1\<rparr>,
             dirty := True\<rparr>))"

text \<open>Version 0.1 guards the row in the three functions that version 0.3 leaves
  unguarded; the bodies are the same.\<close>

definition buffer_insert_char_v1 :: "editor \<Rightarrow> int \<Rightarrow> int \<Rightarrow> char \<Rightarrow> editor option" where
  "buffer_insert_char_v1 e row col c =
     (if row < 0 \<or> row \<ge> count (buf e) then Some e else buffer_insert_char e row col c)"

definition buffer_delete_char_v1 :: "editor \<Rightarrow> int \<Rightarrow> int \<Rightarrow> editor option" where
  "buffer_delete_char_v1 e row col =
     (if row < 0 \<or> row \<ge> count (buf e) then Some e else buffer_delete_char e row col)"

definition buffer_split_line_v1 :: "editor \<Rightarrow> int \<Rightarrow> int \<Rightarrow> editor option" where
  "buffer_split_line_v1 e row col =
     (if row < 0 \<or> row \<ge> count (buf e) then Some e else buffer_split_line e row col)"

section \<open>File I/O\<close>

text \<open>\<open>getline\<close>: the file's bytes are cut after every line feed; a last line
  without one is delivered as it is. The first argument collects the current line.\<close>

fun getlines :: "string \<Rightarrow> string \<Rightarrow> string list" where
  "getlines cur [] = (if cur = [] then [] else [cur])"
| "getlines cur (c # cs) =
     (if c = LF then (cur @ [c]) # getlines [] cs else getlines (cur @ [c]) cs)"

text \<open>\<^verbatim>\<open>while (n > 0 && (line[n-1] == '\n' || line[n-1] == '\r')) n--;\<close>\<close>

fun strip_eol :: "string \<Rightarrow> nat \<Rightarrow> nat" where
  "strip_eol line 0 = 0"
| "strip_eol line (Suc n) =
     (if line ! n = LF \<or> line ! n = CR then strip_eol line n else Suc n)"

text \<open>The body of the \<open>getline\<close> loop of \<open>editor_open\<close>; \<open>first\<close> is the local flag.\<close>

fun load_lines :: "editor \<Rightarrow> bool \<Rightarrow> string list \<Rightarrow> editor option" where
  "load_lines e first [] = Some e"
| "load_lines e first (line # rest) =
     (let n = int (strip_eol line (length line)) in
      if first then
        load_lines (e\<lparr>buf := (buf e)\<lparr>
            lines := (lines (buf e))[0 := take (nat n) line],
            len := (len (buf e))[0 := n]\<rparr>\<rparr>) False rest
      else case buffer_insert_line e (count (buf e)) line n of
             None \<Rightarrow> None
           | Some e1 \<Rightarrow> load_lines e1 False rest)"

text \<open>\<open>editor_open(path)\<close>; \<open>file\<close> is what \<open>fopen\<close> finds: \<open>None\<close> when the file
  cannot be opened, else its bytes. \<open>filename\<close> is a \<open>char[256]\<close>, so \<open>snprintf\<close>
  keeps at most 255 bytes. Both versions have the same body.\<close>

definition editor_open :: "editor \<Rightarrow> string \<Rightarrow> string option \<Rightarrow> editor option" where
  "editor_open e path file =
     (case file of
        None \<Rightarrow> Some (e\<lparr>filename := take 255 path\<rparr>)
      | Some data \<Rightarrow>
          (case load_lines (e\<lparr>buf := buffer_init\<rparr>) True (getlines [] data) of
             None \<Rightarrow> None
           | Some e1 \<Rightarrow> Some (e1\<lparr>filename := take 255 path, dirty := False\<rparr>)))"

text \<open>The outcomes of the system calls of one save: whether \<open>open\<close>, the \<open>k\<close>-th
  \<open>write\<close> (counted from 0), \<open>fsync\<close>, \<open>close\<close> and \<open>rename\<close> succeed. A \<open>write\<close>
  that succeeds transfers all its bytes; \<open>unlink\<close> of an existing file succeeds; a
  failed call leaves the file system as it was.\<close>

record save_io =
  open_ok :: bool
  write_ok :: "nat \<Rightarrow> bool"
  fsync_ok :: bool
  close_ok :: bool
  rename_ok :: bool

text \<open>System calls that all succeed.\<close>

definition io_ok :: save_io where
  "io_ok = \<lparr>open_ok = True, write_ok = (\<lambda>k. True), fsync_ok = True, close_ok = True, rename_ok = True\<rparr>"

text \<open>The write loop shared by both saves: line \<open>i\<close> then a line feed, stopping at
  the first failed \<open>write\<close>. \<open>k\<close> counts the calls made, \<open>acc\<close> is the file so far.\<close>

function write_lines :: "save_io \<Rightarrow> Buffer \<Rightarrow> int \<Rightarrow> nat \<Rightarrow> string \<Rightarrow> bool \<times> string" where
  "write_lines io b i k acc =
     (if i < count b then
        (if \<not> write_ok io k then (False, acc)
         else
           let acc1 = acc @ take (nat (len b ! nat i)) (lines b ! nat i) in
           if \<not> write_ok io (k + 1) then (False, acc1)
           else write_lines io b (i + 1) (k + 2) (acc1 @ [LF]))
      else (True, acc))"
  by pat_completeness auto
termination
  by (relation "measure (\<lambda>(io, b, i, k, acc). nat (count b - i))") auto

declare write_lines.simps [simp del]

definition tmpname :: "editor \<Rightarrow> string" where
  "tmpname e = take 299 (filename e @ ''.tmp'')"

text \<open>Version 0.3: write \<open><name>.tmp\<close>, \<open>fsync\<close>, \<open>close\<close>, \<open>rename\<close>.\<close>

definition editor_save_atomic :: "save_io \<Rightarrow> fs \<Rightarrow> editor \<Rightarrow> bool \<times> fs \<times> editor" where
  "editor_save_atomic io fs e =
     (if \<not> open_ok io then (False, fs, e)
      else
        let (ok1, data) = write_lines io (buf e) 0 0 [];
            fs1 = fs(tmpname e \<mapsto> data);
            ok2 = (if ok1 \<and> \<not> fsync_ok io then False else ok1);
            ok3 = (if \<not> close_ok io then False else ok2)
        in if \<not> ok3 then (False, fs1(tmpname e := None), e)
           else if \<not> rename_ok io then (False, fs1(tmpname e := None), e)
           else (True, (fs1(filename e \<mapsto> data))(tmpname e := None), e\<lparr>dirty := False\<rparr>))"

text \<open>Version 0.1: the target itself is opened with \<open>O_TRUNC\<close> and written in place.\<close>

definition editor_save_v1 :: "save_io \<Rightarrow> fs \<Rightarrow> editor \<Rightarrow> bool \<times> fs \<times> editor" where
  "editor_save_v1 io fs e =
     (if \<not> open_ok io then (False, fs, e)
      else
        let (ok, data) = write_lines io (buf e) 0 0 [];
            fs1 = fs(filename e \<mapsto> data)
        in if \<not> ok then (False, fs1, e)
           else (True, fs1, e\<lparr>dirty := False\<rparr>))"

section \<open>View\<close>

text \<open>\<open>get_window_size\<close> is the environment's answer: \<open>None\<close> when the query
  fails, else rows and columns.\<close>

definition editor_update_dimensions :: "editor \<Rightarrow> (int \<times> int) option \<Rightarrow> bool \<times> editor" where
  "editor_update_dimensions e ws =
     (let v = view e;
          (rows, cols) = (case ws of
             Some rc \<Rightarrow> rc
           | None \<Rightarrow> (if screenrows v > 0 then screenrows v + 2 else 24,
                      if screencols v > 0 then screencols v else 80));
          textrows = (if rows - 2 < 1 then 1 else rows - 2);
          changed = (textrows \<noteq> screenrows v \<or> cols \<noteq> screencols v)
      in (changed, e\<lparr>view := v\<lparr>screenrows := textrows, screencols := cols\<rparr>\<rparr>))"

definition editor_scroll :: "editor \<Rightarrow> editor" where
  "editor_scroll e =
     (let v = view e;
          ro1 = (if cy v < rowoff v then cy v else rowoff v);
          ro2 = (if cy v \<ge> ro1 + screenrows v then cy v - screenrows v + 1 else ro1);
          co1 = (if cx v < coloff v then cx v else coloff v);
          co2 = (if cx v \<ge> co1 + screencols v then cx v - screencols v + 1 else co1)
      in e\<lparr>view := v\<lparr>rowoff := ro2, coloff := co2\<rparr>\<rparr>)"

definition editor_scroll_v1 :: "editor \<Rightarrow> editor" where
  "editor_scroll_v1 e =
     (let v = view e;
          ro1 = (if cy v < rowoff v then cy v else rowoff v);
          ro2 = (if cy v \<ge> ro1 + screenrows v - 1 then cy v - screenrows v + 2 else ro1);
          co1 = (if coloff v < 0 then 0 else coloff v)
      in e\<lparr>view := v\<lparr>rowoff := ro2, coloff := co1\<rparr>\<rparr>)"

text \<open>Of \<open>editor_draw_screen\<close> only the state change is kept: version 0.3 scrolls
  inside it, version 0.1 draws without touching the state.\<close>

definition editor_draw_screen :: "editor \<Rightarrow> editor" where
  "editor_draw_screen e = editor_scroll e"

section \<open>Movement and editing, version 0.3\<close>

definition set_cursor_col :: "editor \<Rightarrow> editor" where
  \<comment> \<open>\<^verbatim>\<open>int L = buf.len[view.cy]; view.cx = (view.pref_cx <= L) ? view.pref_cx : L;\<close>\<close>
  "set_cursor_col e =
     (let v = view e; L = len (buf e) ! nat (cy v)
      in e\<lparr>view := v\<lparr>cx := (if pref_cx v \<le> L then pref_cx v else L)\<rparr>\<rparr>)"

definition editor_move_cursor_vert :: "editor \<Rightarrow> int \<Rightarrow> editor option" where
  "editor_move_cursor_vert e key =
     (let v = view e;
          page = (if screenrows v - 2 < 1 then 1 else screenrows v - 2);
          y = (if key = 1005
               then (if cy v - page < 0 then 0 else cy v - page)
               else (if cy v + page \<ge> count (buf e) then count (buf e) - 1 else cy v + page))
      in if \<not> row_ok (buf e) y then None
         else Some (set_cursor_col (e\<lparr>view := v\<lparr>cy := y\<rparr>\<rparr>)))"

definition editor_move_cursor :: "editor \<Rightarrow> int \<Rightarrow> editor option" where
  "editor_move_cursor e key =
     (let v = view e; b = buf e in
      if key = 1004 then
        (if cx v > 0 then Some (e\<lparr>view := v\<lparr>cx := cx v - 1, pref_cx := cx v - 1\<rparr>\<rparr>)
         else if cy v > 0 then
           (if \<not> row_ok b (cy v - 1) then None
            else Some (e\<lparr>view := v\<lparr>cy := cy v - 1, cx := len b ! nat (cy v - 1),
                                    pref_cx := len b ! nat (cy v - 1)\<rparr>\<rparr>))
         else Some e)
      else if key = 1003 then
        (if cy v < count b then
           (if \<not> row_ok b (cy v) then None
            else if cx v < len b ! nat (cy v)
              then Some (e\<lparr>view := v\<lparr>cx := cx v + 1, pref_cx := cx v + 1\<rparr>\<rparr>)
            else if cy v + 1 < count b
              then Some (e\<lparr>view := v\<lparr>cy := cy v + 1, cx := 0, pref_cx := 0\<rparr>\<rparr>)
            else Some e)
         else Some e)
      else if key = 1001 then
        (let y = (if cy v > 0 then cy v - 1 else cy v) in
         if \<not> row_ok b y then None
         else Some (set_cursor_col (e\<lparr>view := v\<lparr>cy := y\<rparr>\<rparr>)))
      else if key = 1002 then
        (if cy v + 1 < count b then
           (if \<not> row_ok b (cy v + 1) then None
            else Some (set_cursor_col (e\<lparr>view := v\<lparr>cy := cy v + 1\<rparr>\<rparr>)))
         else case buffer_append_empty e of
                None \<Rightarrow> None
              | Some e1 \<Rightarrow>
                  if \<not> row_ok (buf e1) (cy v + 1) then None
                  else Some (set_cursor_col (e1\<lparr>view := v\<lparr>cy := cy v + 1\<rparr>\<rparr>)))
      else if key = 72 then Some (e\<lparr>view := v\<lparr>cx := 0, pref_cx := 0\<rparr>\<rparr>)
      else if key = 69 then
        (if \<not> row_ok b (cy v) then None
         else Some (e\<lparr>view := v\<lparr>cx := len b ! nat (cy v), pref_cx := len b ! nat (cy v)\<rparr>\<rparr>))
      else Some e)"

definition clear_highlight :: "editor \<Rightarrow> editor" where
  \<comment> \<open>\<^verbatim>\<open>hl_row = hl_col = hl_len = -1;\<close>\<close>
  "clear_highlight e = e\<lparr>hl_row := -1, hl_col := -1, hl_len := -1\<rparr>"

text \<open>\<open>(char)c\<close> for a key code.\<close>

definition char_of_key :: "int \<Rightarrow> char" where
  "char_of_key c = char_of (c mod 256)"

definition editor_insert_char :: "editor \<Rightarrow> int \<Rightarrow> editor option" where
  "editor_insert_char e c =
     (case buffer_insert_char e (cy (view e)) (cx (view e)) (char_of_key c) of
        None \<Rightarrow> None
      | Some e1 \<Rightarrow>
          Some (clear_highlight
            (e1\<lparr>view := (view e1)\<lparr>cx := cx (view e1) + 1, pref_cx := cx (view e1) + 1\<rparr>\<rparr>)))"

definition editor_insert_newline :: "editor \<Rightarrow> editor option" where
  "editor_insert_newline e =
     (case buffer_split_line e (cy (view e)) (cx (view e)) of
        None \<Rightarrow> None
      | Some e1 \<Rightarrow>
          Some (clear_highlight
            (e1\<lparr>view := (view e1)\<lparr>cy := cy (view e1) + 1, cx := 0, pref_cx := 0\<rparr>\<rparr>)))"

definition editor_backspace :: "editor \<Rightarrow> editor option" where
  "editor_backspace e =
     (let v = view e in
      if cx v > 0 then
        (case buffer_delete_char e (cy v) (cx v) of
           None \<Rightarrow> None
         | Some e1 \<Rightarrow>
             Some (clear_highlight (e1\<lparr>view := v\<lparr>cx := cx v - 1, pref_cx := cx v - 1\<rparr>\<rparr>)))
      else if cy v > 0 then
        (if \<not> row_ok (buf e) (cy v - 1) then None
         else
           let prev_len = len (buf e) ! nat (cy v - 1) in
           case buffer_join_with_prev e (cy v) of
             None \<Rightarrow> None
           | Some e1 \<Rightarrow>
               Some (clear_highlight
                 (e1\<lparr>view := v\<lparr>cy := cy v - 1, cx := prev_len, pref_cx := prev_len\<rparr>\<rparr>)))
      else Some (clear_highlight e))"

section \<open>Movement and editing, version 0.1\<close>

definition clamp_cursor_col_v1 :: "editor \<Rightarrow> editor" where
  \<comment> \<open>\<^verbatim>\<open>if (view.cx > buf.len[view.cy]) view.cx = buf.len[view.cy];\<close>\<close>
  "clamp_cursor_col_v1 e =
     (let v = view e; L = len (buf e) ! nat (cy v)
      in if cx v > L then e\<lparr>view := v\<lparr>cx := L\<rparr>\<rparr> else e)"

definition move_cursor_v1 :: "editor \<Rightarrow> int \<Rightarrow> editor option" where
  "move_cursor_v1 e key =
     (let v = view e; b = buf e in
      if key = 1004 then
        (if cx v > 0 then Some (e\<lparr>view := v\<lparr>cx := cx v - 1\<rparr>\<rparr>)
         else if cy v > 0 then
           (if \<not> row_ok b (cy v - 1) then None
            else Some (e\<lparr>view := v\<lparr>cy := cy v - 1, cx := len b ! nat (cy v - 1)\<rparr>\<rparr>))
         else Some e)
      else if key = 1003 then
        (if cy v < count b then
           (if \<not> row_ok b (cy v) then None
            else if cx v < len b ! nat (cy v) then Some (e\<lparr>view := v\<lparr>cx := cx v + 1\<rparr>\<rparr>)
            else if cy v + 1 < count b then Some (e\<lparr>view := v\<lparr>cy := cy v + 1, cx := 0\<rparr>\<rparr>)
            else Some e)
         else Some e)
      else if key = 1001 then
        (let y = (if cy v > 0 then cy v - 1 else cy v) in
         if \<not> row_ok b y then None
         else Some (clamp_cursor_col_v1 (e\<lparr>view := v\<lparr>cy := y\<rparr>\<rparr>)))
      else if key = 1002 then
        (let y = (if cy v + 1 < count b then cy v + 1 else cy v) in
         if \<not> row_ok b y then None
         else Some (clamp_cursor_col_v1 (e\<lparr>view := v\<lparr>cy := y\<rparr>\<rparr>)))
      else if key = 72 then Some (e\<lparr>view := v\<lparr>cx := 0\<rparr>\<rparr>)
      else if key = 69 then
        (if \<not> row_ok b (cy v) then None
         else Some (e\<lparr>view := v\<lparr>cx := len b ! nat (cy v)\<rparr>\<rparr>))
      else Some e)"

definition insert_char_v1 :: "editor \<Rightarrow> int \<Rightarrow> editor option" where
  "insert_char_v1 e c =
     (case buffer_insert_char_v1 e (cy (view e)) (cx (view e)) (char_of_key c) of
        None \<Rightarrow> None
      | Some e1 \<Rightarrow> Some (e1\<lparr>view := (view e1)\<lparr>cx := cx (view e1) + 1\<rparr>\<rparr>))"

definition insert_newline_v1 :: "editor \<Rightarrow> editor option" where
  "insert_newline_v1 e =
     (case buffer_split_line_v1 e (cy (view e)) (cx (view e)) of
        None \<Rightarrow> None
      | Some e1 \<Rightarrow> Some (e1\<lparr>view := (view e1)\<lparr>cy := cy (view e1) + 1, cx := 0\<rparr>\<rparr>))"

definition backspace_op_v1 :: "editor \<Rightarrow> editor option" where
  "backspace_op_v1 e =
     (let v = view e in
      if cx v > 0 then
        (case buffer_delete_char_v1 e (cy v) (cx v) of
           None \<Rightarrow> None
         | Some e1 \<Rightarrow> Some (e1\<lparr>view := v\<lparr>cx := cx v - 1\<rparr>\<rparr>))
      else if cy v > 0 then
        (if \<not> row_ok (buf e) (cy v - 1) then None
         else
           let prev_len = len (buf e) ! nat (cy v - 1) in
           case buffer_join_with_prev e (cy v) of
             None \<Rightarrow> None
           | Some e1 \<Rightarrow> Some (e1\<lparr>view := v\<lparr>cy := cy v - 1, cx := prev_len\<rparr>\<rparr>))
      else Some e)"

section \<open>Search\<close>

text \<open>C strings. A line holds \<open>len\<close> bytes before its terminator, and any of them may
  be a NUL byte (a file read by \<open>getline\<close> can contain one); a function of
  \<^verbatim>\<open>string.h\<close> sees the bytes up to the first NUL only.\<close>

definition NUL :: char where
  "NUL = CHR 0x00"

definition c_str :: "string \<Rightarrow> string" where
  "c_str s = takeWhile (\<lambda>c. c \<noteq> NUL) s"

definition strlen :: "string \<Rightarrow> nat" where
  "strlen s = length (c_str s)"

text \<open>The offset of the first place where the bytes \<open>q\<close> start in the bytes \<open>h\<close>.\<close>

fun find_sub :: "string \<Rightarrow> string \<Rightarrow> nat option" where
  "find_sub [] q = (if q = [] then Some 0 else None)"
| "find_sub (h # hs) q =
     (if prefix q (h # hs) then Some 0 else map_option Suc (find_sub hs q))"

text \<open>\<open>strstr(hay, q)\<close>: the offset of the first occurrence of the C string \<open>q\<close> in the
  C string \<open>hay\<close>. Here \<open>hay\<close> is given by the bytes from the pointer to the end of the
  line, and \<open>q\<close> by the bytes of the query.\<close>

definition strstr :: "string \<Rightarrow> string \<Rightarrow> nat option" where
  "strstr hay q = find_sub (c_str hay) (c_str q)"

datatype scan = Fault | NoMatch | Match int int

text \<open>The inner loop of \<open>editor_find_next\<close>:
  \<^verbatim>\<open>for (; r < buf.count; r++, c = 0)\<close>. A negative row or start offset reads before
  the array (\<open>Fault\<close>).\<close>

function find_rows :: "Buffer \<Rightarrow> string \<Rightarrow> int \<Rightarrow> int \<Rightarrow> scan" where
  "find_rows b q r c =
     (if r < count b then
        (if r < 0 then Fault
         else
           let L = len b ! nat r; off = (if c < L then c else L) in
           if L = 0 then find_rows b q (r + 1) 0
           else if off < 0 then Fault
           else case strstr (drop (nat off) (lines b ! nat r)) q of
                  Some i \<Rightarrow> Match r (off + int i)
                | None \<Rightarrow> find_rows b q (r + 1) 0)
      else NoMatch)"
  by pat_completeness auto
termination
  by (relation "measure (\<lambda>(b, q, r, c). nat (count b - r))") auto

declare find_rows.simps [simp del]

definition found_at :: "editor \<Rightarrow> int \<Rightarrow> int \<Rightarrow> editor" where
  "found_at e r c =
     e\<lparr>last_match_row := r, last_match_col := c,
       hl_row := r, hl_col := c, hl_len := int (strlen (last_query e)),
       view := (view e)\<lparr>cy := r, cx := c, pref_cx := c\<rparr>\<rparr>"

text \<open>The two rounds of \<open>editor_find_next\<close>: from the start position, then from the
  top of the document.\<close>

definition editor_find_next :: "editor \<Rightarrow> bool \<Rightarrow> (editor \<times> bool) option" where
  "editor_find_next e from_current =
     (if c_str (last_query e) = [] then Some (e, False)
      else
        let r = (if from_current then cy (view e) else last_match_row e);
            c = (if from_current then cx (view e) else last_match_col e + 1)
        in case find_rows (buf e) (last_query e) r c of
             Fault \<Rightarrow> None
           | Match r1 c1 \<Rightarrow> Some (found_at e r1 c1, True)
           | NoMatch \<Rightarrow>
               (case find_rows (buf e) (last_query e) 0 0 of
                  Fault \<Rightarrow> None
                | Match r1 c1 \<Rightarrow> Some (found_at e r1 c1, True)
                | NoMatch \<Rightarrow> Some (e, False)))"

section \<open>Keyboard input\<close>

text \<open>What one \<open>read(STDIN_FILENO, &c, 1)\<close> returns: a byte, nothing within the wait
  (0, or -1 with \<open>EAGAIN\<close>), or an error. The input is the list of these results.\<close>

datatype rd = RByte char | RNone | RError

text \<open>The opening loop of \<open>editor_read_key\<close>: it waits for a byte, and \<open>die\<close>s on an
  error; an input that never delivers a byte keeps it waiting for ever.\<close>

fun wait_byte :: "rd list \<Rightarrow> (char \<times> rd list) option" where
  "wait_byte [] = None"
| "wait_byte (RByte c # inp) = Some (c, inp)"
| "wait_byte (RNone # inp) = wait_byte inp"
| "wait_byte (RError # inp) = None"

text \<open>A single \<open>read\<close> tested with \<open>!= 1\<close>.\<close>

fun read1 :: "rd list \<Rightarrow> char option \<times> rd list" where
  "read1 [] = (None, [])"
| "read1 (RByte c # inp) = (Some c, inp)"
| "read1 (x # inp) = (None, inp)"

text \<open>A \<open>char\<close> returned as \<open>int\<close>, \<open>char\<close> being signed.\<close>

definition key_of_char :: "char \<Rightarrow> int" where
  "key_of_char c = (if (of_char c :: int) < 128 then of_char c else of_char c - 256)"

definition is_digit :: "char \<Rightarrow> bool" where
  "is_digit c \<longleftrightarrow> (48::nat) \<le> of_char c \<and> (of_char c :: nat) \<le> 57"

definition is_final :: "char \<Rightarrow> bool" where
  \<comment> \<open>a letter \<open>A\<close> to \<open>Z\<close>, or \<open>~\<close>\<close>
  "is_final c \<longleftrightarrow> ((65::nat) \<le> of_char c \<and> (of_char c :: nat) \<le> 90) \<or> c = CHR ''~''"

text \<open>Version 0.3 collects up to 16 bytes after ESC, stopping at a final byte or at
  the first \<open>read\<close> that delivers nothing.\<close>

fun read_seq :: "nat \<Rightarrow> rd list \<Rightarrow> string \<times> rd list" where
  "read_seq 0 inp = ([], inp)"
| "read_seq (Suc n) inp =
     (case read1 inp of
        (None, inp1) \<Rightarrow> ([], inp1)
      | (Some b, inp1) \<Rightarrow>
          if is_final b then ([b], inp1)
          else (let (s, inp2) = read_seq n inp1 in (b # s, inp2)))"

definition arrow_key :: "char \<Rightarrow> int" where
  "arrow_key c =
     (if c = CHR ''A'' then 1001 else if c = CHR ''B'' then 1002
      else if c = CHR ''C'' then 1003 else if c = CHR ''D'' then 1004
      else if c = CHR ''H'' then 72 else if c = CHR ''F'' then 69 else 27)"

definition seq_num :: "string \<Rightarrow> int" where
  \<comment> \<open>\<^verbatim>\<open>for (int i = 1; i < n-1; i++) if (digit) num = num*10 + (seq[i]-'0');\<close>\<close>
  "seq_num s =
     foldl (\<lambda>num ch. if is_digit ch then num * 10 + (of_char ch - 48) else num) 0
       (butlast (tl s))"

definition decode_seq :: "string \<Rightarrow> int" where
  "decode_seq s =
     (if s = [] then 27
      else if s ! 0 = CHR ''['' then
        (if length s = 2 then arrow_key (s ! 1)
         else if length s \<ge> 3 \<and> is_digit (s ! 1) then
           (let num = seq_num s in
            if num = 1 \<or> num = 7 then 72
            else if num = 4 \<or> num = 8 then 69
            else if num = 3 then 127
            else if num = 5 then 1005
            else if num = 6 then 1006
            else 27)
         else 27)
      else if s ! 0 = CHR ''O'' then (if length s = 2 then arrow_key (s ! 1) else 27)
      else 27)"

definition editor_read_key :: "rd list \<Rightarrow> (int \<times> rd list) option" where
  "editor_read_key inp =
     (case wait_byte inp of
        None \<Rightarrow> None
      | Some (c, inp1) \<Rightarrow>
          if c \<noteq> ESC then Some (key_of_char c, inp1)
          else (let (s, inp2) = read_seq 16 inp1 in Some (decode_seq s, inp2)))"

text \<open>Version 0.1 reads two bytes after ESC, and a third one after \<open>ESC [ digit\<close>.\<close>

definition tilde_key_v1 :: "char \<Rightarrow> int" where
  "tilde_key_v1 c =
     (if c = CHR ''1'' then 72 else if c = CHR ''4'' then 69
      else if c = CHR ''3'' then 127 else if c = CHR ''5'' then 1005
      else if c = CHR ''6'' then 1006 else 27)"

definition editor_read_key_v1 :: "rd list \<Rightarrow> (int \<times> rd list) option" where
  "editor_read_key_v1 inp =
     (case wait_byte inp of
        None \<Rightarrow> None
      | Some (c, inp1) \<Rightarrow>
          if c = ESC then
            (case read1 inp1 of
               (None, inp2) \<Rightarrow> Some (27, inp2)
             | (Some s0, inp2) \<Rightarrow>
                 (case read1 inp2 of
                    (None, inp3) \<Rightarrow> Some (27, inp3)
                  | (Some s1, inp3) \<Rightarrow>
                      if s0 = CHR ''['' then
                        (if is_digit s1 then
                           (case read1 inp3 of
                              (None, inp4) \<Rightarrow> Some (27, inp4)
                            | (Some s2, inp4) \<Rightarrow>
                                if s2 = CHR ''~'' then Some (tilde_key_v1 s1, inp4)
                                else Some (27, inp4))
                         else Some (arrow_key s1, inp3))
                      else Some (27, inp3)))
          else Some (key_of_char c, inp1))"

text \<open>\<open>isprint\<close> in the C locale (the program never sets another one). For an argument
  that is no \<open>unsigned char\<close> the C standard leaves the result open; the model takes
  such a key code as not printable.\<close>

definition isprint :: "int \<Rightarrow> bool" where
  "isprint c \<longleftrightarrow> 32 \<le> c \<and> c \<le> 126"

definition CTRL_KEY :: "int \<Rightarrow> int" where
  "CTRL_KEY k = k AND 0x1f"

text \<open>Every key read consumes input; the prompt loop below ends for that reason.\<close>

lemma wait_byte_shorter: "wait_byte inp = Some (c, inp1) \<Longrightarrow> length inp1 < length inp"
  by (induction inp rule: wait_byte.induct) (auto simp: less_Suc_eq)

lemma read1_le: "read1 inp = (x, inp1) \<Longrightarrow> length inp1 \<le> length inp"
  by (induction inp rule: read1.induct) auto

lemma read_seq_le: "read_seq n inp = (s, inp1) \<Longrightarrow> length inp1 \<le> length inp"
proof (induction n arbitrary: inp s inp1)
  case 0
  then show ?case by simp
next
  case (Suc n)
  obtain x inp2 where r: "read1 inp = (x, inp2)" by (cases "read1 inp")
  then have le: "length inp2 \<le> length inp" by (rule read1_le)
  show ?case
  proof (cases x)
    case None
    with Suc.prems r le show ?thesis by simp
  next
    case (Some b)
    show ?thesis
    proof (cases "is_final b")
      case True
      with Suc.prems r le Some show ?thesis by simp
    next
      case False
      obtain s2 inp3 where rs: "read_seq n inp2 = (s2, inp3)" by (cases "read_seq n inp2")
      from Suc.IH [OF rs] have "length inp3 \<le> length inp2" .
      with Suc.prems r le Some False rs show ?thesis by simp
    qed
  qed
qed

lemma editor_read_key_shorter:
  "editor_read_key inp = Some (c, inp1) \<Longrightarrow> length inp1 < length inp"
proof -
  assume a: "editor_read_key inp = Some (c, inp1)"
  then obtain b inp0 where w: "wait_byte inp = Some (b, inp0)"
    by (auto simp: editor_read_key_def split: option.splits)
  then have l0: "length inp0 < length inp" by (rule wait_byte_shorter)
  show ?thesis
  proof (cases "b = ESC")
    case False
    with a w l0 show ?thesis by (simp add: editor_read_key_def)
  next
    case True
    obtain s inp2 where rs: "read_seq 16 inp0 = (s, inp2)" by (cases "read_seq 16 inp0")
    then have "length inp2 \<le> length inp0" by (rule read_seq_le)
    with a w l0 True rs show ?thesis by (simp add: editor_read_key_def)
  qed
qed

section \<open>Prompt and search command, version 0.3\<close>

text \<open>\<open>editor_prompt\<close>: \<open>out\<close> is the query typed so far (the buffer holds 256 bytes).
  The result is the return value, the query, the state and the remaining input.\<close>

function editor_prompt :: "editor \<Rightarrow> string \<Rightarrow> rd list \<Rightarrow> (bool \<times> string \<times> editor \<times> rd list) option" where
  "editor_prompt e out inp =
     (let e1 = editor_draw_screen e in
      case editor_read_key inp of
        None \<Rightarrow> None
      | Some (c, inp1) \<Rightarrow>
          if c = 27 then Some (False, out, e1, inp1)
          else if c = 13 \<or> c = 10 then
            (if length out > 0 then Some (True, out, e1, inp1)
             else editor_prompt e1 out inp1)
          else if c = 127 then
            (if length out > 0 then editor_prompt e1 (butlast out) inp1
             else editor_prompt e1 out inp1)
          else if isprint c then
            (if length out + 1 < 256 then editor_prompt e1 (out @ [char_of_key c]) inp1
             else editor_prompt e1 out inp1)
          else editor_prompt e1 out inp1)"
  by pat_completeness auto
termination
  by (relation "measure (\<lambda>(e, out, inp). length inp)")
     (auto dest: editor_read_key_shorter)

declare editor_prompt.simps [simp del]

definition editor_find :: "editor \<Rightarrow> rd list \<Rightarrow> (editor \<times> rd list) option" where
  "editor_find e inp =
     (case editor_prompt e [] inp of
        None \<Rightarrow> None
      | Some (ok, query, e1, inp1) \<Rightarrow>
          if \<not> ok then Some (clear_highlight e1, inp1)
          else
            let e2 = e1\<lparr>last_query := take 255 query,
                       last_match_row := cy (view e1),
                       last_match_col := cx (view e1) - 1\<rparr>
            in case editor_find_next e2 True of
                 None \<Rightarrow> None
               | Some (e3, found) \<Rightarrow>
                   if \<not> found then Some (clear_highlight e3, inp1)
                   else Some (e3, inp1))"

section \<open>Main loop\<close>

text \<open>The branch of the main loop of version 0.3 for the key \<open>c\<close>. The result holds the
  file system, the state, the remaining input, \<open>exit_editor\<close> and \<open>request_redraw\<close>.\<close>

definition process_key ::
  "save_io \<Rightarrow> fs \<Rightarrow> editor \<Rightarrow> int \<Rightarrow> rd list \<Rightarrow> (fs \<times> editor \<times> rd list \<times> bool \<times> bool) option" where
  "process_key io fs e c inp =
     (if c = CTRL_KEY 113 then
        (if dirty e \<and> quit_times_needed e > 0
         then Some (fs, e\<lparr>quit_times_needed := quit_times_needed e - 1\<rparr>, inp, False, True)
         else Some (fs, e, inp, True, False))
      else if c = CTRL_KEY 115 then
        (let (ok, fs1, e1) = editor_save_atomic io fs e
         in Some (fs1, e1\<lparr>quit_times_needed := 1\<rparr>, inp, False, True))
      else if c = CTRL_KEY 102 then
        (case editor_find e inp of
           None \<Rightarrow> None
         | Some (e1, inp1) \<Rightarrow> Some (fs, e1\<lparr>quit_times_needed := 1\<rparr>, inp1, False, True))
      else if c = CTRL_KEY 110 then
        (case editor_find_next e False of
           None \<Rightarrow> None
         | Some (e1, found) \<Rightarrow> Some (fs, e1\<lparr>quit_times_needed := 1\<rparr>, inp, False, True))
      else if c = 1005 \<or> c = 1006 then
        (case editor_move_cursor_vert e c of
           None \<Rightarrow> None
         | Some e1 \<Rightarrow>
             Some (fs, clear_highlight (e1\<lparr>quit_times_needed := 1\<rparr>), inp, False, True))
      else if c = 1001 \<or> c = 1002 \<or> c = 1003 \<or> c = 1004 \<or> c = 72 \<or> c = 69 then
        (case editor_move_cursor e c of
           None \<Rightarrow> None
         | Some e1 \<Rightarrow>
             Some (fs, clear_highlight (e1\<lparr>quit_times_needed := 1\<rparr>), inp, False, True))
      else if c = 13 \<or> c = 10 then
        (case editor_insert_newline e of
           None \<Rightarrow> None
         | Some e1 \<Rightarrow> Some (fs, e1\<lparr>quit_times_needed := 1\<rparr>, inp, False, True))
      else if c = 127 then
        (case editor_backspace e of
           None \<Rightarrow> None
         | Some e1 \<Rightarrow> Some (fs, e1\<lparr>quit_times_needed := 1\<rparr>, inp, False, True))
      else if isprint c then
        (case editor_insert_char e c of
           None \<Rightarrow> None
         | Some e1 \<Rightarrow> Some (fs, e1\<lparr>quit_times_needed := 1\<rparr>, inp, False, True))
      else Some (fs, e, inp, False, False))"

text \<open>One pass of \<^verbatim>\<open>while (1)\<close> in version 0.3; \<open>ws\<close> is the window size the pass
  obtains. The last component tells whether the loop was left.\<close>

definition main_iteration ::
  "save_io \<Rightarrow> (int \<times> int) option \<Rightarrow> fs \<Rightarrow> editor \<Rightarrow> rd list \<Rightarrow> (fs \<times> editor \<times> rd list \<times> bool) option" where
  "main_iteration io ws fs e inp =
     (case editor_read_key inp of
        None \<Rightarrow> None
      | Some (c, inp1) \<Rightarrow>
          (case process_key io fs e c inp1 of
             None \<Rightarrow> None
           | Some (fs1, e1, inp2, exit_editor, request_redraw) \<Rightarrow>
               if exit_editor then Some (fs1, e1, inp2, True)
               else
                 let (changed, e2) = editor_update_dimensions e1 ws;
                     e3 = (if request_redraw \<or> changed then editor_draw_screen e2 else e2)
                 in Some (fs1, e3, inp2, False)))"

text \<open>The static initialisers of the globals, with the buffer \<open>buffer_init\<close> gives.\<close>

definition editor0 :: editor where
  "editor0 =
     \<lparr>buf = buffer_init,
      view = \<lparr>cx = 0, cy = 0, rowoff = 0, coloff = 0, screenrows = 0, screencols = 0,
              pref_cx = 0\<rparr>,
      dirty = False, filename = ''untitled.txt'', last_query = [],
      last_match_row = -1, last_match_col = -1, hl_row = -1, hl_col = -1, hl_len = 0,
      quit_times_needed = 1\<rparr>"

text \<open>\<open>main\<close> of version 0.3 up to the loop. \<open>arg\<close> is \<open>argv[1]\<close> with what \<open>fopen\<close>
  finds there, when an argument is given.\<close>

definition editor_start :: "(string \<times> string option) option \<Rightarrow> (int \<times> int) option \<Rightarrow> editor option" where
  "editor_start arg ws =
     (case (case arg of
              None \<Rightarrow> Some editor0
            | Some (path, file) \<Rightarrow> editor_open (editor0\<lparr>filename := take 255 path\<rparr>) path file) of
        None \<Rightarrow> None
      | Some e1 \<Rightarrow>
          let e2 = e1\<lparr>view := (view e1)\<lparr>cx := 0, cy := 0, pref_cx := 0, rowoff := 0, coloff := 0\<rparr>\<rparr>
          in Some (editor_draw_screen (snd (editor_update_dimensions e2 ws))))"

text \<open>The states the session of version 0.3 can be in when a key is awaited.\<close>

inductive reachable :: "editor \<Rightarrow> bool" where
  start: "editor_start arg ws = Some e \<Longrightarrow> reachable e"
| step: "reachable e \<Longrightarrow> main_iteration io ws fs e inp = Some (fs1, e1, inp1, False)
           \<Longrightarrow> reachable e1"

text \<open>Version 0.1: the branch of the main loop for the key \<open>c\<close>; the last component is
  whether the loop is left.\<close>

definition process_key_v1 :: "save_io \<Rightarrow> fs \<Rightarrow> editor \<Rightarrow> int \<Rightarrow> (fs \<times> editor \<times> bool) option" where
  "process_key_v1 io fs e c =
     (if c = CTRL_KEY 113 then Some (fs, e, True)
      else if c = CTRL_KEY 115 then
        (let (ok, fs1, e1) = editor_save_v1 io fs e in Some (fs1, e1, False))
      else if c = 1001 \<or> c = 1002 \<or> c = 1003 \<or> c = 1004 \<or> c = 72 \<or> c = 69 then
        map_option (\<lambda>e1. (fs, e1, False)) (move_cursor_v1 e c)
      else if c = 13 \<or> c = 10 then map_option (\<lambda>e1. (fs, e1, False)) (insert_newline_v1 e)
      else if c = 127 then map_option (\<lambda>e1. (fs, e1, False)) (backspace_op_v1 e)
      else if isprint c then map_option (\<lambda>e1. (fs, e1, False)) (insert_char_v1 e c)
      else Some (fs, e, False))"

text \<open>\<open>get_window_size\<close> of version 0.1 asks the terminal for the cursor position and
  reads the answer from standard input: up to 31 bytes, stopping at the byte \<open>R\<close> or
  at the first \<open>read\<close> that delivers nothing. Whatever is pending there, keys
  included, is consumed. \<open>read_reply\<close> is that loop; it returns the bytes stored
  before the terminator the function then writes.\<close>

fun read_reply :: "nat \<Rightarrow> rd list \<Rightarrow> string \<times> rd list" where
  "read_reply 0 inp = ([], inp)"
| "read_reply (Suc n) inp =
     (case read1 inp of
        (None, inp1) \<Rightarrow> ([], inp1)
      | (Some b, inp1) \<Rightarrow>
          if b = CHR ''R'' then ([], inp1)
          else (let (s, inp2) = read_reply n inp1 in (b # s, inp2)))"

text \<open>The conversion \<open>%d\<close> of \<open>sscanf\<close>: white space is skipped, then an optional
  sign and at least one digit are read. The result is the value and the rest of the
  input, or \<open>None\<close> when nothing matches.\<close>

definition isspace :: "char \<Rightarrow> bool" where
  "isspace c \<longleftrightarrow> c = CHR '' '' \<or> ((9::nat) \<le> of_char c \<and> (of_char c :: nat) \<le> 13)"

definition digits_val :: "string \<Rightarrow> int" where
  "digits_val ds = foldl (\<lambda>n ch. n * 10 + (of_char ch - 48)) 0 ds"

definition scan_int :: "string \<Rightarrow> (int \<times> string) option" where
  "scan_int s =
     (let s1 = dropWhile isspace s;
          neg = (s1 \<noteq> [] \<and> hd s1 = CHR ''-'');
          s2 = (if s1 \<noteq> [] \<and> (hd s1 = CHR ''-'' \<or> hd s1 = CHR ''+'') then tl s1 else s1);
          ds = takeWhile is_digit s2
      in if ds = [] then None
         else Some (if neg then - digits_val ds else digits_val ds, dropWhile is_digit s2))"

text \<open>\<^verbatim>\<open>sscanf(s, "%d;%d", rows, cols)\<close>: what \<open>rows\<close> and \<open>cols\<close> hold afterwards.
  A conversion that fails leaves its variable, and the ones after it, as they were.\<close>

definition sscanf_rows_cols :: "string \<Rightarrow> int \<times> int \<Rightarrow> int \<times> int" where
  "sscanf_rows_cols s rc =
     (case scan_int s of
        None \<Rightarrow> rc
      | Some (r, rest) \<Rightarrow>
          if rest \<noteq> [] \<and> hd rest = CHR '';'' then
            (case scan_int (tl rest) of
               None \<Rightarrow> (r, snd rc)
             | Some (c, rest1) \<Rightarrow> (r, c))
          else (r, snd rc))"

text \<open>\<open>get_window_size(&rows, &cols)\<close> of version 0.1: the values of \<open>rows\<close> and
  \<open>cols\<close> after the call, and the input left. \<open>wr\<close> tells whether the two \<open>write\<close>
  calls that send the query succeed; when one fails nothing is read.\<close>

definition get_window_size_v1 :: "bool \<Rightarrow> rd list \<Rightarrow> int \<times> int \<Rightarrow> (int \<times> int) \<times> rd list" where
  "get_window_size_v1 wr inp rc =
     (if \<not> wr then (rc, inp)
      else
        let (s, inp1) = read_reply 31 inp in
        if length s \<ge> 2 \<and> s ! 0 = ESC \<and> s ! 1 = CHR ''[''
        then (sscanf_rows_cols (c_str (drop 2 s)) rc, inp1)
        else (rc, inp1))"

text \<open>\<open>editor_init_dimensions\<close> of version 0.1 ignores the result of the query and
  stores whatever \<open>rows\<close> and \<open>cols\<close> hold afterwards (24 and 80 when the query
  wrote nothing).\<close>

definition editor_init_dimensions_v1 :: "editor \<Rightarrow> bool \<Rightarrow> rd list \<Rightarrow> editor \<times> rd list" where
  "editor_init_dimensions_v1 e wr inp =
     (let (rc, inp1) = get_window_size_v1 wr inp (24, 80)
      in (e\<lparr>view := (view e)\<lparr>screenrows := fst rc - 2, screencols := snd rc\<rparr>\<rparr>, inp1))"

text \<open>One pass of \<^verbatim>\<open>while (1)\<close> in version 0.1; \<open>wr\<close> is whether the window query
  of this pass can be written to the terminal.\<close>

definition main_iteration_v1 ::
  "save_io \<Rightarrow> bool \<Rightarrow> fs \<Rightarrow> editor \<Rightarrow> rd list \<Rightarrow> (fs \<times> editor \<times> rd list \<times> bool) option" where
  "main_iteration_v1 io wr fs e inp =
     (let e1 = editor_scroll_v1 e in
      case editor_read_key_v1 inp of
        None \<Rightarrow> None
      | Some (c, inp1) \<Rightarrow>
          if c = 0 then Some (fs, e1, inp1, False)
          else case process_key_v1 io fs e1 c of
                 None \<Rightarrow> None
               | Some (fs1, e2, exit_editor) \<Rightarrow>
                   if exit_editor then Some (fs1, e2, inp1, True)
                   else (let (e3, inp2) = editor_init_dimensions_v1 e2 wr inp1
                         in Some (fs1, e3, inp2, False)))"

section \<open>The buffer invariant\<close>

text \<open>A buffer is well formed when it has at least one line, \<open>count\<close> used slots
  that fit the capacity, and every cached length is the length of its line.
  \<open>mk_buffer\<close> builds the well-formed buffer of given lines and capacity.\<close>

definition buffer_ok :: "Buffer \<Rightarrow> bool" where
  "buffer_ok b \<longleftrightarrow>
     1 \<le> count b \<and> int (length (lines b)) = count b \<and>
     len b = map (\<lambda>l. int (length l)) (lines b) \<and> count b \<le> cap b"

definition mk_buffer :: "string list \<Rightarrow> int \<Rightarrow> Buffer" where
  "mk_buffer ls c = \<lparr>lines = ls, len = map (\<lambda>l. int (length l)) ls, count = int (length ls), cap = c\<rparr>"

lemma buffer_ok_mk: "buffer_ok (mk_buffer ls c) \<longleftrightarrow> ls \<noteq> [] \<and> int (length ls) \<le> c"
  by (cases ls) (auto simp: buffer_ok_def mk_buffer_def)

lemma buffer_ok_eq: "buffer_ok b \<Longrightarrow> b = mk_buffer (lines b) (cap b)"
  by (simp add: buffer_ok_def mk_buffer_def)

lemma mk_buffer_sel [simp]:
  "lines (mk_buffer ls c) = ls" "len (mk_buffer ls c) = map (\<lambda>l. int (length l)) ls"
  "count (mk_buffer ls c) = int (length ls)" "cap (mk_buffer ls c) = c"
  by (simp_all add: mk_buffer_def)

lemma grow_cap_some: "0 < c \<Longrightarrow> \<exists>c'. grow_cap c need = Some c' \<and> need \<le> c' \<and> c \<le> c'"
proof (induction c need rule: grow_cap.induct)
  case (1 c need)
  show ?case
  proof (cases "c < need")
    case True
    with "1.prems" have "0 < c * 2" by simp
    with "1.IH" True "1.prems" obtain c' where "grow_cap (c * 2) need = Some c'" "need \<le> c'" "c * 2 \<le> c'"
      by auto
    with True "1.prems" show ?thesis by (subst grow_cap.simps) auto
  next
    case False
    then show ?thesis by (subst grow_cap.simps) auto
  qed
qed

lemma ensure_capacity_some:
  "0 < cap b \<Longrightarrow> \<exists>c'. buffer_ensure_capacity b need = Some (b\<lparr>cap := c'\<rparr>) \<and> need \<le> c' \<and> cap b \<le> c'"
proof (cases "need \<le> cap b")
  case True
  assume "0 < cap b"
  with True show ?thesis by (auto simp: buffer_ensure_capacity_def intro!: exI [of _ "cap b"])
next
  case False
  assume "0 < cap b"
  from grow_cap_some [OF this, of need] obtain c' where "grow_cap (cap b) need = Some c'" "need \<le> c'" "cap b \<le> c'"
    by auto
  with False show ?thesis by (auto simp: buffer_ensure_capacity_def)
qed

lemma shift_insert_full: "0 \<le> at \<Longrightarrow> at \<le> int (length xs) \<Longrightarrow>
   shift_insert xs at (int (length xs) - at) x = take (nat at) xs @ x # drop (nat at) xs"
  by (simp add: shift_insert_def nat_diff_distrib)

lemma shift_remove_full: "0 \<le> row \<Longrightarrow> row < int (length xs) \<Longrightarrow>
   shift_remove xs row (int (length xs) - row - 1) = take (nat row) xs @ drop (nat (row + 1)) xs"
  by (simp add: shift_remove_def nat_diff_distrib nat_add_distrib)

lemma buffer_insert_line_eq:
  assumes ok: "buffer_ok (buf e)" and at: "0 \<le> at" "at \<le> count (buf e)"
    and n: "0 \<le> n" "n \<le> int (length s)"
  shows "\<exists>c'. buffer_insert_line e at s n =
      Some (e\<lparr>buf := mk_buffer (take (nat at) (lines (buf e)) @ take (nat n) s # drop (nat at) (lines (buf e))) c'\<rparr>)
      \<and> count (buf e) + 1 \<le> c' \<and> cap (buf e) \<le> c'"
proof -
  let ?b = "buf e"
  from ok have cap: "0 < cap ?b" and lenl: "int (length (lines ?b)) = count ?b"
    and lens: "len ?b = map (\<lambda>l. int (length l)) (lines ?b)"
    by (auto simp: buffer_ok_def)
  from ensure_capacity_some [OF cap, of "count ?b + 1"] obtain c' where
    ec: "buffer_ensure_capacity ?b (count ?b + 1) = Some (?b\<lparr>cap := c'\<rparr>)"
    and c': "count ?b + 1 \<le> c'" "cap ?b \<le> c'"
    by auto
  have l1: "shift_insert (lines ?b) at (count ?b - at) (take (nat n) s) =
      take (nat at) (lines ?b) @ take (nat n) s # drop (nat at) (lines ?b)"
    using shift_insert_full [of at "lines ?b"] at lenl by simp
  have l2: "shift_insert (len ?b) at (count ?b - at) n =
      take (nat at) (len ?b) @ n # drop (nat at) (len ?b)"
    using shift_insert_full [of at "len ?b"] at lenl lens by simp
  have m: "map (\<lambda>l. int (length l)) (take (nat at) (lines ?b) @ take (nat n) s # drop (nat at) (lines ?b))
      = take (nat at) (len ?b) @ n # drop (nat at) (len ?b)"
    using n by (auto simp: lens take_map drop_map min_def)
  have c: "int (length (take (nat at) (lines ?b) @ take (nat n) s # drop (nat at) (lines ?b))) = count ?b + 1"
    using at lenl by auto
  have "buffer_insert_line e at s n =
      Some (e\<lparr>buf := (?b\<lparr>cap := c'\<rparr>)\<lparr>
         lines := shift_insert (lines ?b) at (count ?b - at) (take (nat n) s),
         len := shift_insert (len ?b) at (count ?b - at) n,
         count := count ?b + 1\<rparr>\<rparr>)"
    using at n ec by (simp add: buffer_insert_line_def Let_def)
  also have "(?b\<lparr>cap := c'\<rparr>)\<lparr>
         lines := shift_insert (lines ?b) at (count ?b - at) (take (nat n) s),
         len := shift_insert (len ?b) at (count ?b - at) n,
         count := count ?b + 1\<rparr> =
       mk_buffer (take (nat at) (lines ?b) @ take (nat n) s # drop (nat at) (lines ?b)) c'"
    unfolding l1 l2 mk_buffer_def m c by simp
  finally show ?thesis using c' by blast
qed

lemma buffer_ok_rowD:
  "buffer_ok b \<Longrightarrow> row_ok b row \<Longrightarrow>
     nat row < length (lines b) \<and> len b ! nat row = int (length (lines b ! nat row))"
  by (auto simp: buffer_ok_def row_ok_def)

lemma map_len_update:
  "(map (\<lambda>l. int (length l)) ls)[i := int (length x)] = map (\<lambda>l. int (length l)) (ls[i := x])"
  by (simp add: map_update)

lemma buffer_insert_char_eq:
  assumes ok: "buffer_ok (buf e)" and row: "row_ok (buf e) row"
  shows "buffer_insert_char e row col c =
     Some (e\<lparr>buf := mk_buffer ((lines (buf e))[nat row :=
               take (nat col) (lines (buf e) ! nat row) @ c # drop (nat col) (lines (buf e) ! nat row)])
             (cap (buf e)),
           dirty := True\<rparr>)"
proof -
  let ?b = "buf e" and ?l = "lines (buf e) ! nat row"
  from buffer_ok_rowD [OF ok row] have i: "nat row < length (lines ?b)"
    and L: "len ?b ! nat row = int (length ?l)" by auto
  from ok have lens: "len ?b = map (\<lambda>l. int (length l)) (lines ?b)"
    and cnt: "count ?b = int (length (lines ?b))" by (auto simp: buffer_ok_def)
  define col2 where "col2 = (if (if col < 0 then 0 else col) > int (length ?l) then int (length ?l)
                             else (if col < 0 then 0 else col))"
  have t: "take (nat col2) ?l @ [c] @ take (nat (int (length ?l) - col2)) (drop (nat col2) ?l)
       = take (nat col) ?l @ c # drop (nat col) ?l"
    by (auto simp: col2_def)
  have n: "int (length ?l) + 1 = int (length (take (nat col) ?l @ c # drop (nat col) ?l))"
    by auto
  have "buffer_insert_char e row col c =
     Some (e\<lparr>buf := ?b\<lparr>lines := (lines ?b)[nat row := take (nat col) ?l @ c # drop (nat col) ?l],
                        len := (len ?b)[nat row := int (length ?l) + 1]\<rparr>, dirty := True\<rparr>)"
    using row L t by (simp add: buffer_insert_char_def Let_def col2_def)
  also have "?b\<lparr>lines := (lines ?b)[nat row := take (nat col) ?l @ c # drop (nat col) ?l],
                 len := (len ?b)[nat row := int (length ?l) + 1]\<rparr>
      = mk_buffer ((lines ?b)[nat row := take (nat col) ?l @ c # drop (nat col) ?l]) (cap ?b)"
    unfolding n lens map_len_update by (simp add: mk_buffer_def cnt)
  finally show ?thesis .
qed

lemma buffer_delete_char_noop:
  assumes ok: "buffer_ok (buf e)" and row: "row_ok (buf e) row"
    and col: "col \<le> 0 \<or> col > int (length (lines (buf e) ! nat row))"
  shows "buffer_delete_char e row col = Some e"
  using buffer_ok_rowD [OF ok row] row col by (auto simp: buffer_delete_char_def Let_def)

lemma buffer_delete_char_eq:
  assumes ok: "buffer_ok (buf e)" and row: "row_ok (buf e) row"
    and col: "0 < col" "col \<le> int (length (lines (buf e) ! nat row))"
  shows "buffer_delete_char e row col =
     Some (e\<lparr>buf := mk_buffer ((lines (buf e))[nat row :=
               take (nat col - 1) (lines (buf e) ! nat row) @ drop (nat col) (lines (buf e) ! nat row)])
             (cap (buf e)),
           dirty := True\<rparr>)"
proof -
  let ?b = "buf e" and ?l = "lines (buf e) ! nat row"
  from buffer_ok_rowD [OF ok row] have i: "nat row < length (lines ?b)"
    and L: "len ?b ! nat row = int (length ?l)" by auto
  from ok have lens: "len ?b = map (\<lambda>l. int (length l)) (lines ?b)"
    and cnt: "count ?b = int (length (lines ?b))" by (auto simp: buffer_ok_def)
  have t: "take (nat (col - 1)) ?l @ take (nat (int (length ?l) - col)) (drop (nat col) ?l)
       = take (nat col - 1) ?l @ drop (nat col) ?l"
    using col by (simp add: nat_diff_distrib)
  have n: "int (length ?l) - 1 = int (length (take (nat col - 1) ?l @ drop (nat col) ?l))"
    using col by auto
  have "buffer_delete_char e row col =
     Some (e\<lparr>buf := ?b\<lparr>lines := (lines ?b)[nat row := take (nat col - 1) ?l @ drop (nat col) ?l],
                        len := (len ?b)[nat row := int (length ?l) - 1]\<rparr>, dirty := True\<rparr>)"
    using row L t col by (simp add: buffer_delete_char_def Let_def)
  also have "?b\<lparr>lines := (lines ?b)[nat row := take (nat col - 1) ?l @ drop (nat col) ?l],
                 len := (len ?b)[nat row := int (length ?l) - 1]\<rparr>
      = mk_buffer ((lines ?b)[nat row := take (nat col - 1) ?l @ drop (nat col) ?l]) (cap ?b)"
    unfolding n lens map_len_update by (simp add: mk_buffer_def cnt)
  finally show ?thesis .
qed

lemma update_in_take_Suc:
  "i < length ls \<Longrightarrow> (take (Suc i) ls @ rest)[i := y] = take i ls @ y # rest"
  by (simp add: take_Suc_conv_app_nth list_update_append)

lemma nth_in_take_Suc:
  "i < length ls \<Longrightarrow> (take (Suc i) ls @ rest) ! i = ls ! i"
  by (simp add: nth_append)

lemma buffer_split_line_eq:
  assumes ok: "buffer_ok (buf e)" and row: "row_ok (buf e) row"
  shows "\<exists>c'. buffer_split_line e row col =
     Some (e\<lparr>buf := mk_buffer (take (nat row) (lines (buf e)) @
                 take (nat col) (lines (buf e) ! nat row) #
                 drop (nat col) (lines (buf e) ! nat row) #
                 drop (Suc (nat row)) (lines (buf e))) c',
           dirty := True\<rparr>) \<and> count (buf e) + 1 \<le> c' \<and> cap (buf e) \<le> c'"
proof -
  let ?b = "buf e" and ?l = "lines (buf e) ! nat row" and ?i = "nat row"
  from buffer_ok_rowD [OF ok row] have i: "?i < length (lines ?b)"
    and L: "len ?b ! ?i = int (length ?l)" by auto
  from row have r0: "0 \<le> row" "row < count ?b" by (auto simp: row_ok_def)
  define col2 where "col2 = (if (if col < 0 then 0 else col) > int (length ?l) then int (length ?l)
                             else (if col < 0 then 0 else col))"
  have c2: "0 \<le> col2" "col2 \<le> int (length ?l)" by (auto simp: col2_def)
  have tk: "take (nat col2) ?l = take (nat col) ?l" and dr: "drop (nat col2) ?l = drop (nat col) ?l"
    by (auto simp: col2_def)
  have n: "0 \<le> int (length ?l) - col2" "int (length ?l) - col2 \<le> int (length (drop (nat col2) ?l))"
    using c2 by auto
  have at: "0 \<le> row + 1" "row + 1 \<le> count ?b" using r0 by auto
  from buffer_insert_line_eq [OF ok at n] obtain c' where
    il: "buffer_insert_line e (row + 1) (drop (nat col2) ?l) (int (length ?l) - col2) =
      Some (e\<lparr>buf := mk_buffer (take (nat (row + 1)) (lines ?b) @
          take (nat (int (length ?l) - col2)) (drop (nat col2) ?l) # drop (nat (row + 1)) (lines ?b)) c'\<rparr>)"
    and c': "count ?b + 1 \<le> c'" "cap ?b \<le> c'" by blast
  have s: "nat (row + 1) = Suc ?i" using r0 by simp
  have "take (nat (int (length ?l) - col2)) (drop (nat col2) ?l) = drop (nat col2) ?l"
    using c2 by (simp add: nat_diff_distrib)
  then have tr: "take (nat (int (length ?l) - col2)) (drop (nat col2) ?l) = drop (nat col) ?l"
    by (simp only: dr)
  let ?ls1 = "take (Suc ?i) (lines ?b) @ drop (nat col) ?l # drop (Suc ?i) (lines ?b)"
  let ?ls2 = "take ?i (lines ?b) @ take (nat col) ?l # drop (nat col) ?l # drop (Suc ?i) (lines ?b)"
  have il': "buffer_insert_line e (row + 1) (drop (nat col2) ?l) (int (length ?l) - col2) =
      Some (e\<lparr>buf := mk_buffer ?ls1 c'\<rparr>)"
    using il unfolding s tr .
  have u: "?ls1[?i := take (nat col) (?ls1 ! ?i)] = ?ls2"
    using i by (simp add: update_in_take_Suc nth_in_take_Suc)
  have m0: "col2 = int (length (take (nat col) ?l))" by (auto simp: col2_def)
  have nth: "?ls1 ! ?i = ?l" using i by (simp add: nth_in_take_Suc)
  have m: "col2 = int (length (take (nat col) (?ls1 ! ?i)))"
    unfolding nth by (rule m0)
  have "buffer_split_line e row col =
     (case buffer_insert_line e (row + 1) (drop (nat col2) ?l) (int (length ?l) - col2) of
        None \<Rightarrow> None
      | Some e1 \<Rightarrow> Some (e1\<lparr>buf := (buf e1)\<lparr>
            lines := (lines (buf e1))[?i := take (nat col2) (lines (buf e1) ! ?i)],
            len := (len (buf e1))[?i := col2]\<rparr>, dirty := True\<rparr>))"
    unfolding buffer_split_line_def Let_def L col2_def using row by simp
  also have "\<dots> = Some (e\<lparr>buf := (mk_buffer ?ls1 c')\<lparr>lines := ?ls1[?i := take (nat col2) (?ls1 ! ?i)],
                 len := (map (\<lambda>l. int (length l)) ?ls1)[?i := col2]\<rparr>, dirty := True\<rparr>)"
    unfolding il' by simp
  also have "take (nat col2) (?ls1 ! ?i) = take (nat col) (?ls1 ! ?i)"
    unfolding nth by (rule tk)
  also have "(mk_buffer ?ls1 c')\<lparr>lines := ?ls1[?i := take (nat col) (?ls1 ! ?i)],
                 len := (map (\<lambda>l. int (length l)) ?ls1)[?i := col2]\<rparr> = mk_buffer ?ls2 c'"
    unfolding m map_len_update u using i r0 by (auto simp: mk_buffer_def min_def)
  finally show ?thesis using c' by blast
qed

lemma buffer_join_with_prev_noop:
  "row \<le> 0 \<or> row \<ge> count (buf e) \<Longrightarrow> buffer_join_with_prev e row = Some e"
  by (auto simp: buffer_join_with_prev_def)

lemma buffer_join_with_prev_eq:
  assumes ok: "buffer_ok (buf e)" and row: "0 < row" "row < count (buf e)"
  shows "buffer_join_with_prev e row =
     Some (e\<lparr>buf := mk_buffer (take (nat row - 1) (lines (buf e)) @
                 (lines (buf e) ! (nat row - 1) @ lines (buf e) ! nat row) #
                 drop (Suc (nat row)) (lines (buf e))) (cap (buf e)),
           dirty := True\<rparr>)"
proof -
  let ?b = "buf e" and ?i = "nat row"
  let ?p = "lines ?b ! (?i - 1)" and ?c = "lines ?b ! ?i"
  from ok have lens: "len ?b = map (\<lambda>l. int (length l)) (lines ?b)"
    and cnt: "count ?b = int (length (lines ?b))" by (auto simp: buffer_ok_def)
  from row cnt have i: "0 < ?i" "?i < length (lines ?b)" by auto
  have n1: "nat (row - 1) = ?i - 1" using row by simp
  have Lp: "len ?b ! (?i - 1) = int (length ?p)" and Lc: "len ?b ! ?i = int (length ?c)"
    using i by (simp_all add: lens)
  let ?ls = "(lines ?b)[?i - 1 := ?p @ ?c]"
  let ?res = "take (?i - 1) (lines ?b) @ (?p @ ?c) # drop (Suc ?i) (lines ?b)"
  have k: "count ?b - row - 1 = int (length ?ls) - row - 1" using cnt by simp
  have sr: "shift_remove ?ls row (count ?b - row - 1) = ?res"
  proof -
    have "shift_remove ?ls row (count ?b - row - 1) = take ?i ?ls @ drop (nat (row + 1)) ?ls"
      unfolding k using shift_remove_full [of row ?ls] row cnt by simp
    also have "nat (row + 1) = Suc ?i" using row by simp
    also have "take ?i ?ls = take (?i - 1) (lines ?b) @ [?p @ ?c]"
      using i by (cases ?i) (simp_all add: take_Suc_conv_app_nth)
    also have "drop (Suc ?i) ?ls = drop (Suc ?i) (lines ?b)" using i by simp
    finally show ?thesis by simp
  qed
  have ml: "(len ?b)[?i - 1 := int (length ?p) + int (length ?c)] = map (\<lambda>l. int (length l)) ?ls"
    by (simp add: lens map_update)
  have k2: "count ?b - row - 1 = int (length (map (\<lambda>l. int (length l)) ?ls)) - row - 1"
    using cnt by simp
  have sr2: "shift_remove (map (\<lambda>l. int (length l)) ?ls) row (count ?b - row - 1)
       = map (\<lambda>l. int (length l)) ?res"
  proof -
    have "shift_remove (map (\<lambda>l. int (length l)) ?ls) row (count ?b - row - 1) =
        map (\<lambda>l. int (length l)) (shift_remove ?ls row (count ?b - row - 1))"
      by (simp add: shift_remove_def take_map drop_map)
    then show ?thesis by (simp only: sr)
  qed
  have "buffer_join_with_prev e row =
     Some (e\<lparr>buf := ?b\<lparr>lines := shift_remove ?ls row (count ?b - row - 1),
              len := shift_remove ((len ?b)[?i - 1 := int (length ?p) + int (length ?c)]) row (count ?b - row - 1),
              count := count ?b - 1\<rparr>, dirty := True\<rparr>)"
    using row Lp Lc by (simp add: buffer_join_with_prev_def Let_def n1)
  also have "?b\<lparr>lines := shift_remove ?ls row (count ?b - row - 1),
              len := shift_remove ((len ?b)[?i - 1 := int (length ?p) + int (length ?c)]) row (count ?b - row - 1),
              count := count ?b - 1\<rparr> = mk_buffer ?res (cap ?b)"
    unfolding ml sr sr2 using i cnt by (simp add: mk_buffer_def)
  finally show ?thesis .
qed

lemma buffer_ok_preserved_mk:
  "ls \<noteq> [] \<Longrightarrow> int (length ls) \<le> c \<Longrightarrow> buffer_ok (buf (e\<lparr>buf := mk_buffer ls c, dirty := d\<rparr>))"
  by (simp add: buffer_ok_mk)

section \<open>Split and join\<close>

text \<open>The document of the scenarios of the specification: the lines \<open>ab\<close> and \<open>c\<close>.\<close>

definition doc_ab_c :: editor where
  "doc_ab_c = editor0\<lparr>buf := mk_buffer [''ab'', ''c''] 64\<rparr>"

text \<open>Claim C7. For a well-formed buffer, a valid row \<open>r\<close> and any column \<open>c\<close>,
  \<open>buffer_split_line\<close> at \<open>(r, c)\<close> followed by \<open>buffer_join_with_prev\<close> at
  \<open>r + 1\<close> returns, and gives back the lines, the cached lengths and the line count
  the buffer had before the split. Of the whole state only the capacity (it may have
  been doubled) and the dirty flag (now set) can differ. Version 0.1, whose split
  checks the row first, does the same.\<close>

theorem split_then_join_restores:
  assumes ok: "buffer_ok (buf e)" and row: "0 \<le> r" "r < count (buf e)"
  shows "\<exists>e1 e2. buffer_split_line e r c = Some e1 \<and> buffer_split_line_v1 e r c = Some e1
           \<and> buffer_join_with_prev e1 (r + 1) = Some e2
           \<and> lines (buf e2) = lines (buf e) \<and> len (buf e2) = len (buf e)
           \<and> count (buf e2) = count (buf e)
           \<and> e2 = e\<lparr>buf := (buf e)\<lparr>cap := cap (buf e2)\<rparr>, dirty := True\<rparr>"
proof -
  let ?ls = "lines (buf e)" and ?i = "nat r"
  let ?l = "?ls ! ?i"
  define ls1 where "ls1 = take ?i ?ls @ take (nat c) ?l # drop (nat c) ?l # drop (Suc ?i) ?ls"
  from row have rok: "row_ok (buf e) r" by (simp add: row_ok_def)
  from ok row have i: "?i < length ?ls" by (auto simp: buffer_ok_def)
  from buffer_split_line_eq [OF ok rok, of c] obtain c' where
    sp: "buffer_split_line e r c = Some (e\<lparr>buf := mk_buffer ls1 c', dirty := True\<rparr>)"
    and c': "count (buf e) + 1 \<le> c'" unfolding ls1_def by blast
  let ?e1 = "e\<lparr>buf := mk_buffer ls1 c', dirty := True\<rparr>"
  have len1: "int (length ls1) = count (buf e) + 1"
    using ok i by (auto simp: buffer_ok_def ls1_def)
  have ne1: "ls1 \<noteq> []" by (simp add: ls1_def)
  have ok1: "buffer_ok (buf ?e1)" using c' len1 ne1 by (simp add: buffer_ok_mk)
  have r1: "0 < r + 1" "r + 1 < count (buf ?e1)" using row len1 by simp_all
  have n: "nat (r + 1) = Suc ?i" using row by simp
  have a: "take ?i ls1 = take ?i ?ls" using i by (simp add: ls1_def)
  have b: "ls1 ! ?i = take (nat c) ?l" using i by (simp add: nth_append ls1_def)
  have d: "ls1 ! Suc ?i = drop (nat c) ?l" using i by (simp add: nth_append ls1_def)
  have f: "drop (Suc (Suc ?i)) ls1 = drop (Suc ?i) ?ls" using i by (simp add: ls1_def)
  have restore: "take ?i ?ls @ ?l # drop (Suc ?i) ?ls = ?ls"
    using i by (simp add: id_take_nth_drop [symmetric])
  have "buffer_join_with_prev ?e1 (r + 1) =
      Some (?e1\<lparr>buf := mk_buffer (take (nat (r + 1) - 1) (lines (buf ?e1)) @
                 (lines (buf ?e1) ! (nat (r + 1) - 1) @ lines (buf ?e1) ! nat (r + 1)) #
                 drop (Suc (nat (r + 1))) (lines (buf ?e1))) (cap (buf ?e1)),
           dirty := True\<rparr>)"
    by (rule buffer_join_with_prev_eq [OF ok1 r1])
  also have "\<dots> = Some (e\<lparr>buf := mk_buffer (take ?i ls1 @ (ls1 ! ?i @ ls1 ! Suc ?i) # drop (Suc (Suc ?i)) ls1) c',
           dirty := True\<rparr>)"
    unfolding n by simp
  also have "\<dots> = Some (e\<lparr>buf := mk_buffer ?ls c', dirty := True\<rparr>)"
    unfolding a b d f append_take_drop_id restore ..
  finally have jn: "buffer_join_with_prev ?e1 (r + 1) = Some (e\<lparr>buf := mk_buffer ?ls c', dirty := True\<rparr>)" .
  have v1: "buffer_split_line_v1 e r c = buffer_split_line e r c"
    using row by (simp add: buffer_split_line_v1_def)
  have eq: "e\<lparr>buf := mk_buffer ?ls c', dirty := True\<rparr> = e\<lparr>buf := (buf e)\<lparr>cap := c'\<rparr>, dirty := True\<rparr>"
    using ok by (simp add: buffer_ok_def mk_buffer_def)
  show ?thesis
    using sp jn v1 ok unfolding eq by (simp add: buffer_ok_def)
qed

theorem split_then_join_restores_witness:
  "buffer_ok (buf doc_ab_c) \<and> (0::int) \<le> 0 \<and> 0 < count (buf doc_ab_c) \<and>
   (\<exists>e1 e2. buffer_split_line doc_ab_c 0 1 = Some e1 \<and> buffer_split_line_v1 doc_ab_c 0 1 = Some e1
           \<and> buffer_join_with_prev e1 (0 + 1) = Some e2
           \<and> lines (buf e2) = lines (buf doc_ab_c) \<and> len (buf e2) = len (buf doc_ab_c)
           \<and> count (buf e2) = count (buf doc_ab_c)
           \<and> e2 = doc_ab_c\<lparr>buf := (buf doc_ab_c)\<lparr>cap := cap (buf e2)\<rparr>, dirty := True\<rparr>)"
proof -
  have ok: "buffer_ok (buf doc_ab_c)" by (simp add: doc_ab_c_def buffer_ok_mk)
  have r: "(0::int) \<le> 0" "0 < count (buf doc_ab_c)" by (simp_all add: doc_ab_c_def)
  from split_then_join_restores [OF ok r, of 1] ok r show ?thesis by blast
qed

section \<open>The buffer invariant is kept\<close>

text \<open>Each buffer operation, applied to a well-formed buffer, returns a well-formed
  buffer when it returns.\<close>

lemma buffer_init_ok: "buffer_ok buffer_init"
  by (simp add: buffer_ok_def buffer_init_def)

lemma buffer_insert_line_ok:
  assumes ok: "buffer_ok (buf e)" and r: "buffer_insert_line e at s n = Some e'"
  shows "buffer_ok (buf e')"
proof (cases "at < 0 \<or> at > count (buf e)")
  case True
  with r show ?thesis using ok by (auto simp: buffer_insert_line_def)
next
  case False
  then have at: "0 \<le> at" "at \<le> count (buf e)" by auto
  have n: "0 \<le> n \<and> n \<le> int (length s)"
  proof (rule ccontr)
    assume "\<not> (0 \<le> n \<and> n \<le> int (length s))"
    with False have "buffer_insert_line e at s n = None"
      by (auto simp: buffer_insert_line_def Let_def split: option.splits)
    with r show False by simp
  qed
  then have n': "0 \<le> n" "n \<le> int (length s)" by auto
  from buffer_insert_line_eq [OF ok at n'] r obtain c' where
    e': "e' = e\<lparr>buf := mk_buffer (take (nat at) (lines (buf e)) @ take (nat n) s # drop (nat at) (lines (buf e))) c'\<rparr>"
    and c': "count (buf e) + 1 \<le> c'" by auto
  from ok at have "int (length (take (nat at) (lines (buf e)) @ take (nat n) s # drop (nat at) (lines (buf e)))) = count (buf e) + 1"
    by (auto simp: buffer_ok_def)
  with c' show ?thesis unfolding e' by (simp add: buffer_ok_mk)
qed

lemma buffer_ok_capD: "buffer_ok b \<Longrightarrow> lines b \<noteq> [] \<and> int (length (lines b)) \<le> cap b"
  by (auto simp: buffer_ok_def)

lemma buffer_insert_char_ok:
  assumes ok: "buffer_ok (buf e)" and r: "buffer_insert_char e row col c = Some e'"
  shows "buffer_ok (buf e')"
proof -
  from r have row: "row_ok (buf e) row"
    by (auto simp: buffer_insert_char_def Let_def split: if_splits)
  from buffer_insert_char_eq [OF ok row, of col c] r buffer_ok_capD [OF ok]
  show ?thesis by (auto simp: buffer_ok_mk)
qed

lemma buffer_delete_char_ok:
  assumes ok: "buffer_ok (buf e)" and r: "buffer_delete_char e row col = Some e'"
  shows "buffer_ok (buf e')"
proof -
  from r have row: "row_ok (buf e) row"
    by (auto simp: buffer_delete_char_def Let_def split: if_splits)
  show ?thesis
  proof (cases "0 < col \<and> col \<le> int (length (lines (buf e) ! nat row))")
    case True
    then have c: "0 < col" "col \<le> int (length (lines (buf e) ! nat row))" by auto
    from buffer_delete_char_eq [OF ok row c] r buffer_ok_capD [OF ok]
    show ?thesis by (auto simp: buffer_ok_mk)
  next
    case False
    then have "col \<le> 0 \<or> col > int (length (lines (buf e) ! nat row))" by auto
    from buffer_delete_char_noop [OF ok row this] r ok show ?thesis by simp
  qed
qed

lemma buffer_split_line_ok:
  assumes ok: "buffer_ok (buf e)" and r: "buffer_split_line e row col = Some e'"
  shows "buffer_ok (buf e')"
proof -
  from r have row: "row_ok (buf e) row"
    by (auto simp: buffer_split_line_def Let_def split: if_splits)
  then have i: "nat row < length (lines (buf e))" using ok by (auto simp: buffer_ok_def row_ok_def)
  from buffer_split_line_eq [OF ok row, of col] r obtain c' where
    e': "e' = e\<lparr>buf := mk_buffer (take (nat row) (lines (buf e)) @
                 take (nat col) (lines (buf e) ! nat row) #
                 drop (nat col) (lines (buf e) ! nat row) #
                 drop (Suc (nat row)) (lines (buf e))) c', dirty := True\<rparr>"
    and c': "count (buf e) + 1 \<le> c'" by auto
  from ok i have "int (length (take (nat row) (lines (buf e)) @
                 take (nat col) (lines (buf e) ! nat row) #
                 drop (nat col) (lines (buf e) ! nat row) #
                 drop (Suc (nat row)) (lines (buf e)))) = count (buf e) + 1"
    by (auto simp: buffer_ok_def)
  with c' show ?thesis unfolding e' by (simp add: buffer_ok_mk)
qed

lemma buffer_join_with_prev_ok:
  assumes ok: "buffer_ok (buf e)" and r: "buffer_join_with_prev e row = Some e'"
  shows "buffer_ok (buf e')"
proof (cases "0 < row \<and> row < count (buf e)")
  case True
  then have row: "0 < row" "row < count (buf e)" by auto
  from ok row have "int (length (take (nat row - 1) (lines (buf e)) @
                 (lines (buf e) ! (nat row - 1) @ lines (buf e) ! nat row) #
                 drop (Suc (nat row)) (lines (buf e)))) \<le> cap (buf e)"
    by (auto simp: buffer_ok_def)
  with buffer_join_with_prev_eq [OF ok row] r show ?thesis by (auto simp: buffer_ok_mk)
next
  case False
  then have "row \<le> 0 \<or> row \<ge> count (buf e)" by auto
  from buffer_join_with_prev_noop [OF this] r ok show ?thesis by simp
qed

lemma strip_eol_le: "strip_eol line n \<le> n"
  by (induction n) auto

lemma load_lines_ok:
  "buffer_ok (buf e) \<Longrightarrow> load_lines e first ls = Some e' \<Longrightarrow> buffer_ok (buf e')"
proof (induction ls arbitrary: e first)
  case Nil
  then show ?case by simp
next
  case (Cons line rest)
  let ?n = "strip_eol line (length line)"
  show ?case
  proof (cases first)
    case True
    let ?e1 = "e\<lparr>buf := (buf e)\<lparr>lines := (lines (buf e))[0 := take ?n line],
            len := (len (buf e))[0 := int ?n]\<rparr>\<rparr>"
    have "length (take ?n line) = ?n" using strip_eol_le [of line "length line"] by simp
    then have "buffer_ok (buf ?e1)"
      using Cons.prems(1) by (auto simp: buffer_ok_def map_update)
    moreover from Cons.prems(2) True have "load_lines ?e1 False rest = Some e'"
      by (simp add: Let_def)
    ultimately show ?thesis by (rule Cons.IH)
  next
    case False
    with Cons.prems(2) obtain e1 where
      il: "buffer_insert_line e (count (buf e)) line (int ?n) = Some e1"
      and ll: "load_lines e1 False rest = Some e'"
      by (auto simp: Let_def split: option.splits)
    from buffer_insert_line_ok [OF Cons.prems(1) il] ll show ?thesis by (rule Cons.IH)
  qed
qed

lemma editor_open_ok:
  assumes ok: "buffer_ok (buf e)" and r: "editor_open e path file = Some e'"
  shows "buffer_ok (buf e')"
proof (cases "file")
  case None
  with r ok show ?thesis by (auto simp: editor_open_def)
next
  case (Some data)
  with r obtain e1 where ll: "load_lines (e\<lparr>buf := buffer_init\<rparr>) True (getlines [] data) = Some e1"
    and e': "e' = e1\<lparr>filename := take 255 path, dirty := False\<rparr>"
    by (auto simp: editor_open_def split: option.splits)
  have "buffer_ok (buf (e\<lparr>buf := buffer_init\<rparr>))" by (simp add: buffer_init_ok)
  from load_lines_ok [OF this ll] show ?thesis by (simp add: e')
qed

section \<open>Scrolling\<close>

text \<open>The cursor lies in the document: on an existing row, and on or right after a
  byte of that row.\<close>

definition cursor_ok :: "editor \<Rightarrow> bool" where
  "cursor_ok e \<longleftrightarrow>
     0 \<le> cy (view e) \<and> cy (view e) < count (buf e) \<and>
     0 \<le> cx (view e) \<and> cx (view e) \<le> int (length (lines (buf e) ! nat (cy (view e))))"

lemma cursor_row_ok: "cursor_ok e \<Longrightarrow> row_ok (buf e) (cy (view e))"
  by (simp add: cursor_ok_def row_ok_def)

text \<open>Claim C9. The scroll adjustment is idempotent: applied to its own result, with the
  cursor and the screen dimensions as they are, it changes nothing. It never changes
  the cursor, only \<open>rowoff\<close> and \<open>coloff\<close>. This holds for the adjustment of either
  version and for all values of the fields.\<close>

theorem editor_scroll_idempotent:
  "editor_scroll (editor_scroll e) = editor_scroll e
   \<and> editor_scroll e = e\<lparr>view := (view e)\<lparr>rowoff := rowoff (view (editor_scroll e)),
                                         coloff := coloff (view (editor_scroll e))\<rparr>\<rparr>
   \<and> cx (view (editor_scroll e)) = cx (view e) \<and> cy (view (editor_scroll e)) = cy (view e)
   \<and> editor_scroll_v1 (editor_scroll_v1 e) = editor_scroll_v1 e
   \<and> editor_scroll_v1 e = e\<lparr>view := (view e)\<lparr>rowoff := rowoff (view (editor_scroll_v1 e)),
                                            coloff := coloff (view (editor_scroll_v1 e))\<rparr>\<rparr>
   \<and> cx (view (editor_scroll_v1 e)) = cx (view e) \<and> cy (view (editor_scroll_v1 e)) = cy (view e)"
proof -
  have a: "editor_scroll (editor_scroll e) = editor_scroll e"
    by (simp add: editor_scroll_def Let_def)
  have b: "editor_scroll e = e\<lparr>view := (view e)\<lparr>rowoff := rowoff (view (editor_scroll e)),
                                         coloff := coloff (view (editor_scroll e))\<rparr>\<rparr>"
    by (simp add: editor_scroll_def Let_def)
  have c: "cx (view (editor_scroll e)) = cx (view e)" "cy (view (editor_scroll e)) = cy (view e)"
    by (simp_all add: editor_scroll_def Let_def)
  have a1: "editor_scroll_v1 (editor_scroll_v1 e) = editor_scroll_v1 e"
    by (simp add: editor_scroll_v1_def Let_def)
  have b1: "editor_scroll_v1 e = e\<lparr>view := (view e)\<lparr>rowoff := rowoff (view (editor_scroll_v1 e)),
                                         coloff := coloff (view (editor_scroll_v1 e))\<rparr>\<rparr>"
    by (simp add: editor_scroll_v1_def Let_def)
  have c1: "cx (view (editor_scroll_v1 e)) = cx (view e)" "cy (view (editor_scroll_v1 e)) = cy (view e)"
    by (simp_all add: editor_scroll_v1_def Let_def)
  from a b c a1 b1 c1 show ?thesis by blast
qed

section \<open>The Delete key\<close>

lemma ctrl_keys [simp]:
  "CTRL_KEY 113 = 17" "CTRL_KEY 115 = 19" "CTRL_KEY 102 = 6" "CTRL_KEY 110 = 14"
  by (simp_all add: CTRL_KEY_def)

lemma read_key_delete:
  "editor_read_key (RByte ESC # RByte (CHR ''['') # RByte (CHR ''3'') # RByte (CHR ''~'') # inp) = Some (127, inp)"
  by (simp add: editor_read_key_def ESC_def is_final_def decode_seq_def seq_num_def is_digit_def eval_nat_numeral)

lemma read_key_backspace: "editor_read_key (RByte DEL # inp) = Some (127, inp)"
  by (simp add: editor_read_key_def ESC_def DEL_def key_of_char_def)

lemma read_key_v1_delete:
  "editor_read_key_v1 (RByte ESC # RByte (CHR ''['') # RByte (CHR ''3'') # RByte (CHR ''~'') # inp) = Some (127, inp)"
  by (simp add: editor_read_key_v1_def ESC_def tilde_key_v1_def is_digit_def)

lemma read_key_v1_backspace: "editor_read_key_v1 (RByte DEL # inp) = Some (127, inp)"
  by (simp add: editor_read_key_v1_def ESC_def DEL_def key_of_char_def)

lemma process_key_127:
  "process_key io fs e 127 inp =
     (case editor_backspace e of None \<Rightarrow> None
      | Some e1 \<Rightarrow> Some (fs, e1\<lparr>quit_times_needed := 1\<rparr>, inp, False, True))"
  by (simp add: process_key_def isprint_def)

lemma process_key_v1_127:
  "process_key_v1 io fs e 127 = map_option (\<lambda>e1. (fs, e1, False)) (backspace_op_v1 e)"
  by (simp add: process_key_v1_def)

lemma editor_backspace_char:
  assumes ok: "buffer_ok (buf e)" and cur: "cursor_ok e" and cx: "0 < cx (view e)"
  shows "editor_backspace e =
     Some (clear_highlight ((e\<lparr>buf := mk_buffer ((lines (buf e))[nat (cy (view e)) :=
               take (nat (cx (view e)) - 1) (lines (buf e) ! nat (cy (view e))) @
               drop (nat (cx (view e))) (lines (buf e) ! nat (cy (view e)))]) (cap (buf e)),
           dirty := True\<rparr>)\<lparr>view := (view e)\<lparr>cx := cx (view e) - 1, pref_cx := cx (view e) - 1\<rparr>\<rparr>))"
proof -
  from cur have c: "cx (view e) \<le> int (length (lines (buf e) ! nat (cy (view e))))"
    by (simp add: cursor_ok_def)
  from buffer_delete_char_eq [OF ok cursor_row_ok [OF cur] cx c] cx
  show ?thesis by (simp add: editor_backspace_def Let_def)
qed

lemma editor_backspace_join:
  assumes ok: "buffer_ok (buf e)" and cur: "cursor_ok e" and cx: "cx (view e) = 0"
    and cy: "0 < cy (view e)"
  shows "editor_backspace e =
     Some (clear_highlight ((e\<lparr>buf := mk_buffer (take (nat (cy (view e)) - 1) (lines (buf e)) @
                 (lines (buf e) ! (nat (cy (view e)) - 1) @ lines (buf e) ! nat (cy (view e))) #
                 drop (Suc (nat (cy (view e)))) (lines (buf e))) (cap (buf e)),
           dirty := True\<rparr>)\<lparr>view := (view e)\<lparr>cy := cy (view e) - 1,
              cx := int (length (lines (buf e) ! (nat (cy (view e)) - 1))),
              pref_cx := int (length (lines (buf e) ! (nat (cy (view e)) - 1)))\<rparr>\<rparr>))"
proof -
  from cur have c: "cy (view e) < count (buf e)" by (simp add: cursor_ok_def)
  from cy c have p: "row_ok (buf e) (cy (view e) - 1)" by (simp add: row_ok_def)
  from buffer_ok_rowD [OF ok p] cy have L: "len (buf e) ! nat (cy (view e) - 1) = int (length (lines (buf e) ! (nat (cy (view e)) - 1)))"
    by (simp add: nat_diff_distrib)
  from buffer_join_with_prev_eq [OF ok cy c] cx cy p L
  show ?thesis by (simp add: editor_backspace_def Let_def)
qed

lemma backspace_op_v1_char:
  assumes ok: "buffer_ok (buf e)" and cur: "cursor_ok e" and cx: "0 < cx (view e)"
  shows "backspace_op_v1 e =
     Some ((e\<lparr>buf := mk_buffer ((lines (buf e))[nat (cy (view e)) :=
               take (nat (cx (view e)) - 1) (lines (buf e) ! nat (cy (view e))) @
               drop (nat (cx (view e))) (lines (buf e) ! nat (cy (view e)))]) (cap (buf e)),
           dirty := True\<rparr>)\<lparr>view := (view e)\<lparr>cx := cx (view e) - 1\<rparr>\<rparr>)"
proof -
  from cur have c: "cx (view e) \<le> int (length (lines (buf e) ! nat (cy (view e))))"
    and r: "0 \<le> cy (view e)" "cy (view e) < count (buf e)"
    by (simp_all add: cursor_ok_def)
  from buffer_delete_char_eq [OF ok cursor_row_ok [OF cur] cx c] cx r
  show ?thesis by (simp add: backspace_op_v1_def buffer_delete_char_v1_def Let_def)
qed

lemma backspace_op_v1_join:
  assumes ok: "buffer_ok (buf e)" and cur: "cursor_ok e" and cx: "cx (view e) = 0"
    and cy: "0 < cy (view e)"
  shows "backspace_op_v1 e =
     Some ((e\<lparr>buf := mk_buffer (take (nat (cy (view e)) - 1) (lines (buf e)) @
                 (lines (buf e) ! (nat (cy (view e)) - 1) @ lines (buf e) ! nat (cy (view e))) #
                 drop (Suc (nat (cy (view e)))) (lines (buf e))) (cap (buf e)),
           dirty := True\<rparr>)\<lparr>view := (view e)\<lparr>cy := cy (view e) - 1,
              cx := int (length (lines (buf e) ! (nat (cy (view e)) - 1)))\<rparr>\<rparr>)"
proof -
  from cur have c: "cy (view e) < count (buf e)" by (simp add: cursor_ok_def)
  from cy c have p: "row_ok (buf e) (cy (view e) - 1)" by (simp add: row_ok_def)
  from buffer_ok_rowD [OF ok p] cy have L: "len (buf e) ! nat (cy (view e) - 1) = int (length (lines (buf e) ! (nat (cy (view e)) - 1)))"
    by (simp add: nat_diff_distrib)
  from buffer_join_with_prev_eq [OF ok cy c] cx cy p L
  show ?thesis by (simp add: backspace_op_v1_def Let_def)
qed

text \<open>The bytes a terminal sends for the Delete key, \<open>ESC [ 3 ~\<close>, all available.\<close>

definition delete_seq :: "rd list" where
  "delete_seq = [RByte ESC, RByte (CHR ''[''), RByte (CHR ''3''), RByte (CHR ''~'')]"

text \<open>Backspace on the lines of a document: the byte before column \<open>c\<close> of row \<open>r\<close>
  goes, or row \<open>r\<close> is appended to the row above it.\<close>

definition delete_before :: "string list \<Rightarrow> nat \<Rightarrow> nat \<Rightarrow> string list" where
  "delete_before ls r c = ls[r := take (c - 1) (ls ! r) @ drop c (ls ! r)]"

definition join_rows :: "string list \<Rightarrow> nat \<Rightarrow> string list" where
  "join_rows ls r = take (r - 1) ls @ (ls ! (r - 1) @ ls ! r) # drop (Suc r) ls"

text \<open>What a pass of the main loop does once the key 127 has been decoded, in both
  versions: the backspace operation, then the housekeeping of the loop (the quit
  counter, the window size, the scroll offsets), which touches neither the document
  nor the cursor.\<close>

lemma main_iteration_127:
  assumes "editor_read_key inp0 = Some (127, inp)"
  shows "main_iteration io ws fs e inp0 =
     (case editor_backspace e of None \<Rightarrow> None
      | Some e1 \<Rightarrow>
          Some (fs, editor_draw_screen (snd (editor_update_dimensions (e1\<lparr>quit_times_needed := 1\<rparr>) ws)),
                inp, False))"
  by (simp add: main_iteration_def assms process_key_127 split_def Let_def split: option.splits)

lemma main_iteration_v1_127:
  assumes "editor_read_key_v1 inp0 = Some (127, inp)"
  shows "main_iteration_v1 io wr fs e inp0 =
     (case backspace_op_v1 (editor_scroll_v1 e) of None \<Rightarrow> None
      | Some e2 \<Rightarrow>
          Some (fs, fst (editor_init_dimensions_v1 e2 wr inp),
                snd (editor_init_dimensions_v1 e2 wr inp), False))"
  by (simp add: main_iteration_v1_def assms process_key_v1_127 split_def Let_def
      split: option.splits)

lemma draw_screen_keeps:
  "buf (editor_draw_screen e) = buf e" "cx (view (editor_draw_screen e)) = cx (view e)"
  "cy (view (editor_draw_screen e)) = cy (view e)"
  by (simp_all add: editor_draw_screen_def editor_scroll_def Let_def)

lemma update_dimensions_keeps:
  "buf (snd (editor_update_dimensions e ws)) = buf e"
  "cx (view (snd (editor_update_dimensions e ws))) = cx (view e)"
  "cy (view (snd (editor_update_dimensions e ws))) = cy (view e)"
  by (simp_all add: editor_update_dimensions_def Let_def split_def)

lemma init_dimensions_v1_keeps:
  "buf (fst (editor_init_dimensions_v1 e wr inp)) = buf e"
  "cx (view (fst (editor_init_dimensions_v1 e wr inp))) = cx (view e)"
  "cy (view (fst (editor_init_dimensions_v1 e wr inp))) = cy (view e)"
  by (simp_all add: editor_init_dimensions_v1_def Let_def split_def)

lemma scroll_v1_keeps:
  "buf (editor_scroll_v1 e) = buf e" "cx (view (editor_scroll_v1 e)) = cx (view e)"
  "cy (view (editor_scroll_v1 e)) = cy (view e)" "cursor_ok (editor_scroll_v1 e) = cursor_ok e"
  by (simp_all add: editor_scroll_v1_def cursor_ok_def Let_def)

lemma editor_backspace_origin:
  "cx (view e) = 0 \<Longrightarrow> cy (view e) = 0 \<Longrightarrow> editor_backspace e = Some (clear_highlight e)"
  by (simp add: editor_backspace_def Let_def)

lemma backspace_op_v1_origin:
  "cx (view e) = 0 \<Longrightarrow> cy (view e) = 0 \<Longrightarrow> backspace_op_v1 e = Some e"
  by (simp add: backspace_op_v1_def Let_def)

text \<open>Claim C10. The key decoder of either version maps the Delete sequence
  \<open>ESC [ 3 ~\<close> to the code 127, the code of the Backspace byte, so a pass of the main
  loop on the Delete sequence is the same as on Backspace, and that pass runs the
  backspace operation: in a state with a well-formed buffer and the cursor in the
  document, the pass returns, and it has deleted the byte before the cursor when the
  cursor is not at column 0, has joined the line with the previous one when the cursor
  is at column 0 of a later row, and has left the document alone at the very start;
  the byte under the cursor is never the one deleted. In version 0.1 the window query at
  the end of the pass reads on from the input.\<close>

theorem delete_key_is_backspace:
  "editor_read_key (delete_seq @ inp) = Some (127, inp)
   \<and> editor_read_key (RByte DEL # inp) = Some (127, inp)
   \<and> editor_read_key_v1 (delete_seq @ inp) = Some (127, inp)
   \<and> editor_read_key_v1 (RByte DEL # inp) = Some (127, inp)
   \<and> main_iteration io ws fs e (delete_seq @ inp) = main_iteration io ws fs e (RByte DEL # inp)
   \<and> main_iteration_v1 io wr fs e (delete_seq @ inp) = main_iteration_v1 io wr fs e (RByte DEL # inp)
   \<and> main_iteration io ws fs e (delete_seq @ inp) =
       (case editor_backspace e of None \<Rightarrow> None
        | Some e1 \<Rightarrow>
            Some (fs, editor_draw_screen
                        (snd (editor_update_dimensions (e1\<lparr>quit_times_needed := 1\<rparr>) ws)),
                  inp, False))
   \<and> main_iteration_v1 io wr fs e (delete_seq @ inp) =
       (case backspace_op_v1 (editor_scroll_v1 e) of None \<Rightarrow> None
        | Some e2 \<Rightarrow>
            Some (fs, fst (editor_init_dimensions_v1 e2 wr inp),
                  snd (editor_init_dimensions_v1 e2 wr inp), False))
   \<and> process_key io fs e 127 inp =
       (case editor_backspace e of None \<Rightarrow> None
        | Some e1 \<Rightarrow> Some (fs, e1\<lparr>quit_times_needed := 1\<rparr>, inp, False, True))
   \<and> process_key_v1 io fs e 127 = map_option (\<lambda>e1. (fs, e1, False)) (backspace_op_v1 e)
   \<and> (buffer_ok (buf e) \<and> cursor_ok e \<and> 0 < cx (view e) \<longrightarrow>
        (\<exists>e1 e2. editor_backspace e = Some e1 \<and> backspace_op_v1 e = Some e2
           \<and> lines (buf e1) = delete_before (lines (buf e)) (nat (cy (view e))) (nat (cx (view e)))
           \<and> lines (buf e2) = lines (buf e1)
           \<and> cx (view e1) = cx (view e) - 1 \<and> cy (view e1) = cy (view e)
           \<and> cx (view e2) = cx (view e) - 1 \<and> cy (view e2) = cy (view e)))
   \<and> (buffer_ok (buf e) \<and> cursor_ok e \<and> cx (view e) = 0 \<and> 0 < cy (view e) \<longrightarrow>
        (\<exists>e1 e2. editor_backspace e = Some e1 \<and> backspace_op_v1 e = Some e2
           \<and> lines (buf e1) = join_rows (lines (buf e)) (nat (cy (view e)))
           \<and> lines (buf e2) = lines (buf e1)
           \<and> cx (view e1) = int (length (lines (buf e) ! (nat (cy (view e)) - 1)))
           \<and> cy (view e1) = cy (view e) - 1
           \<and> cx (view e2) = cx (view e1) \<and> cy (view e2) = cy (view e1)))
   \<and> (buffer_ok (buf e) \<and> cursor_ok e \<and> 0 < cx (view e) \<longrightarrow>
        (\<exists>e3 e4 inp4.
             main_iteration io ws fs e (delete_seq @ inp) = Some (fs, e3, inp, False)
           \<and> main_iteration_v1 io wr fs e (delete_seq @ inp) = Some (fs, e4, inp4, False)
           \<and> lines (buf e3) = delete_before (lines (buf e)) (nat (cy (view e))) (nat (cx (view e)))
           \<and> lines (buf e4) = lines (buf e3)
           \<and> cx (view e3) = cx (view e) - 1 \<and> cy (view e3) = cy (view e)
           \<and> cx (view e4) = cx (view e) - 1 \<and> cy (view e4) = cy (view e)))
   \<and> (buffer_ok (buf e) \<and> cursor_ok e \<and> cx (view e) = 0 \<and> 0 < cy (view e) \<longrightarrow>
        (\<exists>e3 e4 inp4.
             main_iteration io ws fs e (delete_seq @ inp) = Some (fs, e3, inp, False)
           \<and> main_iteration_v1 io wr fs e (delete_seq @ inp) = Some (fs, e4, inp4, False)
           \<and> lines (buf e3) = join_rows (lines (buf e)) (nat (cy (view e)))
           \<and> lines (buf e4) = lines (buf e3)
           \<and> cx (view e3) = int (length (lines (buf e) ! (nat (cy (view e)) - 1)))
           \<and> cy (view e3) = cy (view e) - 1
           \<and> cx (view e4) = cx (view e3) \<and> cy (view e4) = cy (view e3)))
   \<and> (cx (view e) = 0 \<and> cy (view e) = 0 \<longrightarrow>
        (\<exists>e3 e4 inp4.
             main_iteration io ws fs e (delete_seq @ inp) = Some (fs, e3, inp, False)
           \<and> main_iteration_v1 io wr fs e (delete_seq @ inp) = Some (fs, e4, inp4, False)
           \<and> buf e3 = buf e \<and> buf e4 = buf e
           \<and> cx (view e3) = 0 \<and> cy (view e3) = 0 \<and> cx (view e4) = 0 \<and> cy (view e4) = 0))"
proof -
  have k3: "editor_read_key (delete_seq @ inp) = Some (127, inp)"
    using read_key_delete by (simp add: delete_seq_def)
  have k1: "editor_read_key_v1 (delete_seq @ inp) = Some (127, inp)"
    using read_key_v1_delete by (simp add: delete_seq_def)
  have m3: "main_iteration io ws fs e (delete_seq @ inp) = main_iteration io ws fs e (RByte DEL # inp)"
    unfolding main_iteration_def k3 read_key_backspace ..
  have m1: "main_iteration_v1 io wr fs e (delete_seq @ inp) = main_iteration_v1 io wr fs e (RByte DEL # inp)"
    unfolding main_iteration_v1_def k1 read_key_v1_backspace ..
  note p3 = main_iteration_127 [OF k3, of io ws fs e]
  note p1 = main_iteration_v1_127 [OF k1, of io wr fs e]
  have ch: "buffer_ok (buf e) \<and> cursor_ok e \<and> 0 < cx (view e) \<longrightarrow>
        (\<exists>e1 e2. editor_backspace e = Some e1 \<and> backspace_op_v1 e = Some e2
           \<and> lines (buf e1) = delete_before (lines (buf e)) (nat (cy (view e))) (nat (cx (view e)))
           \<and> lines (buf e2) = lines (buf e1)
           \<and> cx (view e1) = cx (view e) - 1 \<and> cy (view e1) = cy (view e)
           \<and> cx (view e2) = cx (view e) - 1 \<and> cy (view e2) = cy (view e))"
  proof
    assume a: "buffer_ok (buf e) \<and> cursor_ok e \<and> 0 < cx (view e)"
    then have ok: "buffer_ok (buf e)" and cur: "cursor_ok e" and cx: "0 < cx (view e)" by auto
    show "\<exists>e1 e2. editor_backspace e = Some e1 \<and> backspace_op_v1 e = Some e2
           \<and> lines (buf e1) = delete_before (lines (buf e)) (nat (cy (view e))) (nat (cx (view e)))
           \<and> lines (buf e2) = lines (buf e1)
           \<and> cx (view e1) = cx (view e) - 1 \<and> cy (view e1) = cy (view e)
           \<and> cx (view e2) = cx (view e) - 1 \<and> cy (view e2) = cy (view e)"
      unfolding editor_backspace_char [OF ok cur cx] backspace_op_v1_char [OF ok cur cx]
      by (simp add: clear_highlight_def delete_before_def)
  qed
  have jn: "buffer_ok (buf e) \<and> cursor_ok e \<and> cx (view e) = 0 \<and> 0 < cy (view e) \<longrightarrow>
        (\<exists>e1 e2. editor_backspace e = Some e1 \<and> backspace_op_v1 e = Some e2
           \<and> lines (buf e1) = join_rows (lines (buf e)) (nat (cy (view e)))
           \<and> lines (buf e2) = lines (buf e1)
           \<and> cx (view e1) = int (length (lines (buf e) ! (nat (cy (view e)) - 1)))
           \<and> cy (view e1) = cy (view e) - 1
           \<and> cx (view e2) = cx (view e1) \<and> cy (view e2) = cy (view e1))"
  proof
    assume a: "buffer_ok (buf e) \<and> cursor_ok e \<and> cx (view e) = 0 \<and> 0 < cy (view e)"
    then have ok: "buffer_ok (buf e)" and cur: "cursor_ok e" and cx: "cx (view e) = 0"
      and cy: "0 < cy (view e)" by auto
    show "\<exists>e1 e2. editor_backspace e = Some e1 \<and> backspace_op_v1 e = Some e2
           \<and> lines (buf e1) = join_rows (lines (buf e)) (nat (cy (view e)))
           \<and> lines (buf e2) = lines (buf e1)
           \<and> cx (view e1) = int (length (lines (buf e) ! (nat (cy (view e)) - 1)))
           \<and> cy (view e1) = cy (view e) - 1
           \<and> cx (view e2) = cx (view e1) \<and> cy (view e2) = cy (view e1)"
      unfolding editor_backspace_join [OF ok cur cx cy] backspace_op_v1_join [OF ok cur cx cy]
      by (simp add: clear_highlight_def join_rows_def)
  qed
  have lch: "buffer_ok (buf e) \<and> cursor_ok e \<and> 0 < cx (view e) \<longrightarrow>
        (\<exists>e3 e4 inp4.
             main_iteration io ws fs e (delete_seq @ inp) = Some (fs, e3, inp, False)
           \<and> main_iteration_v1 io wr fs e (delete_seq @ inp) = Some (fs, e4, inp4, False)
           \<and> lines (buf e3) = delete_before (lines (buf e)) (nat (cy (view e))) (nat (cx (view e)))
           \<and> lines (buf e4) = lines (buf e3)
           \<and> cx (view e3) = cx (view e) - 1 \<and> cy (view e3) = cy (view e)
           \<and> cx (view e4) = cx (view e) - 1 \<and> cy (view e4) = cy (view e))"
  proof
    assume a: "buffer_ok (buf e) \<and> cursor_ok e \<and> 0 < cx (view e)"
    then have ok: "buffer_ok (buf e)" and cur: "cursor_ok e" and cx: "0 < cx (view e)" by auto
    let ?e' = "editor_scroll_v1 e"
    from ok cur cx have ok': "buffer_ok (buf ?e')" and cur': "cursor_ok ?e'"
      and cx': "0 < cx (view ?e')"
      by (simp_all add: scroll_v1_keeps)
    show "\<exists>e3 e4 inp4.
             main_iteration io ws fs e (delete_seq @ inp) = Some (fs, e3, inp, False)
           \<and> main_iteration_v1 io wr fs e (delete_seq @ inp) = Some (fs, e4, inp4, False)
           \<and> lines (buf e3) = delete_before (lines (buf e)) (nat (cy (view e))) (nat (cx (view e)))
           \<and> lines (buf e4) = lines (buf e3)
           \<and> cx (view e3) = cx (view e) - 1 \<and> cy (view e3) = cy (view e)
           \<and> cx (view e4) = cx (view e) - 1 \<and> cy (view e4) = cy (view e)"
      unfolding p3 p1 editor_backspace_char [OF ok cur cx] backspace_op_v1_char [OF ok' cur' cx']
      by (simp add: clear_highlight_def delete_before_def draw_screen_keeps
          update_dimensions_keeps init_dimensions_v1_keeps scroll_v1_keeps)
  qed
  have ljn: "buffer_ok (buf e) \<and> cursor_ok e \<and> cx (view e) = 0 \<and> 0 < cy (view e) \<longrightarrow>
        (\<exists>e3 e4 inp4.
             main_iteration io ws fs e (delete_seq @ inp) = Some (fs, e3, inp, False)
           \<and> main_iteration_v1 io wr fs e (delete_seq @ inp) = Some (fs, e4, inp4, False)
           \<and> lines (buf e3) = join_rows (lines (buf e)) (nat (cy (view e)))
           \<and> lines (buf e4) = lines (buf e3)
           \<and> cx (view e3) = int (length (lines (buf e) ! (nat (cy (view e)) - 1)))
           \<and> cy (view e3) = cy (view e) - 1
           \<and> cx (view e4) = cx (view e3) \<and> cy (view e4) = cy (view e3))"
  proof
    assume a: "buffer_ok (buf e) \<and> cursor_ok e \<and> cx (view e) = 0 \<and> 0 < cy (view e)"
    then have ok: "buffer_ok (buf e)" and cur: "cursor_ok e" and cx: "cx (view e) = 0"
      and cy: "0 < cy (view e)" by auto
    let ?e' = "editor_scroll_v1 e"
    from ok cur cx cy have ok': "buffer_ok (buf ?e')" and cur': "cursor_ok ?e'"
      and cx': "cx (view ?e') = 0" and cy': "0 < cy (view ?e')"
      by (simp_all add: scroll_v1_keeps)
    show "\<exists>e3 e4 inp4.
             main_iteration io ws fs e (delete_seq @ inp) = Some (fs, e3, inp, False)
           \<and> main_iteration_v1 io wr fs e (delete_seq @ inp) = Some (fs, e4, inp4, False)
           \<and> lines (buf e3) = join_rows (lines (buf e)) (nat (cy (view e)))
           \<and> lines (buf e4) = lines (buf e3)
           \<and> cx (view e3) = int (length (lines (buf e) ! (nat (cy (view e)) - 1)))
           \<and> cy (view e3) = cy (view e) - 1
           \<and> cx (view e4) = cx (view e3) \<and> cy (view e4) = cy (view e3)"
      unfolding p3 p1 editor_backspace_join [OF ok cur cx cy]
        backspace_op_v1_join [OF ok' cur' cx' cy']
      by (simp add: clear_highlight_def join_rows_def draw_screen_keeps
          update_dimensions_keeps init_dimensions_v1_keeps scroll_v1_keeps)
  qed
  have lor: "cx (view e) = 0 \<and> cy (view e) = 0 \<longrightarrow>
        (\<exists>e3 e4 inp4.
             main_iteration io ws fs e (delete_seq @ inp) = Some (fs, e3, inp, False)
           \<and> main_iteration_v1 io wr fs e (delete_seq @ inp) = Some (fs, e4, inp4, False)
           \<and> buf e3 = buf e \<and> buf e4 = buf e
           \<and> cx (view e3) = 0 \<and> cy (view e3) = 0 \<and> cx (view e4) = 0 \<and> cy (view e4) = 0)"
  proof
    assume a: "cx (view e) = 0 \<and> cy (view e) = 0"
    then have o3: "editor_backspace e = Some (clear_highlight e)"
      by (simp add: editor_backspace_origin)
    from a have o1: "backspace_op_v1 (editor_scroll_v1 e) = Some (editor_scroll_v1 e)"
      by (simp add: backspace_op_v1_origin scroll_v1_keeps)
    from a show "\<exists>e3 e4 inp4.
             main_iteration io ws fs e (delete_seq @ inp) = Some (fs, e3, inp, False)
           \<and> main_iteration_v1 io wr fs e (delete_seq @ inp) = Some (fs, e4, inp4, False)
           \<and> buf e3 = buf e \<and> buf e4 = buf e
           \<and> cx (view e3) = 0 \<and> cy (view e3) = 0 \<and> cx (view e4) = 0 \<and> cy (view e4) = 0"
      unfolding p3 p1 o3 o1
      by (simp add: clear_highlight_def draw_screen_keeps update_dimensions_keeps
          init_dimensions_v1_keeps scroll_v1_keeps)
  qed
  from k3 k1 m3 m1 p3 p1 ch jn lch ljn lor read_key_backspace [of inp] read_key_v1_backspace [of inp]
    process_key_127 [of io fs e inp] process_key_v1_127 [of io fs e]
  show ?thesis by blast
qed

text \<open>The two scenarios for the document \<open>ab\<close>, \<open>c\<close>: the cursor at the start of row 1,
  and at the end of row 0. The Delete sequence is all the input there is, the window
  size is 24 by 80 and the terminal accepts the window query of version 0.1.\<close>

definition at_row1 :: editor where
  "at_row1 = doc_ab_c\<lparr>view := (view doc_ab_c)\<lparr>cy := 1\<rparr>\<rparr>"

definition at_end_ab :: editor where
  "at_end_ab = doc_ab_c\<lparr>view := (view doc_ab_c)\<lparr>cx := 2\<rparr>\<rparr>"

theorem delete_key_is_backspace_witness:
  "buffer_ok (buf at_row1) \<and> cursor_ok at_row1 \<and> cx (view at_row1) = 0 \<and> 0 < cy (view at_row1)
   \<and> (\<exists>e1 e2. editor_backspace at_row1 = Some e1 \<and> backspace_op_v1 at_row1 = Some e2
         \<and> lines (buf e1) = [''abc''] \<and> lines (buf e2) = lines (buf e1)
         \<and> cx (view e1) = 2 \<and> cy (view e1) = 0 \<and> cx (view e2) = cx (view e1) \<and> cy (view e2) = cy (view e1))
   \<and> (\<exists>e3 e4 inp4.
         main_iteration io_ok (Some (24, 80)) Map.empty at_row1 (delete_seq @ []) = Some (Map.empty, e3, [], False)
       \<and> main_iteration_v1 io_ok True Map.empty at_row1 (delete_seq @ []) = Some (Map.empty, e4, inp4, False)
       \<and> lines (buf e3) = [''abc''] \<and> lines (buf e4) = lines (buf e3)
       \<and> cx (view e3) = 2 \<and> cy (view e3) = 0 \<and> cx (view e4) = cx (view e3) \<and> cy (view e4) = cy (view e3))
   \<and> buffer_ok (buf at_end_ab) \<and> cursor_ok at_end_ab \<and> 0 < cx (view at_end_ab)
   \<and> (\<exists>e1 e2. editor_backspace at_end_ab = Some e1 \<and> backspace_op_v1 at_end_ab = Some e2
         \<and> lines (buf e1) = [''a'', ''c''] \<and> lines (buf e2) = lines (buf e1)
         \<and> cx (view e1) = 1 \<and> cy (view e1) = 0 \<and> cx (view e2) = 1 \<and> cy (view e2) = 0)
   \<and> (\<exists>e3 e4 inp4.
         main_iteration io_ok (Some (24, 80)) Map.empty at_end_ab (delete_seq @ []) = Some (Map.empty, e3, [], False)
       \<and> main_iteration_v1 io_ok True Map.empty at_end_ab (delete_seq @ []) = Some (Map.empty, e4, inp4, False)
       \<and> lines (buf e3) = [''a'', ''c''] \<and> lines (buf e4) = lines (buf e3)
       \<and> cx (view e3) = 1 \<and> cy (view e3) = 0 \<and> cx (view e4) = 1 \<and> cy (view e4) = 0)
   \<and> cx (view doc_ab_c) = 0 \<and> cy (view doc_ab_c) = 0
   \<and> (\<exists>e3 e4 inp4.
         main_iteration io_ok (Some (24, 80)) Map.empty doc_ab_c (delete_seq @ []) = Some (Map.empty, e3, [], False)
       \<and> main_iteration_v1 io_ok True Map.empty doc_ab_c (delete_seq @ []) = Some (Map.empty, e4, inp4, False)
       \<and> buf e3 = buf doc_ab_c \<and> buf e4 = buf doc_ab_c
       \<and> cx (view e3) = 0 \<and> cy (view e3) = 0 \<and> cx (view e4) = 0 \<and> cy (view e4) = 0)"
proof -
  have h1: "buffer_ok (buf at_row1) \<and> cursor_ok at_row1 \<and> cx (view at_row1) = 0 \<and> 0 < cy (view at_row1)"
    by (simp add: at_row1_def doc_ab_c_def buffer_ok_mk cursor_ok_def editor0_def)
  have h2: "buffer_ok (buf at_end_ab) \<and> cursor_ok at_end_ab \<and> 0 < cx (view at_end_ab)"
    by (simp add: at_end_ab_def doc_ab_c_def buffer_ok_mk cursor_ok_def editor0_def)
  have h3: "cx (view doc_ab_c) = 0 \<and> cy (view doc_ab_c) = 0"
    by (simp add: doc_ab_c_def editor0_def)
  have v1: "join_rows (lines (buf at_row1)) (nat (cy (view at_row1))) = [''abc'']"
    by (simp add: at_row1_def doc_ab_c_def join_rows_def editor0_def)
  have w1: "int (length (lines (buf at_row1) ! (nat (cy (view at_row1)) - 1))) = 2"
    "cy (view at_row1) - 1 = 0"
    by (simp_all add: at_row1_def doc_ab_c_def editor0_def)
  have v2: "delete_before (lines (buf at_end_ab)) (nat (cy (view at_end_ab))) (nat (cx (view at_end_ab))) = [''a'', ''c'']"
    by (simp add: at_end_ab_def doc_ab_c_def delete_before_def editor0_def)
  have w2: "cx (view at_end_ab) - 1 = 1" "cy (view at_end_ab) = 0"
    by (simp_all add: at_end_ab_def doc_ab_c_def editor0_def)
  note t1 = delete_key_is_backspace [of "[]" io_ok "Some (24, 80)" Map.empty at_row1 True]
  note t2 = delete_key_is_backspace [of "[]" io_ok "Some (24, 80)" Map.empty at_end_ab True]
  note t3 = delete_key_is_backspace [of "[]" io_ok "Some (24, 80)" Map.empty doc_ab_c True]
  from t1 h1
  have "\<exists>e1 e2. editor_backspace at_row1 = Some e1 \<and> backspace_op_v1 at_row1 = Some e2
           \<and> lines (buf e1) = join_rows (lines (buf at_row1)) (nat (cy (view at_row1)))
           \<and> lines (buf e2) = lines (buf e1)
           \<and> cx (view e1) = int (length (lines (buf at_row1) ! (nat (cy (view at_row1)) - 1)))
           \<and> cy (view e1) = cy (view at_row1) - 1
           \<and> cx (view e2) = cx (view e1) \<and> cy (view e2) = cy (view e1)"
    by blast
  then have j: "\<exists>e1 e2. editor_backspace at_row1 = Some e1 \<and> backspace_op_v1 at_row1 = Some e2
         \<and> lines (buf e1) = [''abc''] \<and> lines (buf e2) = lines (buf e1)
         \<and> cx (view e1) = 2 \<and> cy (view e1) = 0 \<and> cx (view e2) = cx (view e1) \<and> cy (view e2) = cy (view e1)"
    unfolding v1 unfolding w1 .
  from t1 h1
  have "\<exists>e3 e4 inp4.
         main_iteration io_ok (Some (24, 80)) Map.empty at_row1 (delete_seq @ []) = Some (Map.empty, e3, [], False)
       \<and> main_iteration_v1 io_ok True Map.empty at_row1 (delete_seq @ []) = Some (Map.empty, e4, inp4, False)
       \<and> lines (buf e3) = join_rows (lines (buf at_row1)) (nat (cy (view at_row1)))
       \<and> lines (buf e4) = lines (buf e3)
       \<and> cx (view e3) = int (length (lines (buf at_row1) ! (nat (cy (view at_row1)) - 1)))
       \<and> cy (view e3) = cy (view at_row1) - 1
       \<and> cx (view e4) = cx (view e3) \<and> cy (view e4) = cy (view e3)"
    by blast
  then have lj: "\<exists>e3 e4 inp4.
         main_iteration io_ok (Some (24, 80)) Map.empty at_row1 (delete_seq @ []) = Some (Map.empty, e3, [], False)
       \<and> main_iteration_v1 io_ok True Map.empty at_row1 (delete_seq @ []) = Some (Map.empty, e4, inp4, False)
       \<and> lines (buf e3) = [''abc''] \<and> lines (buf e4) = lines (buf e3)
       \<and> cx (view e3) = 2 \<and> cy (view e3) = 0 \<and> cx (view e4) = cx (view e3) \<and> cy (view e4) = cy (view e3)"
    unfolding v1 unfolding w1 .
  from t2 h2
  have "\<exists>e1 e2. editor_backspace at_end_ab = Some e1 \<and> backspace_op_v1 at_end_ab = Some e2
           \<and> lines (buf e1) = delete_before (lines (buf at_end_ab)) (nat (cy (view at_end_ab))) (nat (cx (view at_end_ab)))
           \<and> lines (buf e2) = lines (buf e1)
           \<and> cx (view e1) = cx (view at_end_ab) - 1 \<and> cy (view e1) = cy (view at_end_ab)
           \<and> cx (view e2) = cx (view at_end_ab) - 1 \<and> cy (view e2) = cy (view at_end_ab)"
    by blast
  then have d: "\<exists>e1 e2. editor_backspace at_end_ab = Some e1 \<and> backspace_op_v1 at_end_ab = Some e2
         \<and> lines (buf e1) = [''a'', ''c''] \<and> lines (buf e2) = lines (buf e1)
         \<and> cx (view e1) = 1 \<and> cy (view e1) = 0 \<and> cx (view e2) = 1 \<and> cy (view e2) = 0"
    unfolding v2 unfolding w2 .
  from t2 h2
  have "\<exists>e3 e4 inp4.
         main_iteration io_ok (Some (24, 80)) Map.empty at_end_ab (delete_seq @ []) = Some (Map.empty, e3, [], False)
       \<and> main_iteration_v1 io_ok True Map.empty at_end_ab (delete_seq @ []) = Some (Map.empty, e4, inp4, False)
       \<and> lines (buf e3) = delete_before (lines (buf at_end_ab)) (nat (cy (view at_end_ab))) (nat (cx (view at_end_ab)))
       \<and> lines (buf e4) = lines (buf e3)
       \<and> cx (view e3) = cx (view at_end_ab) - 1 \<and> cy (view e3) = cy (view at_end_ab)
       \<and> cx (view e4) = cx (view at_end_ab) - 1 \<and> cy (view e4) = cy (view at_end_ab)"
    by blast
  then have ld: "\<exists>e3 e4 inp4.
         main_iteration io_ok (Some (24, 80)) Map.empty at_end_ab (delete_seq @ []) = Some (Map.empty, e3, [], False)
       \<and> main_iteration_v1 io_ok True Map.empty at_end_ab (delete_seq @ []) = Some (Map.empty, e4, inp4, False)
       \<and> lines (buf e3) = [''a'', ''c''] \<and> lines (buf e4) = lines (buf e3)
       \<and> cx (view e3) = 1 \<and> cy (view e3) = 0 \<and> cx (view e4) = 1 \<and> cy (view e4) = 0"
    unfolding v2 unfolding w2 .
  from t3 h3
  have lo: "\<exists>e3 e4 inp4.
         main_iteration io_ok (Some (24, 80)) Map.empty doc_ab_c (delete_seq @ []) = Some (Map.empty, e3, [], False)
       \<and> main_iteration_v1 io_ok True Map.empty doc_ab_c (delete_seq @ []) = Some (Map.empty, e4, inp4, False)
       \<and> buf e3 = buf doc_ab_c \<and> buf e4 = buf doc_ab_c
       \<and> cx (view e3) = 0 \<and> cy (view e3) = 0 \<and> cx (view e4) = 0 \<and> cy (view e4) = 0"
    by blast
  from h1 h2 h3 j d lj ld lo show ?thesis by blast
qed

section \<open>The dirty flag and the quit counter\<close>

text \<open>Claim C4, evaluated where the code departs from it. In a fresh session of
  version 0.3 (one empty line, clean) the key Down (code 1002) appends an empty line
  through \<open>buffer_append_empty\<close>: the document has two lines afterwards, and the dirty
  flag is still false, so that the next Ctrl-Q leaves the editor at once.\<close>

theorem down_on_last_line_stays_clean:
  "\<exists>e1. process_key io fs editor0 1002 inp = Some (fs, e1, inp, False, True)
     \<and> lines (buf editor0) = [''''] \<and> lines (buf e1) = ['''', ''''] \<and> count (buf e1) = 2
     \<and> cy (view e1) = 1 \<and> dirty e1 = False
     \<and> process_key io fs e1 (CTRL_KEY 113) inp = Some (fs, e1, inp, True, False)"
  by (simp add: process_key_def editor_move_cursor_def editor0_def buffer_init_def
      buffer_append_empty_def buffer_insert_line_def buffer_ensure_capacity_def shift_insert_def
      row_ok_def set_cursor_col_def clear_highlight_def Let_def)

text \<open>The keys for which the main loop of version 0.3 has a branch other than quit.\<close>

definition bound_key :: "int \<Rightarrow> bool" where
  "bound_key c \<longleftrightarrow>
     c = CTRL_KEY 115 \<or> c = CTRL_KEY 102 \<or> c = CTRL_KEY 110 \<or> c = 1005 \<or> c = 1006 \<or>
     c = 1001 \<or> c = 1002 \<or> c = 1003 \<or> c = 1004 \<or> c = 72 \<or> c = 69 \<or>
     c = 13 \<or> c = 10 \<or> c = 127 \<or> isprint c"

lemma buffer_insert_line_frame:
  "buffer_insert_line e at s n = Some e' \<Longrightarrow> e' = e\<lparr>buf := buf e'\<rparr>"
  by (auto simp: buffer_insert_line_def Let_def split: if_splits option.splits)

lemma load_lines_frame: "load_lines e first ls = Some e' \<Longrightarrow> e' = e\<lparr>buf := buf e'\<rparr>"
proof (induction ls arbitrary: e first)
  case Nil
  then show ?case by simp
next
  case (Cons line rest)
  show ?case
  proof (cases first)
    case True
    with Cons.prems have "load_lines (e\<lparr>buf := (buf e)\<lparr>
            lines := (lines (buf e))[0 := take (strip_eol line (length line)) line],
            len := (len (buf e))[0 := int (strip_eol line (length line))]\<rparr>\<rparr>) False rest = Some e'"
      by (simp add: Let_def)
    from Cons.IH [OF this] show ?thesis by simp
  next
    case False
    with Cons.prems obtain e1 where
      il: "buffer_insert_line e (count (buf e)) line (int (strip_eol line (length line))) = Some e1"
      and ll: "load_lines e1 False rest = Some e'"
      by (auto simp: Let_def split: option.splits)
    from buffer_insert_line_frame [OF il] Cons.IH [OF ll] show ?thesis
      by (metis editor.surjective editor.update_convs(1))
  qed
qed

lemma editor_open_frame:
  "editor_open e path file = Some e' \<Longrightarrow>
     e' = e\<lparr>buf := buf e', filename := filename e', dirty := dirty e'\<rparr>"
  by (cases "file") (auto simp: editor_open_def split: option.splits dest!: load_lines_frame
       intro: editor.equality)

lemma editor_start_quit: "editor_start arg ws = Some e \<Longrightarrow> quit_times_needed e = 1"
proof -
  assume a: "editor_start arg ws = Some e"
  have q0: "quit_times_needed editor0 = 1" by (simp add: editor0_def)
  have "\<exists>e1. (case arg of None \<Rightarrow> Some editor0
            | Some (path, file) \<Rightarrow> editor_open (editor0\<lparr>filename := take 255 path\<rparr>) path file) = Some e1
          \<and> quit_times_needed e = quit_times_needed e1"
    using a by (auto simp: editor_start_def editor_draw_screen_def editor_scroll_def
        editor_update_dimensions_def Let_def split: option.splits prod.splits)
  then obtain e1 where e1: "(case arg of None \<Rightarrow> Some editor0
            | Some (path, file) \<Rightarrow> editor_open (editor0\<lparr>filename := take 255 path\<rparr>) path file) = Some e1"
    and q: "quit_times_needed e = quit_times_needed e1" by blast
  have "quit_times_needed e1 = 1"
  proof (cases arg)
    case None
    with e1 q0 show ?thesis by simp
  next
    case (Some pf)
    obtain path f where pf: "pf = (path, f)" by (cases pf)
    with Some e1 have "editor_open (editor0\<lparr>filename := take 255 path\<rparr>) path f = Some e1" by simp
    from editor_open_frame [OF this] have "quit_times_needed e1 = quit_times_needed (editor0\<lparr>filename := take 255 path\<rparr>)"
      by (metis editor.select_convs(11) editor.surjective editor.update_convs(1,3,4))
    with q0 show ?thesis by simp
  qed
  with q show ?thesis by simp
qed

lemma process_key_quit_refused:
  "dirty e \<Longrightarrow> 0 < quit_times_needed e \<Longrightarrow>
     process_key io fs e (CTRL_KEY 113) inp =
       Some (fs, e\<lparr>quit_times_needed := quit_times_needed e - 1\<rparr>, inp, False, True)"
  by (simp add: process_key_def)

lemma process_key_quit_granted:
  "\<not> dirty e \<or> quit_times_needed e = 0 \<Longrightarrow>
     process_key io fs e (CTRL_KEY 113) inp = Some (fs, e, inp, True, False)"
  by (auto simp: process_key_def)

lemma process_key_resets:
  assumes c: "c \<noteq> CTRL_KEY 113" and b: "bound_key c"
    and r: "process_key io fs e c inp = Some (fs1, e1, inp1, ex, rd)"
  shows "quit_times_needed e1 = 1 \<and> \<not> ex"
proof -
  have q: "\<And>x. quit_times_needed (clear_highlight x) = quit_times_needed x"
    by (simp add: clear_highlight_def)
  from r c b show ?thesis
    unfolding process_key_def bound_key_def
    by (auto simp: q split: if_splits option.splits prod.splits)
qed

lemma process_key_unbound:
  "c \<noteq> CTRL_KEY 113 \<Longrightarrow> \<not> bound_key c \<Longrightarrow>
     process_key io fs e c inp = Some (fs, e, inp, False, False)"
  by (simp add: process_key_def bound_key_def)

text \<open>Claim C5, for version 0.3. The quit counter starts at 1. Ctrl-Q on a dirty buffer
  with a positive counter decrements the counter and the session goes on; Ctrl-Q with
  the counter at 0, or on a clean buffer, ends the session. Every key bound to another
  action sets the counter to 1 when its action returns; a key bound to nothing leaves
  the whole state, the counter included, as it is.\<close>

theorem quit_confirmation:
  "quit_times_needed editor0 = 1
   \<and> (editor_start arg ws = Some e0 \<longrightarrow> quit_times_needed e0 = 1)
   \<and> (dirty e \<and> 0 < quit_times_needed e \<longrightarrow>
        process_key io fs e (CTRL_KEY 113) inp =
          Some (fs, e\<lparr>quit_times_needed := quit_times_needed e - 1\<rparr>, inp, False, True))
   \<and> (\<not> dirty e \<or> quit_times_needed e = 0 \<longrightarrow>
        process_key io fs e (CTRL_KEY 113) inp = Some (fs, e, inp, True, False))
   \<and> (c \<noteq> CTRL_KEY 113 \<and> bound_key c \<and> process_key io fs e c inp = Some (fs1, e1, inp1, ex, rd) \<longrightarrow>
        quit_times_needed e1 = 1 \<and> \<not> ex)
   \<and> (c \<noteq> CTRL_KEY 113 \<and> \<not> bound_key c \<longrightarrow>
        process_key io fs e c inp = Some (fs, e, inp, False, False))"
proof -
  have "quit_times_needed editor0 = 1" by (simp add: editor0_def)
  then show ?thesis
    using editor_start_quit [of arg ws e0] process_key_quit_refused [of e io fs inp]
      process_key_quit_granted [of e io fs inp]
      process_key_resets [of c io fs e inp fs1 e1 inp1 ex rd]
      process_key_unbound [of c io fs e inp]
    by blast
qed

text \<open>The state after the byte \<open>a\<close> has been typed into the empty document, in version
  0.3 and in version 0.1.\<close>

definition typed_a :: editor where
  "typed_a = editor0\<lparr>buf := mk_buffer [''a''] 64, dirty := True,
       view := (view editor0)\<lparr>cx := 1, pref_cx := 1\<rparr>, hl_len := -1\<rparr>"

definition typed_a_v1 :: editor where
  "typed_a_v1 = editor0\<lparr>buf := mk_buffer [''a''] 64, dirty := True,
       view := (view editor0)\<lparr>cx := 1\<rparr>\<rparr>"

lemma typed_a_step: "process_key io fs editor0 97 inp = Some (fs, typed_a, inp, False, True)"
  by (simp add: process_key_def isprint_def editor_insert_char_def buffer_insert_char_def
      row_ok_def editor0_def buffer_init_def mk_buffer_def typed_a_def clear_highlight_def
      char_of_key_def char_of_def Let_def)

theorem quit_confirmation_witness:
  "editor_start None None = Some (editor_draw_screen (snd (editor_update_dimensions editor0 None)))
   \<and> quit_times_needed (editor_draw_screen (snd (editor_update_dimensions editor0 None))) = 1
   \<and> dirty typed_a \<and> 0 < quit_times_needed typed_a
   \<and> process_key io_ok Map.empty typed_a (CTRL_KEY 113) [] =
        Some (Map.empty, typed_a\<lparr>quit_times_needed := quit_times_needed typed_a - 1\<rparr>, [], False, True)
   \<and> quit_times_needed (typed_a\<lparr>quit_times_needed := 0\<rparr>) = 0
   \<and> process_key io_ok Map.empty (typed_a\<lparr>quit_times_needed := 0\<rparr>) (CTRL_KEY 113) [] =
        Some (Map.empty, typed_a\<lparr>quit_times_needed := 0\<rparr>, [], True, False)
   \<and> 97 \<noteq> CTRL_KEY 113 \<and> bound_key 97
   \<and> process_key io_ok Map.empty (editor0\<lparr>quit_times_needed := 0\<rparr>) 97 [] =
        Some (Map.empty, typed_a, [], False, True)
   \<and> quit_times_needed typed_a = 1
   \<and> 27 \<noteq> CTRL_KEY 113 \<and> \<not> bound_key 27
   \<and> process_key io_ok Map.empty (typed_a\<lparr>quit_times_needed := 0\<rparr>) 27 [] =
        Some (Map.empty, typed_a\<lparr>quit_times_needed := 0\<rparr>, [], False, False)"
proof -
  let ?s = "editor_draw_screen (snd (editor_update_dimensions editor0 None))"
  have s: "editor_start None None = Some ?s" by (simp add: editor_start_def editor0_def)
  have d: "dirty typed_a \<and> 0 < quit_times_needed typed_a"
    by (simp add: typed_a_def editor0_def)
  have z: "\<not> dirty (typed_a\<lparr>quit_times_needed := 0\<rparr>) \<or> quit_times_needed (typed_a\<lparr>quit_times_needed := 0\<rparr>) = 0"
    by simp
  have k: "97 \<noteq> CTRL_KEY 113 \<and> bound_key 97" by (simp add: bound_key_def isprint_def)
  have p: "process_key io_ok Map.empty (editor0\<lparr>quit_times_needed := 0\<rparr>) 97 [] =
        Some (Map.empty, typed_a, [], False, True)"
    by (simp add: process_key_def isprint_def editor_insert_char_def buffer_insert_char_def
      row_ok_def editor0_def buffer_init_def mk_buffer_def typed_a_def clear_highlight_def
      char_of_key_def char_of_def Let_def)
  have u: "27 \<noteq> CTRL_KEY 113 \<and> \<not> bound_key 27" by (simp add: bound_key_def isprint_def)
  from quit_confirmation [of None None ?s typed_a io_ok Map.empty "[]"] s d
  have c1: "quit_times_needed ?s = 1"
    and c2: "process_key io_ok Map.empty typed_a (CTRL_KEY 113) [] =
        Some (Map.empty, typed_a\<lparr>quit_times_needed := quit_times_needed typed_a - 1\<rparr>, [], False, True)"
    by blast+
  from quit_confirmation [of None None ?s "typed_a\<lparr>quit_times_needed := 0\<rparr>" io_ok Map.empty "[]" 27] z u
  have c3: "process_key io_ok Map.empty (typed_a\<lparr>quit_times_needed := 0\<rparr>) (CTRL_KEY 113) [] =
        Some (Map.empty, typed_a\<lparr>quit_times_needed := 0\<rparr>, [], True, False)"
    and c5: "process_key io_ok Map.empty (typed_a\<lparr>quit_times_needed := 0\<rparr>) 27 [] =
        Some (Map.empty, typed_a\<lparr>quit_times_needed := 0\<rparr>, [], False, False)"
    by blast+
  from quit_confirmation [of None None ?s "editor0\<lparr>quit_times_needed := 0\<rparr>" io_ok Map.empty "[]" 97
      Map.empty typed_a "[]" False True] k p
  have c4: "quit_times_needed typed_a = 1" by blast
  from s c1 d c2 c3 k p c4 u c5 show ?thesis by simp
qed

text \<open>Version 0.1 has no quit counter: after \<open>a\<close> has been typed the buffer is dirty,
  and the first Ctrl-Q ends the session.\<close>

theorem quit_v1_while_dirty:
  "process_key_v1 io_ok Map.empty editor0 97 = Some (Map.empty, typed_a_v1, False)
   \<and> dirty typed_a_v1
   \<and> process_key_v1 io_ok Map.empty typed_a_v1 (CTRL_KEY 113) = Some (Map.empty, typed_a_v1, True)"
  by (simp add: process_key_v1_def isprint_def insert_char_v1_def buffer_insert_char_v1_def
      buffer_insert_char_def row_ok_def editor0_def buffer_init_def mk_buffer_def typed_a_v1_def
      char_of_key_def char_of_def Let_def)

section \<open>Saving\<close>

text \<open>The bytes of the file a document stands for: every line followed by one line
  feed.\<close>

definition serialise :: "string list \<Rightarrow> string" where
  "serialise ls = concat (map (\<lambda>l. l @ [LF]) ls)"

lemma all_less_double_Suc:
  "(\<forall>j < 2 * Suc n. P (k + j)) \<longleftrightarrow> P k \<and> P (Suc k) \<and> (\<forall>j < 2 * n. P (k + 2 + j))"
proof
  assume a: "\<forall>j < 2 * Suc n. P (k + j)"
  have "0 < 2 * Suc n" "1 < 2 * Suc n" by simp_all
  with a have "P (k + 0)" "P (k + 1)" by blast+
  moreover have "\<forall>j < 2 * n. P (k + 2 + j)"
  proof (intro allI impI)
    fix j assume "j < 2 * n"
    then have "2 + j < 2 * Suc n" by simp
    with a have "P (k + (2 + j))" by blast
    then show "P (k + 2 + j)" by (simp add: add.assoc)
  qed
  ultimately show "P k \<and> P (Suc k) \<and> (\<forall>j < 2 * n. P (k + 2 + j))" by simp
next
  assume a: "P k \<and> P (Suc k) \<and> (\<forall>j < 2 * n. P (k + 2 + j))"
  show "\<forall>j < 2 * Suc n. P (k + j)"
  proof (intro allI impI)
    fix j assume j: "j < 2 * Suc n"
    consider "j = 0" | "j = 1" | "2 \<le> j" by linarith
    then show "P (k + j)"
    proof cases
      case 1 with a show ?thesis by simp
    next
      case 2 with a show ?thesis by simp
    next
      case 3
      then obtain j' where j': "j = 2 + j'" using le_Suc_ex by blast
      with j have "j' < 2 * n" by simp
      with a have "P (k + 2 + j')" by blast
      with j' show ?thesis by (simp add: add.assoc)
    qed
  qed
qed

lemma write_lines_ok_iff:
  "fst (write_lines io b i k acc) \<longleftrightarrow> (\<forall>j < 2 * nat (count b - i). write_ok io (k + j))"
proof (induction io b i k acc rule: write_lines.induct)
  case (1 io b i k acc)
  show ?case
  proof (cases "i < count b")
    case False
    then show ?thesis by (subst write_lines.simps) simp
  next
    case True
    define n where "n = nat (count b - i) - 1"
    have n: "nat (count b - i) = Suc n" and n': "nat (count b - (i + 1)) = n"
      using True unfolding n_def by arith+
    show ?thesis
    proof (cases "write_ok io k \<and> write_ok io (k + 1)")
      case False
      with True show ?thesis
        unfolding n all_less_double_Suc by (subst write_lines.simps) (auto simp: Let_def)
    next
      case ok: True
      let ?acc1 = "acc @ take (nat (len b ! nat i)) (lines b ! nat i)"
      from "1.IH" [of ?acc1] True ok
      have "fst (write_lines io b (i + 1) (k + 2) (?acc1 @ [LF])) \<longleftrightarrow>
          (\<forall>j < 2 * n. write_ok io (k + 2 + j))"
        by (simp add: n')
      with True ok show ?thesis
        unfolding n all_less_double_Suc by (subst write_lines.simps) (simp add: Let_def)
    qed
  qed
qed

lemma serialise_Cons: "serialise (l # ls) = l @ LF # serialise ls"
  by (simp add: serialise_def)

lemma write_lines_data:
  "buffer_ok b \<Longrightarrow> 0 \<le> i \<Longrightarrow> write_lines io b i k acc = (True, data) \<Longrightarrow>
     data = acc @ serialise (drop (nat i) (lines b))"
proof (induction io b i k acc rule: write_lines.induct)
  case (1 io b i k acc)
  show ?case
  proof (cases "i < count b")
    case False
    with "1.prems" have "data = acc" by (subst (asm) write_lines.simps) simp
    moreover from False "1.prems" have "drop (nat i) (lines b) = []"
      by (auto simp: buffer_ok_def)
    ultimately show ?thesis by (simp add: serialise_def)
  next
    case True
    with "1.prems" have row: "row_ok b i" by (simp add: row_ok_def)
    from buffer_ok_rowD [OF "1.prems"(1) row] have i: "nat i < length (lines b)"
      and L: "len b ! nat i = int (length (lines b ! nat i))" by auto
    let ?acc1 = "acc @ lines b ! nat i"
    from "1.prems"(3) True L have w: "write_ok io k" "write_ok io (k + 1)"
      and r: "write_lines io b (i + 1) (k + 2) (?acc1 @ [LF]) = (True, data)"
      by (subst (asm) write_lines.simps, auto simp: Let_def split: if_splits)+
    have "data = (?acc1 @ [LF]) @ serialise (drop (nat (i + 1)) (lines b))"
      using "1.IH" [of ?acc1] True w L "1.prems"(1,2) r by simp
    moreover have "drop (nat i) (lines b) = lines b ! nat i # drop (nat (i + 1)) (lines b)"
      using i "1.prems"(2) by (simp add: Cons_nth_drop_Suc nat_add_distrib)
    ultimately show ?thesis by (simp add: serialise_Cons)
  qed
qed

lemma tmpname_neq:
  assumes "length (filename e) \<le> 255"
  shows "tmpname e \<noteq> filename e"
proof
  assume "tmpname e = filename e"
  then have "length (tmpname e) = length (filename e)" by simp
  with assms show False by (simp add: tmpname_def)
qed

text \<open>Claim C1, for the atomic save of version 0.3. For a well-formed buffer and every
  combination of failing system calls: the save succeeds exactly when \<open>open\<close>, all
  \<open>write\<close>s, \<open>fsync\<close>, \<open>close\<close> and \<open>rename\<close> succeed. A failed save leaves the
  editor state, the dirty flag included, the target file and every file other than the
  temporary one as they were; the temporary file is gone once it had been opened, and
  when \<open>open\<close> itself fails the file system is untouched. A successful save clears the
  dirty flag, and the target then holds the whole serialised document, put there by
  the rename of the temporary file, which no longer exists.\<close>

theorem atomic_save:
  assumes ok: "buffer_ok (buf e)" and fn: "length (filename e) \<le> 255"
    and r: "editor_save_atomic io fs e = (saved, fs', e')"
  shows "(saved \<longleftrightarrow> open_ok io \<and> (\<forall>k < 2 * nat (count (buf e)). write_ok io k)
                  \<and> fsync_ok io \<and> close_ok io \<and> rename_ok io)
       \<and> (\<not> saved \<longrightarrow> e' = e \<and> dirty e' = dirty e \<and> fs' (filename e) = fs (filename e)
              \<and> (\<forall>p. p \<noteq> tmpname e \<longrightarrow> fs' p = fs p)
              \<and> (open_ok io \<longrightarrow> fs' (tmpname e) = None)
              \<and> (\<not> open_ok io \<longrightarrow> fs' = fs))
       \<and> (saved \<longrightarrow> e' = e\<lparr>dirty := False\<rparr>
              \<and> fs' = (fs(filename e \<mapsto> serialise (lines (buf e))))(tmpname e := None))"
proof (cases "open_ok io")
  case False
  with r show ?thesis by (auto simp: editor_save_atomic_def)
next
  case True
  obtain ok1 data where w: "write_lines io (buf e) 0 0 [] = (ok1, data)"
    by (cases "write_lines io (buf e) 0 0 []")
  from write_lines_ok_iff [of io "buf e" 0 0 "[]"] w
  have ok1: "ok1 \<longleftrightarrow> (\<forall>k < 2 * nat (count (buf e)). write_ok io k)" by simp
  from tmpname_neq [OF fn] have ne: "tmpname e \<noteq> filename e" .
  show ?thesis
  proof (cases "ok1 \<and> fsync_ok io \<and> close_ok io \<and> rename_ok io")
    case False
    with r True w have "saved = False" "e' = e" "fs' = (fs(tmpname e \<mapsto> data))(tmpname e := None)"
      by (auto simp: editor_save_atomic_def Let_def split: if_splits)
    with False True ok1 ne show ?thesis by auto
  next
    case all: True
    with w have "write_lines io (buf e) 0 0 [] = (True, data)" by simp
    from write_lines_data [OF ok _ this] have d: "data = serialise (lines (buf e))" by simp
    from r True w all have "saved = True" "e' = e\<lparr>dirty := False\<rparr>"
      "fs' = ((fs(tmpname e \<mapsto> data))(filename e \<mapsto> data))(tmpname e := None)"
      by (auto simp: editor_save_atomic_def Let_def split: if_splits)
    moreover have "((fs(tmpname e \<mapsto> data))(filename e \<mapsto> data))(tmpname e := None)
        = (fs(filename e \<mapsto> data))(tmpname e := None)"
      using ne by (auto simp: fun_eq_iff)
    ultimately show ?thesis using all True ok1 d by auto
  qed
qed

text \<open>A dirty session on the document \<open>ab\<close>, \<open>c\<close>; a disk that holds an older version
  of the target; and system calls of which the third \<open>write\<close> fails.\<close>

definition doc_dirty :: editor where
  "doc_dirty = doc_ab_c\<lparr>dirty := True\<rparr>"

definition old_fs :: fs where
  "old_fs = [''untitled.txt'' \<mapsto> ''old'' @ [LF]]"

definition io_write_fails :: save_io where
  "io_write_fails = io_ok\<lparr>write_ok := (\<lambda>k. k < 2)\<rparr>"

lemma doc_dirty_facts:
  "buffer_ok (buf doc_dirty)" "length (filename doc_dirty) \<le> 255"
  "filename doc_dirty = ''untitled.txt''" "tmpname doc_dirty = ''untitled.txt.tmp''"
  "dirty doc_dirty"
  by (simp_all add: doc_dirty_def doc_ab_c_def editor0_def buffer_ok_mk tmpname_def)

lemma save_atomic_fails_example:
  "editor_save_atomic io_write_fails old_fs doc_dirty =
     (False, (old_fs(''untitled.txt.tmp'' \<mapsto> ''ab'' @ [LF]))(''untitled.txt.tmp'' := None), doc_dirty)"
  by (simp add: editor_save_atomic_def io_write_fails_def io_ok_def write_lines.simps
      doc_dirty_def doc_ab_c_def editor0_def mk_buffer_def tmpname_def Let_def)

lemma save_atomic_ok_example:
  "editor_save_atomic io_ok old_fs doc_dirty =
     (True, ((old_fs(''untitled.txt.tmp'' \<mapsto> ''ab'' @ [LF] @ ''c'' @ [LF]))
               (''untitled.txt'' \<mapsto> ''ab'' @ [LF] @ ''c'' @ [LF]))(''untitled.txt.tmp'' := None),
      doc_dirty\<lparr>dirty := False\<rparr>)"
  by (simp add: editor_save_atomic_def io_ok_def write_lines.simps
      doc_dirty_def doc_ab_c_def editor0_def mk_buffer_def tmpname_def Let_def)

theorem atomic_save_witness:
  "buffer_ok (buf doc_dirty) \<and> length (filename doc_dirty) \<le> 255
   \<and> fst (editor_save_atomic io_write_fails old_fs doc_dirty) = False
   \<and> fst (snd (editor_save_atomic io_write_fails old_fs doc_dirty)) ''untitled.txt'' = Some (''old'' @ [LF])
   \<and> fst (snd (editor_save_atomic io_write_fails old_fs doc_dirty)) ''untitled.txt.tmp'' = None
   \<and> dirty (snd (snd (editor_save_atomic io_write_fails old_fs doc_dirty))) = True
   \<and> fst (editor_save_atomic io_ok old_fs doc_dirty) = True
   \<and> fst (snd (editor_save_atomic io_ok old_fs doc_dirty)) ''untitled.txt'' = Some (''ab'' @ [LF] @ ''c'' @ [LF])
   \<and> fst (snd (editor_save_atomic io_ok old_fs doc_dirty)) ''untitled.txt.tmp'' = None
   \<and> dirty (snd (snd (editor_save_atomic io_ok old_fs doc_dirty))) = False"
proof -
  note f = doc_dirty_facts
  have o: "open_ok io_write_fails" by (simp add: io_write_fails_def io_ok_def)
  from atomic_save [OF f(1) f(2) save_atomic_fails_example] o
  have a: "((old_fs(''untitled.txt.tmp'' \<mapsto> ''ab'' @ [LF]))(''untitled.txt.tmp'' := None)) (filename doc_dirty)
             = old_fs (filename doc_dirty)"
    "((old_fs(''untitled.txt.tmp'' \<mapsto> ''ab'' @ [LF]))(''untitled.txt.tmp'' := None)) (tmpname doc_dirty) = None"
    "dirty doc_dirty = dirty doc_dirty"
    by blast+
  from atomic_save [OF f(1) f(2) save_atomic_ok_example]
  have b: "((old_fs(''untitled.txt.tmp'' \<mapsto> ''ab'' @ [LF] @ ''c'' @ [LF]))
               (''untitled.txt'' \<mapsto> ''ab'' @ [LF] @ ''c'' @ [LF]))(''untitled.txt.tmp'' := None)
           = (old_fs(filename doc_dirty \<mapsto> serialise (lines (buf doc_dirty))))(tmpname doc_dirty := None)"
    by blast
  have s: "serialise (lines (buf doc_dirty)) = ''ab'' @ [LF] @ ''c'' @ [LF]"
    by (simp add: serialise_def doc_dirty_def doc_ab_c_def)
  have old: "old_fs ''untitled.txt'' = Some (''old'' @ [LF])" by (simp add: old_fs_def)
  show ?thesis
    unfolding save_atomic_fails_example save_atomic_ok_example fst_conv snd_conv
    using a old f unfolding b s by simp
qed

text \<open>The save of version 0.1 has no temporary file. When the third \<open>write\<close> fails it
  reports the failure, and the target, which held \<open>old\<close>, holds the first line only.\<close>

theorem save_v1_not_atomic:
  "editor_save_v1 io_write_fails old_fs doc_dirty =
     (False, old_fs(''untitled.txt'' \<mapsto> ''ab'' @ [LF]), doc_dirty)
   \<and> filename doc_dirty = ''untitled.txt''
   \<and> old_fs ''untitled.txt'' = Some (''old'' @ [LF])
   \<and> (old_fs(''untitled.txt'' \<mapsto> ''ab'' @ [LF])) ''untitled.txt'' \<noteq> old_fs ''untitled.txt''"
  by (simp add: editor_save_v1_def io_write_fails_def io_ok_def write_lines.simps
      doc_dirty_def doc_ab_c_def editor0_def mk_buffer_def old_fs_def Let_def)

section \<open>Properties of the search\<close>

lemma find_sub_le: "find_sub h q = Some i \<Longrightarrow> i \<le> length h"
  by (induction h arbitrary: i) (auto split: if_splits)

lemma find_sub_prefix: "find_sub h q = Some i \<Longrightarrow> prefix q (drop i h)"
  by (induction h arbitrary: i) (auto split: if_splits)

lemma c_str_length: "length (c_str s) \<le> length s"
  by (simp add: c_str_def length_takeWhile_le)

lemma c_str_Nil [simp]: "c_str [] = []"
  by (simp add: c_str_def)


lemma c_str_id: "NUL \<notin> set s \<Longrightarrow> c_str s = s"
  by (auto simp: c_str_def takeWhile_eq_all_conv)



lemma strstr_le: "strstr h q = Some i \<Longrightarrow> i \<le> length h"
  using find_sub_le [of "c_str h" "c_str q" i] c_str_length [of h] by (simp add: strstr_def)

lemma find_rows_stop: "\<not> r < count b \<Longrightarrow> find_rows b q r c = NoMatch"
  by (subst find_rows.simps) simp

lemma find_rows_unfold:
  "0 \<le> r \<Longrightarrow> r < count b \<Longrightarrow> 0 \<le> c \<Longrightarrow> 0 \<le> len b ! nat r \<Longrightarrow>
     find_rows b q r c =
       (if len b ! nat r = 0 then find_rows b q (r + 1) 0
        else case strstr (drop (nat (min c (len b ! nat r))) (lines b ! nat r)) q of
               Some i \<Rightarrow> Match r (min c (len b ! nat r) + int i)
             | None \<Rightarrow> find_rows b q (r + 1) 0)"
  by (subst find_rows.simps) (auto simp: Let_def min_def split: option.splits)

lemma find_rows_cases:
  assumes ok: "buffer_ok b" and r: "0 \<le> r" "r < count b" and c: "0 \<le> c"
  shows "find_rows b q r c =
       (case strstr (drop (nat (min c (int (length (lines b ! nat r))))) (lines b ! nat r)) q of
               Some i \<Rightarrow> Match r (min c (int (length (lines b ! nat r))) + int i)
             | None \<Rightarrow> find_rows b q (r + 1) 0)
     \<or> (lines b ! nat r = [] \<and> find_rows b q r c = find_rows b q (r + 1) 0)"
proof -
  from r have row: "row_ok b r" by (simp add: row_ok_def)
  from buffer_ok_rowD [OF ok row] have L: "len b ! nat r = int (length (lines b ! nat r))" by simp
  then have "0 \<le> len b ! nat r" by simp
  from find_rows_unfold [OF r c this, of q, unfolded L] show ?thesis by auto
qed

lemma find_rows_Match:
  "buffer_ok b \<Longrightarrow> 0 \<le> r \<Longrightarrow> 0 \<le> c \<Longrightarrow> find_rows b q r c = Match r' c' \<Longrightarrow>
     r \<le> r' \<and> r' < count b \<and> 0 \<le> c' \<and> c' \<le> int (length (lines b ! nat r'))"
proof (induction "nat (count b - r)" arbitrary: r c)
  case 0
  then have "\<not> r < count b" by simp
  from find_rows_stop [OF this] "0.prems"(4) show ?case by simp
next
  case (Suc n)
  then have r: "0 \<le> r" "r < count b" and n: "n = nat (count b - (r + 1))" by auto
  have ih: "find_rows b q (r + 1) 0 = Match r' c' \<Longrightarrow>
     r \<le> r' \<and> r' < count b \<and> 0 \<le> c' \<and> c' \<le> int (length (lines b ! nat r'))"
    using Suc.hyps(1) [OF n Suc.prems(1), of 0] r by simp
  from find_rows_cases [OF Suc.prems(1) r Suc.prems(3), of q]
  show ?case
  proof
    assume a: "find_rows b q r c =
       (case strstr (drop (nat (min c (int (length (lines b ! nat r))))) (lines b ! nat r)) q of
               Some i \<Rightarrow> Match r (min c (int (length (lines b ! nat r))) + int i)
             | None \<Rightarrow> find_rows b q (r + 1) 0)"
    show ?thesis
    proof (cases "strstr (drop (nat (min c (int (length (lines b ! nat r))))) (lines b ! nat r)) q")
      case None
      with a Suc.prems(4) ih show ?thesis by simp
    next
      case (Some i)
      with a Suc.prems(4) have m: "r' = r" "c' = min c (int (length (lines b ! nat r))) + int i"
        by simp_all
      from strstr_le [OF Some] Suc.prems(3)
      have "min c (int (length (lines b ! nat r))) + int i \<le> int (length (lines b ! nat r))"
        by (auto simp: min_def)
      with m r Suc.prems(3) show ?thesis by simp
    qed
  next
    assume "lines b ! nat r = [] \<and> find_rows b q r c = find_rows b q (r + 1) 0"
    with Suc.prems(4) ih show ?thesis by simp
  qed
qed

lemma find_rows_no_Fault:
  "buffer_ok b \<Longrightarrow> 0 \<le> r \<Longrightarrow> 0 \<le> c \<Longrightarrow> find_rows b q r c \<noteq> Fault"
proof (induction "nat (count b - r)" arbitrary: r c)
  case 0
  then have "\<not> r < count b" by simp
  from find_rows_stop [OF this] show ?case by simp
next
  case (Suc n)
  then have r: "0 \<le> r" "r < count b" and n: "n = nat (count b - (r + 1))" by auto
  have ih: "find_rows b q (r + 1) 0 \<noteq> Fault"
    using Suc.hyps(1) [OF n Suc.prems(1), of 0] r by simp
  from find_rows_cases [OF Suc.prems(1) r Suc.prems(3), of q] ih
  show ?case by (auto split: option.splits)
qed

lemma editor_find_next_not_found: "editor_find_next e fc = Some (e', False) \<Longrightarrow> e' = e"
  by (auto simp: editor_find_next_def Let_def split: if_splits scan.splits)

lemma editor_find_next_found:
  "editor_find_next e fc = Some (e', True) \<Longrightarrow>
     \<exists>r c. e' = found_at e r c \<and>
       (find_rows (buf e) (last_query e) (if fc then cy (view e) else last_match_row e)
            (if fc then cx (view e) else last_match_col e + 1) = Match r c
        \<or> find_rows (buf e) (last_query e) 0 0 = Match r c)"
  by (auto simp: editor_find_next_def Let_def split: if_splits scan.splits)

lemma scroll_idem: "editor_scroll (editor_scroll e) = editor_scroll e"
  by (simp add: editor_scroll_def Let_def)

section \<open>A search that finds nothing\<close>

lemma editor_prompt_state:
  "editor_prompt e out inp = Some (ok, q, e1, inp1) \<Longrightarrow> e1 = editor_scroll e"
proof (induction "length inp" arbitrary: e out inp rule: less_induct)
  case less
  from less.prems obtain c inp0 where k: "editor_read_key inp = Some (c, inp0)"
    by (subst (asm) editor_prompt.simps) (auto simp: Let_def split: option.splits)
  then have sh: "length inp0 < length inp" by (rule editor_read_key_shorter)
  let ?e1 = "editor_scroll e"
  have unf: "editor_prompt e out inp =
     (if c = 27 then Some (False, out, ?e1, inp0)
      else if c = 13 \<or> c = 10 then
        (if length out > 0 then Some (True, out, ?e1, inp0) else editor_prompt ?e1 out inp0)
      else if c = 127 then
        (if length out > 0 then editor_prompt ?e1 (butlast out) inp0
         else editor_prompt ?e1 out inp0)
      else if isprint c then
        (if length out + 1 < 256 then editor_prompt ?e1 (out @ [char_of_key c]) inp0
         else editor_prompt ?e1 out inp0)
      else editor_prompt ?e1 out inp0)"
    by (subst editor_prompt.simps) (simp add: k Let_def editor_draw_screen_def)
  have rec: "\<And>out'. editor_prompt ?e1 out' inp0 = Some (ok, q, e1, inp1) \<Longrightarrow> e1 = editor_scroll e"
  proof -
    fix out' assume "editor_prompt ?e1 out' inp0 = Some (ok, q, e1, inp1)"
    from less.hyps [OF sh this] show "e1 = editor_scroll e" by (simp only: scroll_idem)
  qed
  from less.prems rec show ?case unfolding unf by (auto split: if_splits)
qed

lemma editor_find_cancelled:
  "editor_prompt e [] inp = Some (False, q, e1, inp1) \<Longrightarrow>
     editor_find e inp = Some (clear_highlight (editor_scroll e), inp1)"
  by (frule editor_prompt_state) (simp add: editor_find_def)

definition query_set :: "editor \<Rightarrow> string \<Rightarrow> editor" where
  \<comment> \<open>the assignments of \<open>editor_find\<close> between the prompt and the search\<close>
  "query_set e q = e\<lparr>last_query := take 255 q, last_match_row := cy (view e),
                     last_match_col := cx (view e) - 1\<rparr>"

lemma editor_find_confirmed:
  "editor_prompt e [] inp = Some (True, q, e1, inp1) \<Longrightarrow>
     editor_find e inp =
       (case editor_find_next (query_set (editor_scroll e) q) True of
          None \<Rightarrow> None
        | Some (e3, found) \<Rightarrow>
            if \<not> found then Some (clear_highlight e3, inp1) else Some (e3, inp1))"
  by (frule editor_prompt_state) (simp add: editor_find_def query_set_def Let_def)

text \<open>Claim C8, as the code has it. When \<open>editor_find_next\<close> finds nothing in either
  pass it returns the state it was given: cursor and highlight, like everything else,
  are untouched. The search command \<open>editor_find\<close> leaves the cursor where it was
  both when the prompt is cancelled and when the confirmed query is found nowhere, and
  in both cases it clears the highlight (all three fields become -1); on a miss it
  also keeps the query and the cursor as the position of the last match.\<close>

theorem search_miss_frame:
  "(editor_find_next e from_current = Some (e', False) \<longrightarrow> e' = e)
   \<and> (editor_prompt e [] inp = Some (False, q, e1, inp1) \<longrightarrow>
        editor_find e inp = Some (clear_highlight (editor_scroll e), inp1))
   \<and> (editor_prompt e [] inp = Some (True, q, e1, inp1)
        \<and> editor_find_next (query_set (editor_scroll e) q) True = Some (e3, False) \<longrightarrow>
        editor_find e inp = Some (clear_highlight (query_set (editor_scroll e) q), inp1))
   \<and> cx (view (clear_highlight (editor_scroll e))) = cx (view e)
   \<and> cy (view (clear_highlight (editor_scroll e))) = cy (view e)
   \<and> cx (view (clear_highlight (query_set (editor_scroll e) q))) = cx (view e)
   \<and> cy (view (clear_highlight (query_set (editor_scroll e) q))) = cy (view e)
   \<and> hl_row (clear_highlight x) = -1 \<and> hl_col (clear_highlight x) = -1
   \<and> hl_len (clear_highlight x) = -1"
proof -
  have a: "editor_find_next e from_current = Some (e', False) \<longrightarrow> e' = e"
    by (auto dest: editor_find_next_not_found)
  have b: "editor_prompt e [] inp = Some (False, q, e1, inp1) \<longrightarrow>
        editor_find e inp = Some (clear_highlight (editor_scroll e), inp1)"
    by (auto dest: editor_find_cancelled)
  have c: "editor_prompt e [] inp = Some (True, q, e1, inp1)
        \<and> editor_find_next (query_set (editor_scroll e) q) True = Some (e3, False) \<longrightarrow>
        editor_find e inp = Some (clear_highlight (query_set (editor_scroll e) q), inp1)"
  proof
    assume h: "editor_prompt e [] inp = Some (True, q, e1, inp1)
        \<and> editor_find_next (query_set (editor_scroll e) q) True = Some (e3, False)"
    then have "e3 = query_set (editor_scroll e) q" by (auto dest: editor_find_next_not_found)
    with h editor_find_confirmed [of e inp q e1 inp1]
    show "editor_find e inp = Some (clear_highlight (query_set (editor_scroll e) q), inp1)"
      by simp
  qed
  have d: "cx (view (clear_highlight (editor_scroll e))) = cx (view e)"
    "cy (view (clear_highlight (editor_scroll e))) = cy (view e)"
    "cx (view (clear_highlight (query_set (editor_scroll e) q))) = cx (view e)"
    "cy (view (clear_highlight (query_set (editor_scroll e) q))) = cy (view e)"
    by (simp_all add: clear_highlight_def query_set_def editor_scroll_def Let_def)
  have f: "hl_row (clear_highlight x) = -1" "hl_col (clear_highlight x) = -1"
    "hl_len (clear_highlight x) = -1"
    by (simp_all add: clear_highlight_def)
  from a b c d f show ?thesis by blast
qed

text \<open>The session on \<open>ab\<close>, \<open>c\<close> after \<open>a\<close> has been searched and found, and after
  \<open>z\<close> has then been searched and missed.\<close>

definition searched_a :: editor where
  "searched_a = found_at (query_set (editor_scroll doc_ab_c) ''a'') 0 0"

definition searched_z :: editor where
  "searched_z = clear_highlight (query_set (editor_scroll searched_a) ''z'')"

lemmas eval_search =
  editor_find_def editor_prompt.simps editor_read_key_def key_of_char_def ESC_def CR_def
  isprint_def char_of_key_def char_of_def editor_find_next_def find_rows.simps
  editor_draw_screen_def editor_scroll_def doc_ab_c_def editor0_def mk_buffer_def
  found_at_def clear_highlight_def query_set_def Let_def strstr_def c_str_def strlen_def
  NUL_def

lemma prompt_cancel_example:
  "editor_prompt doc_ab_c [] [RByte ESC] = Some (False, [], editor_scroll doc_ab_c, [])"
  by (simp add: editor_prompt.simps editor_read_key_def decode_seq_def editor_draw_screen_def
      eval_nat_numeral)

lemma prompt_z_example:
  "editor_prompt searched_a [] [RByte (CHR ''z''), RByte CR] =
     Some (True, ''z'', editor_scroll searched_a, [])"
  by (simp add: editor_prompt.simps editor_read_key_def key_of_char_def ESC_def CR_def
      isprint_def char_of_key_def char_of_def editor_draw_screen_def scroll_idem)

lemma find_next_z_example:
  "editor_find_next (query_set (editor_scroll searched_a) ''z'') True =
     Some (query_set (editor_scroll searched_a) ''z'', False)"
  by (simp add: searched_a_def eval_search)

theorem search_miss_frame_witness:
  "editor_find_next (query_set (editor_scroll searched_a) ''z'') True =
     Some (query_set (editor_scroll searched_a) ''z'', False)
   \<and> editor_prompt doc_ab_c [] [RByte ESC] = Some (False, [], editor_scroll doc_ab_c, [])
   \<and> editor_find doc_ab_c [RByte ESC] = Some (clear_highlight (editor_scroll doc_ab_c), [])
   \<and> editor_prompt searched_a [] [RByte (CHR ''z''), RByte CR] =
        Some (True, ''z'', editor_scroll searched_a, [])
   \<and> editor_find searched_a [RByte (CHR ''z''), RByte CR] = Some (searched_z, [])"
proof -
  from search_miss_frame [of doc_ab_c undefined undefined "[RByte ESC]" "[]" "editor_scroll doc_ab_c" "[]"]
    prompt_cancel_example
  have a: "editor_find doc_ab_c [RByte ESC] = Some (clear_highlight (editor_scroll doc_ab_c), [])"
    by blast
  from search_miss_frame [of "query_set (editor_scroll searched_a) ''z''" True
      "query_set (editor_scroll searched_a) ''z''" ] find_next_z_example
  have b: "query_set (editor_scroll searched_a) ''z'' = query_set (editor_scroll searched_a) ''z''"
    by blast
  from search_miss_frame [of searched_a undefined undefined "[RByte (CHR ''z''), RByte CR]" "''z''"
      "editor_scroll searched_a" "[]" "query_set (editor_scroll searched_a) ''z''"]
    prompt_z_example find_next_z_example
  have c: "editor_find searched_a [RByte (CHR ''z''), RByte CR] = Some (searched_z, [])"
    unfolding searched_z_def by blast
  from a b c prompt_cancel_example prompt_z_example find_next_z_example show ?thesis by blast
qed

text \<open>A highlight that a miss removes: \<open>a\<close> is searched and found at row 0, column 0,
  which sets the highlight; \<open>z\<close> is searched next and not found; nobody cancelled a
  prompt, and the highlight is cleared.\<close>

theorem find_miss_clears_highlight:
  "editor_find doc_ab_c [RByte (CHR ''a''), RByte CR] = Some (searched_a, [])
   \<and> hl_row searched_a = 0 \<and> hl_col searched_a = 0 \<and> hl_len searched_a = 1
   \<and> cx (view searched_a) = 0 \<and> cy (view searched_a) = 0
   \<and> editor_find searched_a [RByte (CHR ''z''), RByte CR] = Some (searched_z, [])
   \<and> hl_row searched_z = -1 \<and> hl_col searched_z = -1 \<and> hl_len searched_z = -1
   \<and> cx (view searched_z) = 0 \<and> cy (view searched_z) = 0"
proof -
  have a: "editor_find doc_ab_c [RByte (CHR ''a''), RByte CR] = Some (searched_a, [])"
    by (simp add: searched_a_def eval_search)
  have b: "hl_row searched_a = 0 \<and> hl_col searched_a = 0 \<and> hl_len searched_a = 1
      \<and> cx (view searched_a) = 0 \<and> cy (view searched_a) = 0"
    by (simp add: searched_a_def eval_search)
  have c: "editor_find searched_a [RByte (CHR ''z''), RByte CR] = Some (searched_z, [])"
    using editor_find_confirmed [OF prompt_z_example] find_next_z_example
    by (simp add: searched_z_def)
  have d: "hl_row searched_z = -1 \<and> hl_col searched_z = -1 \<and> hl_len searched_z = -1
      \<and> cx (view searched_z) = 0 \<and> cy (view searched_z) = 0"
    by (simp add: searched_z_def searched_a_def eval_search)
  from a b c d show ?thesis by blast
qed

section \<open>The cursor invariant\<close>

text \<open>What every state of a session of version 0.3 satisfies: the buffer is well
  formed, the cursor lies in the document, the preferred column is not negative, and
  once a query has been set the position of the last match is a possible start for the
  next search.\<close>

definition editor_inv :: "editor \<Rightarrow> bool" where
  "editor_inv e \<longleftrightarrow>
     buffer_ok (buf e) \<and> cursor_ok e \<and> 0 \<le> pref_cx (view e) \<and>
     (c_str (last_query e) = [] \<or> (0 \<le> last_match_row e \<and> -1 \<le> last_match_col e))"

lemma editor_inv_frame:
  assumes "editor_inv e" "buf e' = buf e" "cx (view e') = cx (view e)" "cy (view e') = cy (view e)"
    "pref_cx (view e') = pref_cx (view e)" "last_query e' = last_query e"
    "last_match_row e' = last_match_row e" "last_match_col e' = last_match_col e"
  shows "editor_inv e'"
  using assms by (simp add: editor_inv_def cursor_ok_def)

lemma buffer_ok_len:
  "buffer_ok b \<Longrightarrow> 0 \<le> r \<Longrightarrow> r < count b \<Longrightarrow> len b ! nat r = int (length (lines b ! nat r))"
  by (auto simp: buffer_ok_def)

lemma editor_inv_clear_highlight [simp]: "editor_inv (clear_highlight e) = editor_inv e"
  by (simp add: editor_inv_def cursor_ok_def clear_highlight_def)

lemma editor_inv_quit [simp]: "editor_inv (e\<lparr>quit_times_needed := n\<rparr>) = editor_inv e"
  by (simp add: editor_inv_def cursor_ok_def)

lemma editor_inv_dirty [simp]: "editor_inv (e\<lparr>dirty := d\<rparr>) = editor_inv e"
  by (simp add: editor_inv_def cursor_ok_def)

lemma editor_inv_scroll [simp]: "editor_inv (editor_scroll e) = editor_inv e"
  by (simp add: editor_inv_def cursor_ok_def editor_scroll_def Let_def)

lemma editor_inv_dimensions [simp]:
  "editor_inv (snd (editor_update_dimensions e ws)) = editor_inv e"
  by (simp add: editor_inv_def cursor_ok_def editor_update_dimensions_def Let_def split: prod.splits option.splits)

lemma set_cursor_col_inv:
  assumes ok: "buffer_ok (buf e)" and r: "0 \<le> cy (view e)" "cy (view e) < count (buf e)"
    and p: "0 \<le> pref_cx (view e)"
    and q: "c_str (last_query e) = [] \<or> (0 \<le> last_match_row e \<and> -1 \<le> last_match_col e)"
  shows "editor_inv (set_cursor_col e)"
  using assms buffer_ok_len [OF ok r]
  by (simp add: editor_inv_def cursor_ok_def set_cursor_col_def Let_def)

lemma buffer_append_empty_eq:
  assumes ok: "buffer_ok (buf e)"
  shows "\<exists>c'. buffer_append_empty e = Some (e\<lparr>buf := mk_buffer (lines (buf e) @ ['''']) c'\<rparr>)
           \<and> count (buf e) + 1 \<le> c'"
proof -
  from ok have c: "0 \<le> count (buf e)" "count (buf e) \<le> count (buf e)"
    and l: "nat (count (buf e)) = length (lines (buf e))" by (auto simp: buffer_ok_def)
  from buffer_insert_line_eq [OF ok c, of 0 "''''"] show ?thesis
    by (auto simp: buffer_append_empty_def l)
qed

lemma editor_move_cursor_inv:
  assumes inv: "editor_inv e"
  shows "\<exists>e'. editor_move_cursor e key = Some e' \<and> editor_inv e'"
proof -
  let ?v = "view e" and ?b = "buf e"
  from inv have ok: "buffer_ok ?b" and cur: "cursor_ok e" and p: "0 \<le> pref_cx ?v"
    and q: "c_str (last_query e) = [] \<or> (0 \<le> last_match_row e \<and> -1 \<le> last_match_col e)"
    by (auto simp: editor_inv_def)
  from cur have r: "0 \<le> cy ?v" "cy ?v < count ?b" and c: "0 \<le> cx ?v"
    "cx ?v \<le> int (length (lines ?b ! nat (cy ?v)))" by (auto simp: cursor_ok_def)
  note L = buffer_ok_len [OF ok]
  consider (left) "key = 1004" | (right) "key = 1003" | (up) "key = 1001" | (down) "key = 1002"
    | (home) "key = 72" | (eol) "key = 69" | (other) "key \<notin> {1004, 1003, 1001, 1002, 72, 69}"
    by auto
  then show ?thesis
  proof cases
    case left
    show ?thesis
    proof (cases "cx ?v > 0")
      case True
      with left inv c show ?thesis
        by (auto simp: editor_move_cursor_def editor_inv_def cursor_ok_def Let_def)
    next
      case False
      show ?thesis
      proof (cases "cy ?v > 0")
        case True
        then have r1: "0 \<le> cy ?v - 1" "cy ?v - 1 < count ?b" using r by auto
        with left False True inv L [OF r1] show ?thesis
          by (auto simp: editor_move_cursor_def editor_inv_def cursor_ok_def row_ok_def Let_def)
      next
        case f2: False
        with left False inv show ?thesis by (auto simp: editor_move_cursor_def Let_def)
      qed
    qed
  next
    case right
    show ?thesis
    proof (cases "cx ?v < len ?b ! nat (cy ?v)")
      case True
      with right inv r c L [OF r] show ?thesis
        by (auto simp: editor_move_cursor_def editor_inv_def cursor_ok_def row_ok_def Let_def)
    next
      case False
      with right inv r c show ?thesis
        by (auto simp: editor_move_cursor_def editor_inv_def cursor_ok_def row_ok_def Let_def)
    qed
  next
    case up
    define y where "y = (if cy ?v > 0 then cy ?v - 1 else cy ?v)"
    have y: "0 \<le> y" "y < count ?b" using r by (auto simp: y_def)
    have "editor_inv (set_cursor_col (e\<lparr>view := ?v\<lparr>cy := y\<rparr>\<rparr>))"
      using ok y p q by (intro set_cursor_col_inv) simp_all
    with up y show ?thesis
      by (auto simp: editor_move_cursor_def row_ok_def Let_def y_def)
  next
    case down
    show ?thesis
    proof (cases "cy ?v + 1 < count ?b")
      case True
      have "editor_inv (set_cursor_col (e\<lparr>view := ?v\<lparr>cy := cy ?v + 1\<rparr>\<rparr>))"
        using ok r True p q by (intro set_cursor_col_inv) simp_all
      with down True r show ?thesis
        by (auto simp: editor_move_cursor_def row_ok_def Let_def)
    next
      case False
      from buffer_append_empty_eq [OF ok] obtain c' where
        ap: "buffer_append_empty e = Some (e\<lparr>buf := mk_buffer (lines ?b @ ['''']) c'\<rparr>)"
        and c': "count ?b + 1 \<le> c'" by blast
      let ?e1 = "e\<lparr>buf := mk_buffer (lines ?b @ ['''']) c'\<rparr>"
      from ok have cnt: "count ?b = int (length (lines ?b))" by (simp add: buffer_ok_def)
      have ok1: "buffer_ok (buf ?e1)" using c' cnt by (simp add: buffer_ok_mk)
      have "editor_inv (set_cursor_col (?e1\<lparr>view := ?v\<lparr>cy := cy ?v + 1\<rparr>\<rparr>))"
        using ok1 r False p q cnt by (intro set_cursor_col_inv) simp_all
      with down False r ap cnt show ?thesis
        by (auto simp: editor_move_cursor_def row_ok_def Let_def)
    qed
  next
    case home
    with inv show ?thesis
      by (auto simp: editor_move_cursor_def editor_inv_def cursor_ok_def Let_def)
  next
    case eol
    with inv r L [OF r] show ?thesis
      by (auto simp: editor_move_cursor_def editor_inv_def cursor_ok_def row_ok_def Let_def)
  next
    case other
    with inv show ?thesis by (auto simp: editor_move_cursor_def Let_def)
  qed
qed

lemma editor_move_cursor_vert_inv:
  assumes inv: "editor_inv e"
  shows "\<exists>e'. editor_move_cursor_vert e key = Some e' \<and> editor_inv e'"
proof -
  let ?v = "view e" and ?b = "buf e"
  from inv have ok: "buffer_ok ?b" and cur: "cursor_ok e" and p: "0 \<le> pref_cx ?v"
    and q: "c_str (last_query e) = [] \<or> (0 \<le> last_match_row e \<and> -1 \<le> last_match_col e)"
    by (auto simp: editor_inv_def)
  from cur have r: "0 \<le> cy ?v" "cy ?v < count ?b" by (auto simp: cursor_ok_def)
  define page where "page = (if screenrows ?v - 2 < 1 then 1 else screenrows ?v - 2)"
  define y where "y = (if key = 1005
               then (if cy ?v - page < 0 then 0 else cy ?v - page)
               else (if cy ?v + page \<ge> count ?b then count ?b - 1 else cy ?v + page))"
  have pg: "1 \<le> page" by (simp add: page_def)
  have y: "0 \<le> y" "y < count ?b" using r pg by (auto simp: y_def)
  have "editor_inv (set_cursor_col (e\<lparr>view := ?v\<lparr>cy := y\<rparr>\<rparr>))"
    using ok y p q by (intro set_cursor_col_inv) simp_all
  moreover have "editor_move_cursor_vert e key = Some (set_cursor_col (e\<lparr>view := ?v\<lparr>cy := y\<rparr>\<rparr>))"
    using y unfolding editor_move_cursor_vert_def Let_def page_def [symmetric] y_def [symmetric]
    by (simp add: row_ok_def)
  ultimately show ?thesis by simp
qed

lemma editor_insert_char_inv:
  assumes inv: "editor_inv e"
  shows "\<exists>e'. editor_insert_char e c = Some e' \<and> editor_inv e'"
proof -
  let ?v = "view e" and ?b = "buf e"
  from inv have ok: "buffer_ok ?b" and cur: "cursor_ok e"
    and q: "c_str (last_query e) = [] \<or> (0 \<le> last_match_row e \<and> -1 \<le> last_match_col e)"
    by (auto simp: editor_inv_def)
  from cur have r: "0 \<le> cy ?v" "cy ?v < count ?b" and cx: "0 \<le> cx ?v"
    "cx ?v \<le> int (length (lines ?b ! nat (cy ?v)))" by (auto simp: cursor_ok_def)
  from ok r have i: "nat (cy ?v) < length (lines ?b)" by (auto simp: buffer_ok_def)
  from buffer_ok_capD [OF ok] have cap: "lines ?b \<noteq> []" "int (length (lines ?b)) \<le> cap ?b" by auto
  from buffer_insert_char_eq [OF ok cursor_row_ok [OF cur], of "cx ?v" "char_of_key c"]
  show ?thesis using r cx i cap q
    by (simp add: editor_insert_char_def editor_inv_def cursor_ok_def buffer_ok_mk clear_highlight_def)
qed

lemma editor_insert_newline_inv:
  assumes inv: "editor_inv e"
  shows "\<exists>e'. editor_insert_newline e = Some e' \<and> editor_inv e'"
proof -
  let ?v = "view e" and ?b = "buf e"
  from inv have ok: "buffer_ok ?b" and cur: "cursor_ok e"
    and q: "c_str (last_query e) = [] \<or> (0 \<le> last_match_row e \<and> -1 \<le> last_match_col e)"
    by (auto simp: editor_inv_def)
  from cur have r: "0 \<le> cy ?v" "cy ?v < count ?b" by (auto simp: cursor_ok_def)
  from ok r have i: "nat (cy ?v) < length (lines ?b)" and cnt: "count ?b = int (length (lines ?b))"
    by (auto simp: buffer_ok_def)
  from buffer_split_line_eq [OF ok cursor_row_ok [OF cur], of "cx ?v"] obtain c' where
    sp: "buffer_split_line e (cy ?v) (cx ?v) =
      Some (e\<lparr>buf := mk_buffer (take (nat (cy ?v)) (lines ?b) @
                 take (nat (cx ?v)) (lines ?b ! nat (cy ?v)) #
                 drop (nat (cx ?v)) (lines ?b ! nat (cy ?v)) #
                 drop (Suc (nat (cy ?v))) (lines ?b)) c', dirty := True\<rparr>)"
    and c': "count ?b + 1 \<le> c'" by blast
  have l: "int (length (take (nat (cy ?v)) (lines ?b) @
                 take (nat (cx ?v)) (lines ?b ! nat (cy ?v)) #
                 drop (nat (cx ?v)) (lines ?b ! nat (cy ?v)) #
                 drop (Suc (nat (cy ?v))) (lines ?b))) = count ?b + 1"
    using i cnt by auto
  show ?thesis
    unfolding editor_insert_newline_def sp using r c' l q
    by (simp add: editor_inv_def cursor_ok_def buffer_ok_mk clear_highlight_def)
qed

lemma editor_backspace_inv:
  assumes inv: "editor_inv e"
  shows "\<exists>e'. editor_backspace e = Some e' \<and> editor_inv e'"
proof -
  let ?v = "view e" and ?b = "buf e"
  from inv have ok: "buffer_ok ?b" and cur: "cursor_ok e"
    and q: "c_str (last_query e) = [] \<or> (0 \<le> last_match_row e \<and> -1 \<le> last_match_col e)"
    by (auto simp: editor_inv_def)
  from cur have r: "0 \<le> cy ?v" "cy ?v < count ?b" and cx: "0 \<le> cx ?v"
    "cx ?v \<le> int (length (lines ?b ! nat (cy ?v)))" by (auto simp: cursor_ok_def)
  from ok r have i: "nat (cy ?v) < length (lines ?b)" and cnt: "count ?b = int (length (lines ?b))"
    by (auto simp: buffer_ok_def)
  from buffer_ok_capD [OF ok] have cap: "lines ?b \<noteq> []" "int (length (lines ?b)) \<le> cap ?b" by auto
  consider (char) "0 < cx ?v" | (join) "cx ?v = 0" "0 < cy ?v" | (none) "cx ?v = 0" "cy ?v = 0"
    using cx r by linarith
  then show ?thesis
  proof cases
    case char
    from editor_backspace_char [OF ok cur char] r cx i cap q char show ?thesis
      by (simp add: editor_inv_def cursor_ok_def buffer_ok_mk clear_highlight_def)
  next
    case join
    have n: "(take (nat (cy ?v) - 1) (lines ?b) @
                 (lines ?b ! (nat (cy ?v) - 1) @ lines ?b ! nat (cy ?v)) #
                 drop (Suc (nat (cy ?v))) (lines ?b)) ! nat (cy ?v - 1)
          = lines ?b ! (nat (cy ?v) - 1) @ lines ?b ! nat (cy ?v)"
      using i join by (simp add: nth_append nat_diff_distrib)
    from editor_backspace_join [OF ok cur join] r i cap q join n show ?thesis
      by (simp add: editor_inv_def cursor_ok_def buffer_ok_mk clear_highlight_def)
  next
    case none
    with inv show ?thesis by (simp add: editor_backspace_def)
  qed
qed

lemma found_at_inv:
  assumes inv: "editor_inv e"
    and m: "0 \<le> r" "r < count (buf e)" "0 \<le> c" "c \<le> int (length (lines (buf e) ! nat r))"
  shows "editor_inv (found_at e r c)"
  using assms by (simp add: editor_inv_def cursor_ok_def found_at_def)

lemma editor_find_next_inv:
  assumes inv: "editor_inv e"
  shows "\<exists>e' found. editor_find_next e fc = Some (e', found) \<and> editor_inv e'"
proof (cases "c_str (last_query e) = []")
  case True
  with inv show ?thesis by (auto simp: editor_find_next_def)
next
  case False
  let ?r = "if fc then cy (view e) else last_match_row e"
  let ?c = "if fc then cx (view e) else last_match_col e + 1"
  from inv have ok: "buffer_ok (buf e)" and cur: "cursor_ok e" by (auto simp: editor_inv_def)
  from inv False have s: "0 \<le> ?r" "0 \<le> ?c" by (auto simp: editor_inv_def cursor_ok_def)
  note nf1 = find_rows_no_Fault [OF ok s, of "last_query e"]
  have nf2: "find_rows (buf e) (last_query e) 0 0 \<noteq> Fault"
    by (rule find_rows_no_Fault [OF ok]) simp_all
  show ?thesis
  proof (cases "find_rows (buf e) (last_query e) ?r ?c")
    case Fault
    with nf1 show ?thesis by simp
  next
    case (Match r1 c1)
    from find_rows_Match [OF ok s Match] s have "editor_inv (found_at e r1 c1)"
      by (intro found_at_inv [OF inv]) auto
    with Match False show ?thesis by (auto simp: editor_find_next_def Let_def)
  next
    case NoMatch
    show ?thesis
    proof (cases "find_rows (buf e) (last_query e) 0 0")
      case Fault
      with nf2 show ?thesis by simp
    next
      case (Match r1 c1)
      from find_rows_Match [OF ok _ _ Match] have "editor_inv (found_at e r1 c1)"
        by (intro found_at_inv [OF inv]) auto
      with Match NoMatch False show ?thesis by (auto simp: editor_find_next_def Let_def)
    next
      case nm: NoMatch
      with NoMatch False inv show ?thesis by (auto simp: editor_find_next_def Let_def)
    qed
  qed
qed

lemma query_set_inv: "editor_inv e \<Longrightarrow> editor_inv (query_set e q)"
  by (auto simp: editor_inv_def cursor_ok_def query_set_def)

lemma editor_find_inv:
  assumes inv: "editor_inv e" and pr: "editor_prompt e [] inp = Some p"
  shows "\<exists>e' inp'. editor_find e inp = Some (e', inp') \<and> editor_inv e'"
proof -
  obtain ok q e1 inp1 where p: "p = (ok, q, e1, inp1)" by (cases p)
  show ?thesis
  proof (cases ok)
    case False
    with pr p inv editor_find_cancelled [of e inp q e1 inp1] show ?thesis by simp
  next
    case True
    from inv have "editor_inv (query_set (editor_scroll e) q)" by (simp add: query_set_inv)
    from editor_find_next_inv [OF this, of True] obtain e3 found where
      fn: "editor_find_next (query_set (editor_scroll e) q) True = Some (e3, found)"
      and i3: "editor_inv e3" by blast
    from True pr p editor_find_confirmed [of e inp q e1 inp1] fn i3 show ?thesis by simp
  qed
qed

lemma editor_find_None:
  "editor_prompt e [] inp = None \<Longrightarrow> editor_find e inp = None"
  by (simp add: editor_find_def)

lemma editor_save_atomic_inv:
  "editor_inv e \<Longrightarrow> editor_save_atomic io fs e = (saved, fs1, e1) \<Longrightarrow> editor_inv e1"
  by (auto simp: editor_save_atomic_def Let_def split: if_splits prod.splits)

lemma process_key_17:
  "process_key io fs e 17 inp =
     (if dirty e \<and> quit_times_needed e > 0
      then Some (fs, e\<lparr>quit_times_needed := quit_times_needed e - 1\<rparr>, inp, False, True)
      else Some (fs, e, inp, True, False))"
  by (simp add: process_key_def)

lemma process_key_19:
  "process_key io fs e 19 inp =
     (let (ok, fs1, e1) = editor_save_atomic io fs e
      in Some (fs1, e1\<lparr>quit_times_needed := 1\<rparr>, inp, False, True))"
  by (simp add: process_key_def)

lemma process_key_6:
  "process_key io fs e 6 inp =
     (case editor_find e inp of
        None \<Rightarrow> None
      | Some (e1, inp1) \<Rightarrow> Some (fs, e1\<lparr>quit_times_needed := 1\<rparr>, inp1, False, True))"
  by (simp add: process_key_def)

lemma process_key_14:
  "process_key io fs e 14 inp =
     (case editor_find_next e False of
        None \<Rightarrow> None
      | Some (e1, found) \<Rightarrow> Some (fs, e1\<lparr>quit_times_needed := 1\<rparr>, inp, False, True))"
  by (simp add: process_key_def)

lemma process_key_page:
  "c = 1005 \<or> c = 1006 \<Longrightarrow>
   process_key io fs e c inp =
     (case editor_move_cursor_vert e c of
        None \<Rightarrow> None
      | Some e1 \<Rightarrow> Some (fs, clear_highlight (e1\<lparr>quit_times_needed := 1\<rparr>), inp, False, True))"
  by (auto simp: process_key_def)

lemma process_key_move:
  "c = 1001 \<or> c = 1002 \<or> c = 1003 \<or> c = 1004 \<or> c = 72 \<or> c = 69 \<Longrightarrow>
   process_key io fs e c inp =
     (case editor_move_cursor e c of
        None \<Rightarrow> None
      | Some e1 \<Rightarrow> Some (fs, clear_highlight (e1\<lparr>quit_times_needed := 1\<rparr>), inp, False, True))"
  by (auto simp: process_key_def)

lemma process_key_enter:
  "c = 13 \<or> c = 10 \<Longrightarrow>
   process_key io fs e c inp =
     (case editor_insert_newline e of
        None \<Rightarrow> None
      | Some e1 \<Rightarrow> Some (fs, e1\<lparr>quit_times_needed := 1\<rparr>, inp, False, True))"
  by (auto simp: process_key_def)

lemma process_key_other:
  "c \<notin> {17, 19, 6, 14, 1005, 1006, 1001, 1002, 1003, 1004, 72, 69, 13, 10, 127} \<Longrightarrow>
   process_key io fs e c inp =
     (if isprint c then
        (case editor_insert_char e c of
           None \<Rightarrow> None
         | Some e1 \<Rightarrow> Some (fs, e1\<lparr>quit_times_needed := 1\<rparr>, inp, False, True))
      else Some (fs, e, inp, False, False))"
  by (simp add: process_key_def)

lemma process_key_inv:
  assumes inv: "editor_inv e"
    and r: "process_key io fs e c inp = Some (fs1, e1, inp1, ex, rd)"
  shows "editor_inv e1"
proof -
  consider "c = 17" | "c = 19" | "c = 6" | "c = 14" | "c = 1005 \<or> c = 1006"
    | "c = 1001 \<or> c = 1002 \<or> c = 1003 \<or> c = 1004 \<or> c = 72 \<or> c = 69"
    | "c = 13 \<or> c = 10" | "c = 127"
    | "c \<notin> {17, 19, 6, 14, 1005, 1006, 1001, 1002, 1003, 1004, 72, 69, 13, 10, 127}"
    by auto
  then show ?thesis
  proof cases
    case 1
    with r inv show ?thesis by (auto simp: process_key_17 split: if_splits)
  next
    case 2
    with r inv show ?thesis
      by (auto simp: process_key_19 split: prod.splits dest: editor_save_atomic_inv)
  next
    case 3
    with r obtain x where a: "editor_find e inp = Some (x, inp1)" and e1: "e1 = x\<lparr>quit_times_needed := 1\<rparr>"
      by (auto simp: process_key_6 split: option.splits)
    then obtain p where "editor_prompt e [] inp = Some p"
      by (cases "editor_prompt e [] inp") (auto simp: editor_find_None)
    from editor_find_inv [OF inv this] a e1 show ?thesis by auto
  next
    case 4
    with r editor_find_next_inv [OF inv, of False] show ?thesis
      by (auto simp: process_key_14 split: option.splits)
  next
    case 5
    with r editor_move_cursor_vert_inv [OF inv, of c] show ?thesis
      by (auto simp: process_key_page split: option.splits)
  next
    case 6
    with r editor_move_cursor_inv [OF inv, of c] show ?thesis
      by (auto simp: process_key_move split: option.splits)
  next
    case 7
    with r editor_insert_newline_inv [OF inv] show ?thesis
      by (auto simp: process_key_enter split: option.splits)
  next
    case 8
    with r editor_backspace_inv [OF inv] show ?thesis
      by (auto simp: process_key_127 split: option.splits)
  next
    case 9
    with r editor_insert_char_inv [OF inv, of c] inv show ?thesis
      by (auto simp: process_key_other split: option.splits if_splits)
  qed
qed

lemma process_key_returns:
  assumes inv: "editor_inv e" and c: "c \<noteq> CTRL_KEY 102"
  shows "\<exists>res. process_key io fs e c inp = Some res"
proof -
  consider "c = 17" | "c = 19" | "c = 14" | "c = 1005 \<or> c = 1006"
    | "c = 1001 \<or> c = 1002 \<or> c = 1003 \<or> c = 1004 \<or> c = 72 \<or> c = 69"
    | "c = 13 \<or> c = 10" | "c = 127"
    | "c \<notin> {17, 19, 6, 14, 1005, 1006, 1001, 1002, 1003, 1004, 72, 69, 13, 10, 127}"
    using c by auto
  then show ?thesis
  proof cases
    case 1
    then show ?thesis by (auto simp: process_key_17)
  next
    case 2
    then show ?thesis by (auto simp: process_key_19 split: prod.splits)
  next
    case 3
    with editor_find_next_inv [OF inv, of False] show ?thesis by (auto simp: process_key_14)
  next
    case 4
    with editor_move_cursor_vert_inv [OF inv, of c] show ?thesis by (auto simp: process_key_page)
  next
    case 5
    with editor_move_cursor_inv [OF inv, of c] show ?thesis by (auto simp: process_key_move)
  next
    case 6
    with editor_insert_newline_inv [OF inv] show ?thesis by (auto simp: process_key_enter)
  next
    case 7
    with editor_backspace_inv [OF inv] show ?thesis by (auto simp: process_key_127)
  next
    case 8
    with editor_insert_char_inv [OF inv, of c] show ?thesis by (auto simp: process_key_other)
  qed
qed

lemma process_key_find_returns:
  assumes inv: "editor_inv e" and pr: "editor_prompt e [] inp = Some p"
  shows "\<exists>res. process_key io fs e (CTRL_KEY 102) inp = Some res"
  using editor_find_inv [OF inv pr] by (auto simp: process_key_6)

lemma editor_update_dimensions_inv:
  "editor_update_dimensions e ws = (ch, e') \<Longrightarrow> editor_inv e \<Longrightarrow> editor_inv e'"
  using editor_inv_dimensions [of e ws] by simp

lemma main_iteration_inv:
  assumes inv: "editor_inv e"
    and r: "main_iteration io ws fs e inp = Some (fs1, e1, inp1, ex)"
  shows "editor_inv e1"
proof -
  from r obtain c inp0 where k: "editor_read_key inp = Some (c, inp0)"
    by (auto simp: main_iteration_def split: option.splits)
  with r obtain fs2 e2 inp2 ex2 rd where
    p: "process_key io fs e c inp0 = Some (fs2, e2, inp2, ex2, rd)"
    by (auto simp: main_iteration_def split: option.splits)
  from process_key_inv [OF inv p] have i2: "editor_inv e2" .
  with r k p show ?thesis
    by (auto simp: main_iteration_def editor_draw_screen_def split: if_splits prod.splits
        dest: editor_update_dimensions_inv)
qed

lemma editor0_inv: "editor_inv editor0"
  by (simp add: editor_inv_def cursor_ok_def editor0_def buffer_init_def buffer_ok_def)

lemma editor_start_inv:
  assumes "editor_start arg ws = Some e"
  shows "editor_inv e"
proof -
  from assms obtain e1 where e1: "(case arg of None \<Rightarrow> Some editor0
            | Some (path, file) \<Rightarrow> editor_open (editor0\<lparr>filename := take 255 path\<rparr>) path file) = Some e1"
    and e: "e = editor_draw_screen (snd (editor_update_dimensions
         (e1\<lparr>view := (view e1)\<lparr>cx := 0, cy := 0, pref_cx := 0, rowoff := 0, coloff := 0\<rparr>\<rparr>) ws))"
    by (auto simp: editor_start_def Let_def split: option.splits)
  have "buffer_ok (buf e1) \<and> last_query e1 = []"
  proof (cases arg)
    case None
    with e1 editor0_inv show ?thesis by (auto simp: editor_inv_def editor0_def)
  next
    case (Some pf)
    obtain path f where pf: "pf = (path, f)" by (cases pf)
    with Some e1 have o: "editor_open (editor0\<lparr>filename := take 255 path\<rparr>) path f = Some e1" by simp
    have "buffer_ok (buf (editor0\<lparr>filename := take 255 path\<rparr>))"
      using editor0_inv by (simp add: editor_inv_def)
    from editor_open_ok [OF this o] have b: "buffer_ok (buf e1)" .
    from editor_open_frame [OF o] have "last_query e1 = last_query (editor0\<lparr>filename := take 255 path\<rparr>)"
      by (metis editor.select_convs(5) editor.surjective editor.update_convs(1,3,4))
    then have "last_query e1 = []" by (simp add: editor0_def)
    with b show ?thesis by simp
  qed
  then have "editor_inv (e1\<lparr>view := (view e1)\<lparr>cx := 0, cy := 0, pref_cx := 0, rowoff := 0, coloff := 0\<rparr>\<rparr>)"
    by (auto simp: editor_inv_def cursor_ok_def buffer_ok_def)
  then show ?thesis unfolding e by (simp add: editor_draw_screen_def)
qed

lemma reachable_inv: "reachable e \<Longrightarrow> editor_inv e"
  by (induction rule: reachable.induct) (auto dest: editor_start_inv main_iteration_inv)

text \<open>Claim C3. In every state a session of version 0.3 can reach, every key the main
  loop dispatches leads to a state where \<open>0 \<le> cy < count\<close> and
  \<open>0 \<le> cx \<le> length (line cy)\<close>: cursor motion, paging, Home and End, insertion, Enter,
  Backspace, search and every other key. Each of these operations returns; the search
  command returns whenever its prompt does.\<close>

theorem cursor_invariant:
  assumes "reachable e"
  shows "(c \<noteq> CTRL_KEY 102 \<longrightarrow> (\<exists>res. process_key io fs e c inp = Some res))
     \<and> (\<forall>p. editor_prompt e [] inp = Some p \<longrightarrow>
            (\<exists>res. process_key io fs e (CTRL_KEY 102) inp = Some res))
     \<and> (\<forall>fs1 e1 inp1 ex rd. process_key io fs e c inp = Some (fs1, e1, inp1, ex, rd) \<longrightarrow>
            0 \<le> cy (view e1) \<and> cy (view e1) < count (buf e1) \<and> 0 \<le> cx (view e1) \<and>
            cx (view e1) \<le> int (length (lines (buf e1) ! nat (cy (view e1)))))"
proof -
  from assms have inv: "editor_inv e" by (rule reachable_inv)
  have a: "c \<noteq> CTRL_KEY 102 \<longrightarrow> (\<exists>res. process_key io fs e c inp = Some res)"
    using process_key_returns [OF inv] by blast
  have b: "\<forall>p. editor_prompt e [] inp = Some p \<longrightarrow>
            (\<exists>res. process_key io fs e (CTRL_KEY 102) inp = Some res)"
    using process_key_find_returns [OF inv] by blast
  have c: "\<forall>fs1 e1 inp1 ex rd. process_key io fs e c inp = Some (fs1, e1, inp1, ex, rd) \<longrightarrow>
            0 \<le> cy (view e1) \<and> cy (view e1) < count (buf e1) \<and> 0 \<le> cx (view e1) \<and>
            cx (view e1) \<le> int (length (lines (buf e1) ! nat (cy (view e1))))"
  proof (intro allI impI)
    fix fs1 e1 inp1 ex rd
    assume "process_key io fs e c inp = Some (fs1, e1, inp1, ex, rd)"
    from process_key_inv [OF inv this] have "cursor_ok e1" by (simp add: editor_inv_def)
    then show "0 \<le> cy (view e1) \<and> cy (view e1) < count (buf e1) \<and> 0 \<le> cx (view e1) \<and>
            cx (view e1) \<le> int (length (lines (buf e1) ! nat (cy (view e1))))"
      by (simp add: cursor_ok_def)
  qed
  from a b c show ?thesis by blast
qed

text \<open>A session started without a file on a terminal that does not tell its size, and
  the same session after \<open>a\<close> has been typed.\<close>

definition start0 :: editor where
  "start0 = editor0\<lparr>view := (view editor0)\<lparr>screenrows := 22, screencols := 80\<rparr>\<rparr>"

definition start_a :: editor where
  "start_a = start0\<lparr>buf := mk_buffer [''a''] 64, dirty := True,
       view := (view start0)\<lparr>cx := 1, pref_cx := 1\<rparr>, hl_len := -1\<rparr>"

lemma start0_start: "editor_start None None = Some start0"
  by (simp add: editor_start_def editor0_def start0_def editor_update_dimensions_def
      editor_draw_screen_def editor_scroll_def Let_def)

lemma start_a_step: "process_key io fs start0 97 inp = Some (fs, start_a, inp, False, True)"
  by (simp add: process_key_other isprint_def editor_insert_char_def buffer_insert_char_def
      row_ok_def editor0_def start0_def buffer_init_def mk_buffer_def start_a_def clear_highlight_def
      char_of_key_def char_of_def Let_def)

theorem cursor_invariant_witness:
  "reachable start0
   \<and> process_key io_ok Map.empty start0 97 [] = Some (Map.empty, start_a, [], False, True)
   \<and> 0 \<le> cy (view start_a) \<and> cy (view start_a) < count (buf start_a) \<and> 0 \<le> cx (view start_a)
   \<and> cx (view start_a) \<le> int (length (lines (buf start_a) ! nat (cy (view start_a))))
   \<and> cx (view start_a) = 1 \<and> cy (view start_a) = 0"
proof -
  have r: "reachable start0" using start0_start by (rule reachable.start)
  note s = start_a_step [of io_ok Map.empty "[]"]
  from cursor_invariant [OF r, of 97 io_ok Map.empty "[]"] s
  have "0 \<le> cy (view start_a) \<and> cy (view start_a) < count (buf start_a) \<and> 0 \<le> cx (view start_a)
     \<and> cx (view start_a) \<le> int (length (lines (buf start_a) ! nat (cy (view start_a))))"
    by blast
  moreover have "cx (view start_a) = 1 \<and> cy (view start_a) = 0"
    by (simp add: start_a_def start0_def editor0_def)
  ultimately show ?thesis using r s by blast
qed

section \<open>Search visits every occurrence\<close>

















text \<open>A document none of whose lines holds a NUL byte: every line is the C string
  the search sees.\<close>

definition nul_free :: "string list \<Rightarrow> bool" where
  "nul_free ls \<longleftrightarrow> (\<forall>l \<in> set ls. NUL \<notin> set l)"


































section \<open>The buffer in memory\<close>

text \<open>
  The sections above describe the document as a list of lines. This section describes
  the same functions of version 0.3 on the memory they work on: the two arrays with all
  their \<open>cap\<close> slots, and the heap blocks the slots point to. It is the level at which a
  call with a row outside the document can be followed.
  \<^item> A byte is \<open>Some c\<close>, or \<open>None\<close> when its value is indeterminate (fresh from
    \<open>malloc\<close> or \<open>realloc\<close>). A slot of the arrays is \<open>None\<close> when it is indeterminate.
  \<^item> The heap maps the address of every live block to its bytes. Addresses are never
    reused. As in the C standard, \<open>realloc\<close> ends the life of the old block and
    returns a new one, so a second pointer to the old block dangles afterwards.
  \<^item> A function returns \<open>None\<close> where the behaviour of the C call is undefined: an
    access outside an array or a block, through a null or dangling pointer, or the use
    of an indeterminate value; and where \<open>grow_cap\<close> does not end. Allocation is
    assumed to succeed.
\<close>

datatype ptr = Null | Addr nat

type_synonym byte = "char option"

record Mem =
  heap :: "nat \<Rightarrow> byte list option"
  brk :: nat
  m_lines :: "ptr option list"
  m_len :: "int option list"
  m_count :: int
  m_cap :: int
  m_dirty :: bool

text \<open>\<open>a[i]\<close> read and written, for an array or a block \<open>a\<close>.\<close>

definition aget :: "'a option list \<Rightarrow> int \<Rightarrow> 'a option" where
  "aget xs i = (if 0 \<le> i \<and> i < int (length xs) then xs ! nat i else None)"

definition aset :: "'a option list \<Rightarrow> int \<Rightarrow> 'a \<Rightarrow> 'a option list option" where
  "aset xs i x = (if 0 \<le> i \<and> i < int (length xs) then Some (xs[nat i := Some x]) else None)"

text \<open>\<open>memmove(&a[dst], &a[src], k * sizeof a[0])\<close> inside one array or block, and
  \<open>memcpy(&a[dst], b, k)\<close> from the start of another block.\<close>

definition memmove_list :: "'a list \<Rightarrow> int \<Rightarrow> int \<Rightarrow> int \<Rightarrow> 'a list option" where
  "memmove_list xs dst src k =
     (if k < 0 \<or> dst < 0 \<or> src < 0 \<or> int (length xs) < dst + k \<or> int (length xs) < src + k
      then None
      else Some (take (nat dst) xs @ take (nat k) (drop (nat src) xs) @ drop (nat (dst + k)) xs))"

definition memcpy_list :: "'a list \<Rightarrow> int \<Rightarrow> 'a list \<Rightarrow> int \<Rightarrow> 'a list option" where
  "memcpy_list xs dst ys k =
     (if k < 0 \<or> dst < 0 \<or> int (length xs) < dst + k \<or> int (length ys) < k then None
      else Some (take (nat dst) xs @ take (nat k) ys @ drop (nat (dst + k)) xs))"

text \<open>\<open>malloc(n)\<close>, \<open>realloc(p, n)\<close> and \<open>free(p)\<close>. A request for no bytes, or for a
  negative number of them (a huge \<open>size_t\<close>), is not followed further: each caller
  goes on to an access outside the block it asked for.\<close>

definition malloc :: "Mem \<Rightarrow> int \<Rightarrow> (nat \<times> Mem) option" where
  "malloc m n =
     (if n \<le> 0 then None
      else Some (brk m, m\<lparr>heap := (heap m)(brk m \<mapsto> replicate (nat n) None),
                           brk := Suc (brk m)\<rparr>))"

definition realloc :: "Mem \<Rightarrow> ptr \<Rightarrow> int \<Rightarrow> (nat \<times> Mem) option" where
  "realloc m p n =
     (case p of
        Null \<Rightarrow> malloc m n
      | Addr a \<Rightarrow>
          (case heap m a of
             None \<Rightarrow> None
           | Some blk \<Rightarrow>
               if n \<le> 0 then None
               else Some (brk m,
                  m\<lparr>heap := (heap m)(a := None,
                       brk m \<mapsto> take (nat n) blk @ replicate (nat n - length blk) None),
                    brk := Suc (brk m)\<rparr>)))"

definition free :: "Mem \<Rightarrow> ptr \<Rightarrow> Mem option" where
  "free m p =
     (case p of
        Null \<Rightarrow> Some m
      | Addr a \<Rightarrow>
          (case heap m a of
             None \<Rightarrow> None
           | Some blk \<Rightarrow> Some (m\<lparr>heap := (heap m)(a := None)\<rparr>)))"

text \<open>The block a pointer leads to.\<close>

definition deref :: "Mem \<Rightarrow> ptr \<Rightarrow> (nat \<times> byte list) option" where
  "deref m p =
     (case p of
        Null \<Rightarrow> None
      | Addr a \<Rightarrow> map_option (Pair a) (heap m a))"

text \<open>The memory before \<open>main\<close> runs, and \<open>buffer_init\<close>: both arrays come from
  \<open>calloc\<close>, so every slot but the first is a null pointer with length 0.\<close>

definition mem0 :: Mem where
  "mem0 = \<lparr>heap = (\<lambda>a. None), brk = 0, m_lines = [], m_len = [], m_count = 0, m_cap = 0,
           m_dirty = False\<rparr>"

definition buffer_init_mem :: "Mem \<Rightarrow> Mem" where
  "buffer_init_mem m =
     m\<lparr>heap := (heap m)(brk m \<mapsto> [Some NUL]), brk := Suc (brk m),
       m_lines := (replicate 64 (Some Null))[0 := Some (Addr (brk m))],
       m_len := replicate 64 (Some 0), m_count := 1, m_cap := 64\<rparr>"

text \<open>\<open>buffer_ensure_capacity\<close>: the slots \<open>realloc\<close> adds to the arrays are
  indeterminate.\<close>

definition buffer_ensure_capacity_mem :: "Mem \<Rightarrow> int \<Rightarrow> Mem option" where
  "buffer_ensure_capacity_mem m need =
     (if need \<le> m_cap m then Some m
      else case grow_cap (m_cap m) need of
        None \<Rightarrow> None
      | Some c \<Rightarrow>
          Some (m\<lparr>m_cap := c,
                  m_lines := m_lines m @ replicate (nat c - length (m_lines m)) None,
                  m_len := m_len m @ replicate (nat c - length (m_len m)) None\<rparr>))"

text \<open>\<open>buffer_insert_line(b, at, s, n)\<close>; \<open>s\<close> are the bytes readable at the pointer.\<close>

definition buffer_insert_line_mem :: "Mem \<Rightarrow> int \<Rightarrow> byte list \<Rightarrow> int \<Rightarrow> Mem option" where
  "buffer_insert_line_mem m at s n =
     (if at < 0 \<or> at > m_count m then Some m
      else do {
        m1 \<leftarrow> buffer_ensure_capacity_mem m (m_count m + 1);
        ls \<leftarrow> memmove_list (m_lines m1) (at + 1) at (m_count m1 - at);
        ns \<leftarrow> memmove_list (m_len m1) (at + 1) at (m_count m1 - at);
        (a, m2) \<leftarrow> malloc m1 (n + 1);
        ls1 \<leftarrow> aset ls at (Addr a);
        blk \<leftarrow> heap m2 a;
        blk1 \<leftarrow> memcpy_list blk 0 s n;
        blk2 \<leftarrow> aset blk1 n NUL;
        ns1 \<leftarrow> aset ns at n;
        Some (m2\<lparr>heap := (heap m2)(a \<mapsto> blk2), m_lines := ls1, m_len := ns1,
                 m_count := m_count m2 + 1\<rparr>)
      })"

text \<open>The three functions below read \<open>b->len[row]\<close> and \<open>b->lines[row]\<close> without a check
  of \<open>row\<close>: any slot of the arrays can be named.\<close>

definition clamp_col :: "int \<Rightarrow> int \<Rightarrow> int" where
  \<comment> \<open>\<^verbatim>\<open>if (col < 0) col = 0; if (col > L) col = L;\<close>\<close>
  "clamp_col col L = (let col1 = (if col < 0 then 0 else col) in if col1 > L then L else col1)"

definition buffer_insert_char_mem :: "Mem \<Rightarrow> int \<Rightarrow> int \<Rightarrow> char \<Rightarrow> Mem option" where
  "buffer_insert_char_mem m row col c =
     do {
       L \<leftarrow> aget (m_len m) row;
       p \<leftarrow> aget (m_lines m) row;
       (a, m1) \<leftarrow> realloc m p (L + 2);
       ls \<leftarrow> aset (m_lines m1) row (Addr a);
       blk \<leftarrow> heap m1 a;
       blk1 \<leftarrow> memmove_list blk (clamp_col col L + 1) (clamp_col col L) (L - clamp_col col L + 1);
       blk2 \<leftarrow> aset blk1 (clamp_col col L) c;
       ns \<leftarrow> aset (m_len m1) row (L + 1);
       Some (m1\<lparr>heap := (heap m1)(a \<mapsto> blk2), m_lines := ls, m_len := ns, m_dirty := True\<rparr>)
     }"

definition buffer_delete_char_mem :: "Mem \<Rightarrow> int \<Rightarrow> int \<Rightarrow> Mem option" where
  "buffer_delete_char_mem m row col =
     do {
       L \<leftarrow> aget (m_len m) row;
       if col \<le> 0 \<or> col > L then Some m
       else do {
         p \<leftarrow> aget (m_lines m) row;
         (a, blk) \<leftarrow> deref m p;
         blk1 \<leftarrow> memmove_list blk (col - 1) col (L - col + 1);
         ns \<leftarrow> aset (m_len m) row (L - 1);
         Some (m\<lparr>heap := (heap m)(a \<mapsto> blk1), m_len := ns, m_dirty := True\<rparr>)
       }
     }"

definition buffer_split_line_mem :: "Mem \<Rightarrow> int \<Rightarrow> int \<Rightarrow> Mem option" where
  "buffer_split_line_mem m row col =
     do {
       L \<leftarrow> aget (m_len m) row;
       p \<leftarrow> aget (m_lines m) row;
       (a, blk) \<leftarrow> deref m p;
       if clamp_col col L < 0 \<or> int (length blk) < clamp_col col L then None
       else do {
         m1 \<leftarrow> buffer_insert_line_mem m (row + 1) (drop (nat (clamp_col col L)) blk)
                 (L - clamp_col col L);
         p1 \<leftarrow> aget (m_lines m1) row;
         (a1, blk1) \<leftarrow> deref m1 p1;
         blk2 \<leftarrow> aset blk1 (clamp_col col L) NUL;
         ns \<leftarrow> aset (m_len m1) row (clamp_col col L);
         Some (m1\<lparr>heap := (heap m1)(a1 \<mapsto> blk2), m_len := ns, m_dirty := True\<rparr>)
       }
     }"

definition buffer_join_with_prev_mem :: "Mem \<Rightarrow> int \<Rightarrow> Mem option" where
  "buffer_join_with_prev_mem m row =
     (if row \<le> 0 \<or> row \<ge> m_count m then Some m
      else do {
        Lp \<leftarrow> aget (m_len m) (row - 1);
        Lc \<leftarrow> aget (m_len m) row;
        p \<leftarrow> aget (m_lines m) (row - 1);
        (a, m1) \<leftarrow> realloc m p (Lp + Lc + 1);
        ls \<leftarrow> aset (m_lines m1) (row - 1) (Addr a);
        dst \<leftarrow> heap m1 a;
        q \<leftarrow> aget ls row;
        (b, src) \<leftarrow> deref m1 q;
        dst1 \<leftarrow> memcpy_list dst Lp src (Lc + 1);
        ns \<leftarrow> aset (m_len m1) (row - 1) (Lp + Lc);
        m2 \<leftarrow> free (m1\<lparr>heap := (heap m1)(a \<mapsto> dst1)\<rparr>) q;
        ls1 \<leftarrow> memmove_list ls row (row + 1) (m_count m - row - 1);
        ns1 \<leftarrow> memmove_list ns row (row + 1) (m_count m - row - 1);
        Some (m2\<lparr>m_lines := ls1, m_len := ns1, m_count := m_count m - 1, m_dirty := True\<rparr>)
      })"

text \<open>The bytes of the block in slot \<open>row\<close>.\<close>

definition row_block :: "Mem \<Rightarrow> int \<Rightarrow> byte list option" where
  "row_block m row = do { p \<leftarrow> aget (m_lines m) row; (a, blk) \<leftarrow> deref m p; Some blk }"


definition blk_holds :: "byte list \<Rightarrow> string \<Rightarrow> bool" where
  "blk_holds blk l \<longleftrightarrow>
     length l < length blk \<and> take (length l) blk = map Some l \<and> blk ! length l = Some NUL"

definition mem_rep :: "Mem \<Rightarrow> string list \<Rightarrow> bool" where
  "mem_rep m ls \<longleftrightarrow>
     ls \<noteq> [] \<and> m_count m = int (length ls) \<and> m_count m \<le> m_cap m \<and>
     length (m_lines m) = nat (m_cap m) \<and> length (m_len m) = nat (m_cap m) \<and>
     take (length ls) (m_len m) = map (\<lambda>l. Some (int (length l))) ls \<and>
     (\<exists>as. take (length ls) (m_lines m) = map (\<lambda>a. Some (Addr a)) as \<and> distinct as \<and>
        list_all2 (\<lambda>a l. \<exists>blk. heap m a = Some blk \<and> blk_holds blk l) as ls) \<and>
     (\<forall>a. brk m \<le> a \<longrightarrow> heap m a = None)"

lemma blk_holds_iff: "blk_holds blk l \<longleftrightarrow> (\<exists>rest. blk = map Some l @ Some NUL # rest)"
proof
  assume h: "blk_holds blk l"
  then have a: "length l < length blk" and b: "take (length l) blk = map Some l"
    and c: "blk ! length l = Some NUL"
    by (simp_all add: blk_holds_def)
  from id_take_nth_drop [OF a]
  have "blk = map Some l @ Some NUL # drop (Suc (length l)) blk" unfolding b c .
  then show "\<exists>rest. blk = map Some l @ Some NUL # rest" by blast
next
  assume "\<exists>rest. blk = map Some l @ Some NUL # rest"
  then show "blk_holds blk l" by (auto simp: blk_holds_def nth_append)
qed

text \<open>What \<open>mem_rep\<close> says about one row of the document.\<close>

lemma mem_rep_row:
  assumes rep: "mem_rep m ls" and r: "0 \<le> row" "row < int (length ls)"
  obtains a rest where "aget (m_lines m) row = Some (Addr a)"
    and "aget (m_len m) row = Some (int (length (ls ! nat row)))"
    and "heap m a = Some (map Some (ls ! nat row) @ Some NUL # rest)"
    and "a < brk m"
proof -
  from rep obtain as where as: "take (length ls) (m_lines m) = map (\<lambda>a. Some (Addr a)) as"
    and al: "list_all2 (\<lambda>a l. \<exists>blk. heap m a = Some blk \<and> blk_holds blk l) as ls"
    and ln: "take (length ls) (m_len m) = map (\<lambda>l. Some (int (length l))) ls"
    and sz: "length (m_lines m) = nat (m_cap m)" "length (m_len m) = nat (m_cap m)"
      "m_count m = int (length ls)" "m_count m \<le> m_cap m"
    and hb: "\<forall>a. brk m \<le> a \<longrightarrow> heap m a = None"
    by (auto simp: mem_rep_def)
  from r have i: "nat row < length ls" by simp
  from al have la: "length as = length ls" by (rule list_all2_lengthD)
  from i sz have b: "nat row < length (m_lines m)" "nat row < length (m_len m)" by simp_all
  have "m_lines m ! nat row = take (length ls) (m_lines m) ! nat row" using i by simp
  also have "\<dots> = Some (Addr (as ! nat row))" unfolding as using i la by simp
  finally have g1: "aget (m_lines m) row = Some (Addr (as ! nat row))"
    using r b by (simp add: aget_def)
  have "m_len m ! nat row = take (length ls) (m_len m) ! nat row" using i by simp
  also have "\<dots> = Some (int (length (ls ! nat row)))" unfolding ln using i by simp
  finally have g2: "aget (m_len m) row = Some (int (length (ls ! nat row)))"
    using r b by (simp add: aget_def)
  from al i la obtain blk where h: "heap m (as ! nat row) = Some blk"
    and bh: "blk_holds blk (ls ! nat row)"
    by (auto simp: list_all2_conv_all_nth)
  from bh obtain rest where "blk = map Some (ls ! nat row) @ Some NUL # rest"
    by (auto simp: blk_holds_iff)
  with h have g3: "heap m (as ! nat row) = Some (map Some (ls ! nat row) @ Some NUL # rest)"
    by simp
  from h hb have "as ! nat row < brk m" by (metis not_le option.distinct(1))
  with g1 g2 g3 show thesis by (rule that)
qed


lemma mem_rep_addrs:
  assumes "mem_rep m ls"
  shows "\<exists>as. take (length ls) (m_lines m) = map (\<lambda>a. Some (Addr a)) as
    \<and> distinct as \<and> length as = length ls
    \<and> (\<forall>j < length ls. \<exists>blk. heap m (as ! j) = Some blk \<and> blk_holds blk (ls ! j))
    \<and> (\<forall>j < length ls. as ! j < brk m)"
proof -
  from assms obtain as where as: "take (length ls) (m_lines m) = map (\<lambda>a. Some (Addr a)) as"
    and d: "distinct as"
    and al: "list_all2 (\<lambda>a l. \<exists>blk. heap m a = Some blk \<and> blk_holds blk l) as ls"
    and hb: "\<forall>a. brk m \<le> a \<longrightarrow> heap m a = None"
    by (auto simp: mem_rep_def)
  from al have la: "length as = length ls" by (rule list_all2_lengthD)
  have h: "\<forall>j < length ls. \<exists>blk. heap m (as ! j) = Some blk \<and> blk_holds blk (ls ! j)"
    using al la by (auto simp: list_all2_conv_all_nth)
  have lt: "\<forall>j < length ls. as ! j < brk m"
  proof (intro allI impI)
    fix j assume "j < length ls"
    with h obtain blk where "heap m (as ! j) = Some blk" by blast
    with hb show "as ! j < brk m" by (metis not_le option.distinct(1))
  qed
  from as d la h lt show ?thesis by blast
qed

text \<open>A row gets new content, in its block or in a fresh one.\<close>

lemma mem_rep_update_row:
  assumes rep: "mem_rep m ls" and i: "i < length ls"
    and old: "m_lines m ! i = Some (Addr a)"
    and a': "a' = a \<or> brk m \<le> a'"
    and blk: "blk_holds blk' l'"
    and hp: "heap m' = (heap m)(a := None, a' \<mapsto> blk')"
    and bk: "a' < brk m'" "brk m \<le> brk m'"
    and ml: "m_lines m' = (m_lines m)[i := Some (Addr a')]"
    and mn: "m_len m' = (m_len m)[i := Some (int (length l'))]"
    and mc: "m_count m' = m_count m" "m_cap m' = m_cap m"
  shows "mem_rep m' (ls[i := l'])"
proof -
  from mem_rep_addrs [OF rep] obtain as
    where as: "take (length ls) (m_lines m) = map (\<lambda>a. Some (Addr a)) as"
    and d: "distinct as" and la: "length as = length ls"
    and h: "\<And>j. j < length ls \<Longrightarrow> \<exists>blk. heap m (as ! j) = Some blk \<and> blk_holds blk (ls ! j)"
    and lt: "\<And>j. j < length ls \<Longrightarrow> as ! j < brk m"
    by blast
  from rep have sz: "ls \<noteq> []" "m_count m = int (length ls)" "m_count m \<le> m_cap m"
    "length (m_lines m) = nat (m_cap m)" "length (m_len m) = nat (m_cap m)"
    and ln: "take (length ls) (m_len m) = map (\<lambda>l. Some (int (length l))) ls"
    and hb: "\<forall>a. brk m \<le> a \<longrightarrow> heap m a = None"
    by (auto simp: mem_rep_def)
  have "take (length ls) (m_lines m) ! i = Some (Addr (as ! i))" unfolding as using i la by simp
  with i old have ai: "as ! i = a" by simp
  have d': "distinct (as[i := a'])"
  proof (cases "a' = a")
    case True
    with ai have "as[i := a'] = as" by (metis list_update_id)
    with d show ?thesis by simp
  next
    case False
    with a' have f: "brk m \<le> a'" by simp
    have "a' \<notin> set as"
    proof
      assume "a' \<in> set as"
      then obtain j where "j < length as" "as ! j = a'" by (auto simp: in_set_conv_nth)
      with lt [of j] la f show False by simp
    qed
    with d show ?thesis by (simp add: distinct_list_update)
  qed
  have al': "list_all2 (\<lambda>a l. \<exists>blk. heap m' a = Some blk \<and> blk_holds blk l) (as[i := a']) (ls[i := l'])"
  proof (rule list_all2_all_nthI)
    show "length (as[i := a']) = length (ls[i := l'])" using la by simp
  next
    fix j assume "j < length (as[i := a'])"
    then have j: "j < length ls" using la by simp
    show "\<exists>blk. heap m' (as[i := a'] ! j) = Some blk \<and> blk_holds blk (ls[i := l'] ! j)"
    proof (cases "j = i")
      case True
      with i la blk show ?thesis by (simp add: hp)
    next
      case False
      with d i j la have "as ! j \<noteq> as ! i" by (simp add: nth_eq_iff_index_eq)
      with ai have n1: "as ! j \<noteq> a" by simp
      have n2: "as ! j \<noteq> a'" using a' n1 lt [OF j] by auto
      from h [OF j] False n1 n2 show ?thesis by (simp add: hp)
    qed
  qed
  have hb': "\<forall>x. brk m' \<le> x \<longrightarrow> heap m' x = None"
    using hb bk by (auto simp: hp)
  have t1: "take (length ls) (m_lines m') = map (\<lambda>a. Some (Addr a)) (as[i := a'])"
    unfolding ml take_update_swap as by (simp add: map_update)
  have t2: "take (length ls) (m_len m') = map (\<lambda>l. Some (int (length l))) (ls[i := l'])"
    unfolding mn take_update_swap ln by (simp add: map_update)
  show ?thesis
    unfolding mem_rep_def
    using sz t1 t2 d' al' hb' by (auto simp: ml mn mc)
qed


lemma clamp_col_nat:
  "0 \<le> clamp_col col (int n)" "clamp_col col (int n) \<le> int n"
  "nat (clamp_col col (int n)) = min (nat col) n"
  by (auto simp: clamp_col_def Let_def)

lemma realloc_live:
  assumes "heap m a = Some blk" and "0 < n"
  shows "realloc m (Addr a) n =
     Some (brk m, m\<lparr>heap := (heap m)(a := None,
                        brk m \<mapsto> take (nat n) blk @ replicate (nat n - length blk) None),
                     brk := Suc (brk m)\<rparr>)"
  using assms by (simp add: realloc_def)

lemma grown_block:
  "\<exists>x. take (Suc (Suc (length l))) (map Some l @ Some NUL # rest)
         @ replicate (Suc (Suc (length l)) - length (map Some l @ Some NUL # rest)) None
       = map Some l @ [Some NUL, x]"
  by (cases rest) simp_all

lemma insert_block:
  assumes k: "k \<le> length l"
  shows "memmove_list (map Some l @ [Some NUL, x]) (int k + 1) (int k) (int (length l) - int k + 1)
       = Some (map Some (take k l) @ (map Some l @ [Some NUL, x]) ! k # map Some (drop k l) @ [Some NUL])"
proof -
  have a: "nat (int k + 1) = Suc k" "nat (int (length l) - int k + 1) = Suc (length l - k)"
    "nat (int k + 1 + (int (length l) - int k + 1)) = Suc (Suc (length l))"
    using k by simp_all
  have "k < length (map Some l @ [Some NUL, x])" using k by simp
  then have "take (Suc k) (map Some l @ [Some NUL, x]) =
      take k (map Some l @ [Some NUL, x]) @ [(map Some l @ [Some NUL, x]) ! k]"
    by (rule take_Suc_conv_app_nth)
  also have "take k (map Some l @ [Some NUL, x]) = map Some (take k l)"
    using k by (simp add: take_map)
  finally have b: "take (Suc k) (map Some l @ [Some NUL, x]) =
      map Some (take k l) @ [(map Some l @ [Some NUL, x]) ! k]" .
  have c: "take (Suc (length l - k)) (drop k (map Some l @ [Some NUL, x])) = map Some (drop k l) @ [Some NUL]"
    using k by (simp add: drop_map)
  have d: "drop (Suc (Suc (length l))) (map Some l @ [Some NUL, x]) = []" by simp
  have cond: "\<not> (int (length l) - int k + 1 < 0 \<or> int k + 1 < 0 \<or> int k < 0
      \<or> int (length (map Some l @ [Some NUL, x])) < int k + 1 + (int (length l) - int k + 1)
      \<or> int (length (map Some l @ [Some NUL, x])) < int k + (int (length l) - int k + 1))"
    using k by simp
  show ?thesis
    unfolding memmove_list_def if_not_P [OF cond] a nat_int b c d by simp
qed

lemma aset_mid: "length xs = k \<Longrightarrow> aset (xs @ y # ys) (int k) c = Some (xs @ Some c # ys)"
  by (auto simp: aset_def)

lemma buffer_insert_char_mem_rep:
  assumes rep: "mem_rep m ls" and r: "0 \<le> row" "row < int (length ls)"
  shows "\<exists>m'. buffer_insert_char_mem m row col c = Some m'
     \<and> mem_rep m' (ls[nat row := take (nat col) (ls ! nat row) @ c # drop (nat col) (ls ! nat row)])
     \<and> m_dirty m' \<and> m_cap m' = m_cap m"
proof -
  let ?l = "ls ! nat row"
  let ?k = "clamp_col col (int (length ?l))"
  from rep r obtain a rest where g1: "aget (m_lines m) row = Some (Addr a)"
    and g2: "aget (m_len m) row = Some (int (length ?l))"
    and g3: "heap m a = Some (map Some ?l @ Some NUL # rest)" and g4: "a < brk m"
    by (rule mem_rep_row)
  from rep have sz: "m_count m = int (length ls)" "m_count m \<le> m_cap m"
    "length (m_lines m) = nat (m_cap m)" "length (m_len m) = nat (m_cap m)"
    by (auto simp: mem_rep_def)
  with r have rb: "nat row < length (m_lines m)" "nat row < length (m_len m)" by simp_all
  obtain x where B: "take (Suc (Suc (length ?l))) (map Some ?l @ Some NUL # rest)
         @ replicate (Suc (Suc (length ?l)) - length (map Some ?l @ Some NUL # rest)) None
       = map Some ?l @ [Some NUL, x]"
    using grown_block by blast
  define k where "k = nat ?k"
  have k3: "k = min (nat col) (length ?l)" by (simp add: k_def clamp_col_nat(3))
  then have k1: "k \<le> length ?l" by simp
  have k2: "?k = int k" using clamp_col_nat(1) [of col "length ?l"] by (simp add: k_def)
  define l' where "l' = take k ?l @ c # drop k ?l"
  have l'': "take (nat col) ?l @ c # drop (nat col) ?l = l'"
    unfolding l'_def k3 by (simp add: min_def)
  define B0 where "B0 = map Some ?l @ [Some NUL, x]"
  define B1 where "B1 = map Some (take k ?l) @ B0 ! k # map Some (drop k ?l) @ [Some NUL]"
  define B2 where "B2 = map Some l' @ [Some NUL]"
  define m1 where "m1 = m\<lparr>heap := (heap m)(a := None, brk m \<mapsto> B0), brk := Suc (brk m)\<rparr>"
  define LS where "LS = (m_lines m)[nat row := Some (Addr (brk m))]"
  define NS where "NS = (m_len m)[nat row := Some (int (length ?l) + 1)]"
  define m' where "m' = m1\<lparr>heap := (heap m1)(brk m \<mapsto> B2), m_lines := LS, m_len := NS,
      m_dirty := True\<rparr>"
  have e1: "realloc m (Addr a) (int (length ?l) + 2) = Some (brk m, m1)"
  proof -
    have n2: "nat (int (length ?l) + 2) = Suc (Suc (length ?l))" by simp
    have "0 < int (length ?l) + 2" by simp
    from realloc_live [OF g3 this, unfolded n2 B] show ?thesis by (simp add: m1_def B0_def)
  qed
  have e2: "aset (m_lines m1) row (Addr (brk m)) = Some LS"
    using r rb by (simp add: aset_def m1_def LS_def)
  have e3: "heap m1 (brk m) = Some B0" by (simp add: m1_def)
  have e4: "memmove_list B0 (int k + 1) (int k) (int (length ?l) - int k + 1) = Some B1"
    unfolding B0_def B1_def by (rule insert_block [OF k1])
  have e5: "aset B1 (int k) c = Some B2"
  proof -
    have "length (map Some (take k ?l)) = k" using k1 by simp
    from aset_mid [OF this] show ?thesis by (simp add: B1_def B2_def l'_def)
  qed
  have e6: "aset (m_len m1) row (int (length ?l) + 1) = Some NS"
    using r rb by (simp add: aset_def m1_def NS_def)
  have run: "buffer_insert_char_mem m row col c = Some m'"
    by (simp only: buffer_insert_char_mem_def g1 g2 k2 e1 e2 e3 e4 e5 e6 Option.bind.simps
        prod.case m'_def)
  have bh: "blk_holds B2 l'" by (simp add: blk_holds_iff B2_def)
  have len': "int (length ?l) + 1 = int (length l')" by (simp add: l'_def k1)
  from g1 r rb have old: "m_lines m ! nat row = Some (Addr a)"
    by (simp add: aget_def split: if_splits)
  have "mem_rep m' (ls[nat row := l'])"
    using rep _ old _ bh
  proof (rule mem_rep_update_row)
    show "nat row < length ls" using r by simp
    show "brk m = a \<or> brk m \<le> brk m" by simp
    show "heap m' = (heap m)(a := None, brk m \<mapsto> B2)" by (simp add: m'_def m1_def)
    show "brk m < brk m'" "brk m \<le> brk m'" by (simp_all add: m'_def m1_def)
    show "m_lines m' = (m_lines m)[nat row := Some (Addr (brk m))]" by (simp add: m'_def LS_def)
    show "m_len m' = (m_len m)[nat row := Some (int (length l'))]"
      by (simp add: m'_def NS_def len')
    show "m_count m' = m_count m" "m_cap m' = m_cap m" by (simp_all add: m'_def m1_def)
  qed
  with run show ?thesis unfolding l'' by (auto simp: m'_def m1_def)
qed


lemma delete_block:
  assumes k: "0 < k" "k \<le> length l"
  shows "memmove_list (map Some l @ Some NUL # rest) (int k - 1) (int k) (int (length l) - int k + 1)
       = Some (map Some (take (k - 1) l @ drop k l) @ Some NUL # Some NUL # rest)"
proof -
  have a: "nat (int k - 1) = k - 1" "nat (int (length l) - int k + 1) = Suc (length l - k)"
    "nat (int k - 1 + (int (length l) - int k + 1)) = length l"
    using k by simp_all
  have b: "take (k - 1) (map Some l @ Some NUL # rest) = map Some (take (k - 1) l)"
    using k by (simp add: take_map)
  have c: "take (Suc (length l - k)) (drop k (map Some l @ Some NUL # rest)) = map Some (drop k l) @ [Some NUL]"
    using k by (simp add: drop_map)
  have d: "drop (length l) (map Some l @ Some NUL # rest) = Some NUL # rest" by simp
  have cond: "\<not> (int (length l) - int k + 1 < 0 \<or> int k - 1 < 0 \<or> int k < 0
      \<or> int (length (map Some l @ Some NUL # rest)) < int k - 1 + (int (length l) - int k + 1)
      \<or> int (length (map Some l @ Some NUL # rest)) < int k + (int (length l) - int k + 1))"
    using k by simp
  show ?thesis
    unfolding memmove_list_def if_not_P [OF cond] a nat_int b c d by simp
qed

lemma buffer_delete_char_mem_noop:
  assumes rep: "mem_rep m ls" and r: "0 \<le> row" "row < int (length ls)"
    and col: "col \<le> 0 \<or> col > int (length (ls ! nat row))"
  shows "buffer_delete_char_mem m row col = Some m"
proof -
  from rep r obtain a rest where g2: "aget (m_len m) row = Some (int (length (ls ! nat row)))"
    by (rule mem_rep_row)
  from col show ?thesis
    by (simp only: buffer_delete_char_mem_def g2 Option.bind.simps if_True)
qed

lemma buffer_delete_char_mem_rep:
  assumes rep: "mem_rep m ls" and r: "0 \<le> row" "row < int (length ls)"
    and col: "0 < col" "col \<le> int (length (ls ! nat row))"
  shows "\<exists>m'. buffer_delete_char_mem m row col = Some m'
     \<and> mem_rep m' (ls[nat row := take (nat col - 1) (ls ! nat row) @ drop (nat col) (ls ! nat row)])
     \<and> m_dirty m' \<and> m_cap m' = m_cap m"
proof -
  let ?l = "ls ! nat row"
  from rep r obtain a rest where g1: "aget (m_lines m) row = Some (Addr a)"
    and g2: "aget (m_len m) row = Some (int (length ?l))"
    and g3: "heap m a = Some (map Some ?l @ Some NUL # rest)" and g4: "a < brk m"
    by (rule mem_rep_row)
  from rep have sz: "m_count m = int (length ls)" "m_count m \<le> m_cap m"
    "length (m_lines m) = nat (m_cap m)" "length (m_len m) = nat (m_cap m)"
    by (auto simp: mem_rep_def)
  with r have rb: "nat row < length (m_lines m)" "nat row < length (m_len m)" by simp_all
  define k where "k = nat col"
  have k: "0 < k" "k \<le> length ?l" "col = int k" using col by (simp_all add: k_def)
  define l' where "l' = take (k - 1) ?l @ drop k ?l"
  define B0 where "B0 = map Some ?l @ Some NUL # rest"
  define B1 where "B1 = map Some l' @ Some NUL # Some NUL # rest"
  define NS where "NS = (m_len m)[nat row := Some (int (length ?l) - 1)]"
  define m' where "m' = m\<lparr>heap := (heap m)(a \<mapsto> B1), m_len := NS, m_dirty := True\<rparr>"
  have c0: "\<not> (int k \<le> 0 \<or> int k > int (length ?l))" using k by simp
  have e1: "deref m (Addr a) = Some (a, B0)" by (simp add: deref_def g3 B0_def)
  have e2: "memmove_list B0 (int k - 1) (int k) (int (length ?l) - int k + 1) = Some B1"
    unfolding B0_def B1_def l'_def by (rule delete_block [OF k(1,2)])
  have e3: "aset (m_len m) row (int (length ?l) - 1) = Some NS"
    using r rb by (simp add: aset_def NS_def)
  have run: "buffer_delete_char_mem m row col = Some m'"
    by (simp only: buffer_delete_char_mem_def g1 g2 k(3) c0 e1 e2 e3 Option.bind.simps
        prod.case if_False m'_def)
  have bh: "blk_holds B1 l'" by (simp add: blk_holds_iff B1_def)
  have len': "int (length ?l) - 1 = int (length l')" using k by (simp add: l'_def)
  from g1 r rb have old: "m_lines m ! nat row = Some (Addr a)"
    by (simp add: aget_def split: if_splits)
  have "mem_rep m' (ls[nat row := l'])"
    using rep _ old _ bh
  proof (rule mem_rep_update_row)
    show "nat row < length ls" using r by simp
    show "a = a \<or> brk m \<le> a" by simp
    show "heap m' = (heap m)(a := None, a \<mapsto> B1)" by (simp add: m'_def)
    show "a < brk m'" "brk m \<le> brk m'" using g4 by (simp_all add: m'_def)
    have "(m_lines m)[nat row := Some (Addr a)] = m_lines m"
      using old by (metis list_update_id)
    then show "m_lines m' = (m_lines m)[nat row := Some (Addr a)]" by (simp add: m'_def)
    show "m_len m' = (m_len m)[nat row := Some (int (length l'))]"
      by (simp add: m'_def NS_def len')
    show "m_count m' = m_count m" "m_cap m' = m_cap m" by (simp_all add: m'_def)
  qed
  with run show ?thesis by (auto simp: m'_def l'_def k_def)
qed


text \<open>A row is inserted, in a fresh block.\<close>

lemma mem_rep_insert_row:
  assumes rep: "mem_rep m ls" and at: "at \<le> length ls"
    and hp: "heap m' = (heap m)(brk m \<mapsto> blk')" and bk: "brk m' = Suc (brk m)"
    and blk: "blk_holds blk' l'"
    and cap: "int (length ls) + 1 \<le> m_cap m'" "length (m_lines m') = nat (m_cap m')"
      "length (m_len m') = nat (m_cap m')"
    and ml: "take (Suc (length ls)) (m_lines m') =
        take at (take (length ls) (m_lines m)) @ Some (Addr (brk m)) # drop at (take (length ls) (m_lines m))"
    and mn: "take (Suc (length ls)) (m_len m') =
        take at (take (length ls) (m_len m)) @ Some (int (length l')) # drop at (take (length ls) (m_len m))"
    and mc: "m_count m' = m_count m + 1"
  shows "mem_rep m' (take at ls @ l' # drop at ls)"
proof -
  from mem_rep_addrs [OF rep] obtain as
    where as: "take (length ls) (m_lines m) = map (\<lambda>a. Some (Addr a)) as"
    and d: "distinct as" and la: "length as = length ls"
    and h: "\<And>j. j < length ls \<Longrightarrow> \<exists>blk. heap m (as ! j) = Some blk \<and> blk_holds blk (ls ! j)"
    and lt: "\<And>j. j < length ls \<Longrightarrow> as ! j < brk m"
    by blast
  from rep have sz: "ls \<noteq> []" "m_count m = int (length ls)"
    and ln: "take (length ls) (m_len m) = map (\<lambda>l. Some (int (length l))) ls"
    and hb: "\<forall>a. brk m \<le> a \<longrightarrow> heap m a = None"
    by (auto simp: mem_rep_def)
  let ?as = "take at as @ brk m # drop at as"
  let ?ls = "take at ls @ l' # drop at ls"
  have len: "length ?ls = Suc (length ls)" using at by simp
  have fresh: "brk m \<notin> set as"
  proof
    assume "brk m \<in> set as"
    then obtain j where "j < length as" "as ! j = brk m" by (auto simp: in_set_conv_nth)
    with lt [of j] la show False by simp
  qed
  have d': "distinct ?as"
    using d fresh set_take_disj_set_drop_if_distinct [OF d, of at at]
    by (auto dest: in_set_takeD in_set_dropD)
  have al: "list_all2 (\<lambda>a l. \<exists>blk. heap m a = Some blk \<and> blk_holds blk l) as ls"
    using la h by (auto simp: list_all2_conv_all_nth)
  have al0: "list_all2 (\<lambda>a l. \<exists>blk. heap m' a = Some blk \<and> blk_holds blk l) as ls"
    using al
  proof (rule list.rel_mono_strong)
    fix a l assume "a \<in> set as" "\<exists>blk. heap m a = Some blk \<and> blk_holds blk l"
    with fresh show "\<exists>blk. heap m' a = Some blk \<and> blk_holds blk l" by (auto simp: hp)
  qed
  have al': "list_all2 (\<lambda>a l. \<exists>blk. heap m' a = Some blk \<and> blk_holds blk l) ?as ?ls"
  proof (intro list_all2_appendI list.rel_intros)
    show "list_all2 (\<lambda>a l. \<exists>blk. heap m' a = Some blk \<and> blk_holds blk l) (take at as) (take at ls)"
      using al0 by (rule list_all2_takeI)
    show "list_all2 (\<lambda>a l. \<exists>blk. heap m' a = Some blk \<and> blk_holds blk l) (drop at as) (drop at ls)"
      using al0 by (rule list_all2_dropI)
    show "\<exists>blk. heap m' (brk m) = Some blk \<and> blk_holds blk l'" using blk by (simp add: hp)
  qed
  have t1: "take (length ?ls) (m_lines m') = map (\<lambda>a. Some (Addr a)) ?as"
    unfolding len ml as by (simp add: take_map drop_map)
  have t2: "take (length ?ls) (m_len m') = map (\<lambda>l. Some (int (length l))) ?ls"
    unfolding len mn ln by (simp add: take_map drop_map)
  have hb': "\<forall>x. brk m' \<le> x \<longrightarrow> heap m' x = None" using hb by (auto simp: hp bk)
  show ?thesis
    unfolding mem_rep_def
  proof (intro conjI)
    show "?ls \<noteq> []" by simp
    show "m_count m' = int (length ?ls)" unfolding len using sz mc by simp
    show "m_count m' \<le> m_cap m'" using sz mc cap by simp
    show "length (m_lines m') = nat (m_cap m')" by (rule cap)
    show "length (m_len m') = nat (m_cap m')" by (rule cap)
    show "take (length ?ls) (m_len m') = map (\<lambda>l. Some (int (length l))) ?ls" by (rule t2)
    show "\<exists>as. take (length ?ls) (m_lines m') = map (\<lambda>a. Some (Addr a)) as \<and> distinct as \<and>
        list_all2 (\<lambda>a l. \<exists>blk. heap m' a = Some blk \<and> blk_holds blk l) as ?ls"
      using t1 d' al' by blast
    show "\<forall>a. brk m' \<le> a \<longrightarrow> heap m' a = None" by (rule hb')
  qed
qed


lemma ensure_capacity_mem_some:
  assumes "0 < m_cap m" and "length (m_lines m) = nat (m_cap m)"
    and "length (m_len m) = nat (m_cap m)"
  shows "\<exists>c'. buffer_ensure_capacity_mem m need =
       Some (m\<lparr>m_cap := c',
               m_lines := m_lines m @ replicate (nat c' - length (m_lines m)) None,
               m_len := m_len m @ replicate (nat c' - length (m_len m)) None\<rparr>)
     \<and> need \<le> c' \<and> m_cap m \<le> c'"
proof (cases "need \<le> m_cap m")
  case True
  with assms(2,3) show ?thesis
    by (intro exI [of _ "m_cap m"]) (simp add: buffer_ensure_capacity_mem_def)
next
  case False
  from grow_cap_some [OF assms(1), of need] obtain c' where
    "grow_cap (m_cap m) need = Some c'" "need \<le> c'" "m_cap m \<le> c'" by blast
  with False show ?thesis by (auto simp: buffer_ensure_capacity_mem_def)
qed

lemma take_prefix: "length xs = k \<Longrightarrow> zs = xs @ ys \<Longrightarrow> take k zs = xs"
  by simp

text \<open>The two \<open>memmove\<close> calls that open a slot, or close one, in an array of which
  the first \<open>n\<close> slots are used.\<close>

lemma shift_ins:
  assumes "at \<le> n" "n < length X"
  shows "\<exists>Y. memmove_list X (int at + 1) (int at) (int n - int at) = Some Y
     \<and> length Y = length X
     \<and> take (Suc n) (Y[at := v]) = take at (take n X) @ v # drop at (take n X)"
proof -
  define Y where "Y = take (Suc at) X @ take (n - at) (drop at X) @ drop (Suc n) X"
  have a: "nat (int at + 1) = Suc at" "nat (int n - int at) = n - at"
    "nat (int at + 1 + (int n - int at)) = Suc n"
    using assms by simp_all
  have cond: "\<not> (int n - int at < 0 \<or> int at + 1 < 0 \<or> int at < 0
      \<or> int (length X) < int at + 1 + (int n - int at)
      \<or> int (length X) < int at + (int n - int at))"
    using assms by simp
  have mv: "memmove_list X (int at + 1) (int at) (int n - int at) = Some Y"
    unfolding memmove_list_def if_not_P [OF cond] a nat_int Y_def ..
  have ln: "length Y = length X" using assms by (simp add: Y_def)
  have "Y[at := v] = (take (Suc at) X)[at := v] @ take (n - at) (drop at X) @ drop (Suc n) X"
    unfolding Y_def using assms by (simp add: list_update_append1)
  also have "(take (Suc at) X)[at := v] = take at X @ [v]"
    using assms by (simp add: take_Suc_conv_app_nth list_update_append)
  finally have "Y[at := v] = (take at X @ v # take (n - at) (drop at X)) @ drop (Suc n) X"
    by simp
  moreover have "length (take at X @ v # take (n - at) (drop at X)) = Suc n"
    using assms by simp
  ultimately have "take (Suc n) (Y[at := v]) = take at X @ v # take (n - at) (drop at X)"
    by (rule take_prefix [rotated])
  also have "take at X = take at (take n X)" using assms by (simp add: min_def)
  also have "take (n - at) (drop at X) = drop at (take n X)" by (simp add: drop_take)
  finally show ?thesis using mv ln by blast
qed

lemma shift_del:
  assumes "row < n" "n \<le> length X"
  shows "\<exists>Y. memmove_list X (int row) (int row + 1) (int n - int row - 1) = Some Y
     \<and> length Y = length X
     \<and> take (n - 1) Y = take row (take n X) @ drop (Suc row) (take n X)"
proof -
  define Y where "Y = take row X @ take (n - row - 1) (drop (Suc row) X) @ drop (n - 1) X"
  have a: "nat (int row + 1) = Suc row" "nat (int n - int row - 1) = n - row - 1"
    "nat (int row + (int n - int row - 1)) = n - 1"
    using assms by simp_all
  have cond: "\<not> (int n - int row - 1 < 0 \<or> int row < 0 \<or> int row + 1 < 0
      \<or> int (length X) < int row + (int n - int row - 1)
      \<or> int (length X) < int row + 1 + (int n - int row - 1))"
    using assms by simp
  have mv: "memmove_list X (int row) (int row + 1) (int n - int row - 1) = Some Y"
    unfolding memmove_list_def if_not_P [OF cond] a nat_int Y_def ..
  have ln: "length Y = length X" using assms by (simp add: Y_def)
  have "Y = (take row X @ take (n - row - 1) (drop (Suc row) X)) @ drop (n - 1) X"
    by (simp add: Y_def)
  moreover have "length (take row X @ take (n - row - 1) (drop (Suc row) X)) = n - 1"
    using assms by simp
  ultimately have "take (n - 1) Y = take row X @ take (n - row - 1) (drop (Suc row) X)"
    by (rule take_prefix [rotated])
  also have "take row X = take row (take n X)" using assms by (simp add: min_def)
  also have "take (n - row - 1) (drop (Suc row) X) = drop (Suc row) (take n X)"
    by (simp add: drop_take)
  finally show ?thesis using mv ln by blast
qed


lemma buffer_insert_line_mem_rep:
  assumes rep: "mem_rep m ls" and at: "0 \<le> at" "at \<le> int (length ls)"
    and src: "take (nat n) src = map Some l0" "length l0 = nat n" "0 \<le> n"
  shows "\<exists>m'. buffer_insert_line_mem m at src n = Some m'
     \<and> mem_rep m' (take (nat at) ls @ l0 # drop (nat at) ls)
     \<and> m_dirty m' = m_dirty m \<and> m_cap m \<le> m_cap m'"
proof -
  from rep have sz: "ls \<noteq> []" "m_count m = int (length ls)" "m_count m \<le> m_cap m"
    "length (m_lines m) = nat (m_cap m)" "length (m_len m) = nat (m_cap m)"
    by (auto simp: mem_rep_def)
  then have cp: "0 < m_cap m" by (cases ls) auto
  define n0 where "n0 = length ls"
  define at' where "at' = nat at"
  define n' where "n' = nat n"
  have ia: "at = int at'" "at' \<le> n0" using at by (simp_all add: at'_def n0_def)
  have inn: "n = int n'" "length l0 = n'" using src by (simp_all add: n'_def)
  have cnt: "m_count m = int n0" using sz by (simp add: n0_def)
  from ensure_capacity_mem_some [OF cp sz(4,5), of "m_count m + 1"] obtain c' where
    E: "buffer_ensure_capacity_mem m (m_count m + 1) =
       Some (m\<lparr>m_cap := c',
               m_lines := m_lines m @ replicate (nat c' - length (m_lines m)) None,
               m_len := m_len m @ replicate (nat c' - length (m_len m)) None\<rparr>)"
    and c': "m_count m + 1 \<le> c'" "m_cap m \<le> c'"
    by blast
  define X where "X = m_lines m @ replicate (nat c' - length (m_lines m)) None"
  define Z where "Z = m_len m @ replicate (nat c' - length (m_len m)) None"
  define m1 where "m1 = m\<lparr>m_cap := c', m_lines := X, m_len := Z\<rparr>"
  have lX: "length X = nat c'" "length Z = nat c'" using sz c' by (simp_all add: X_def Z_def)
  then have nX: "n0 < length X" "n0 < length Z" using c' cnt by simp_all
  have tX: "take n0 X = take n0 (m_lines m)" "take n0 Z = take n0 (m_len m)"
    using sz cnt by (simp_all add: X_def Z_def)
  obtain Y where Y: "memmove_list X (int at' + 1) (int at') (int n0 - int at') = Some Y"
    "length Y = length X"
    "take (Suc n0) (Y[at' := Some (Addr (brk m))]) =
       take at' (take n0 X) @ Some (Addr (brk m)) # drop at' (take n0 X)"
    using shift_ins [OF ia(2) nX(1)] by blast
  obtain W where W: "memmove_list Z (int at' + 1) (int at') (int n0 - int at') = Some W"
    "length W = length Z"
    "take (Suc n0) (W[at' := Some (int n')]) =
       take at' (take n0 Z) @ Some (int n') # drop at' (take n0 Z)"
    using shift_ins [OF ia(2) nX(2)] by blast
  define B where "B = map Some l0 @ [Some NUL]"
  define m2 where "m2 = m1\<lparr>heap := (heap m1)(brk m1 \<mapsto> replicate (nat (int n' + 1)) None),
      brk := Suc (brk m1)\<rparr>"
  define m' where "m' = m2\<lparr>heap := (heap m2)(brk m1 \<mapsto> B), m_lines := Y[at' := Some (Addr (brk m1))],
      m_len := W[at' := Some (int n')], m_count := m_count m2 + 1\<rparr>"
  have b1: "brk m1 = brk m" by (simp add: m1_def)
  have e0: "\<not> (int at' < 0 \<or> int at' > m_count m)" using ia cnt by simp
  have e1: "buffer_ensure_capacity_mem m (m_count m + 1) = Some m1"
    unfolding E m1_def X_def Z_def ..
  have e2: "memmove_list (m_lines m1) (int at' + 1) (int at') (m_count m1 - int at') = Some Y"
    using Y(1) by (simp add: m1_def cnt)
  have e3: "memmove_list (m_len m1) (int at' + 1) (int at') (m_count m1 - int at') = Some W"
    using W(1) by (simp add: m1_def cnt)
  have e4: "malloc m1 (int n' + 1) = Some (brk m1, m2)" by (simp add: malloc_def m2_def)
  have e5: "aset Y (int at') (Addr (brk m1)) = Some (Y[at' := Some (Addr (brk m1))])"
    using ia nX Y(2) by (simp add: aset_def)
  have e6: "heap m2 (brk m1) = Some (replicate (nat (int n' + 1)) None)" by (simp add: m2_def)
  have e7: "memcpy_list (replicate (nat (int n' + 1)) None) 0 src (int n') = Some (map Some l0 @ [None])"
  proof -
    have "length (take (nat n) src) = length (map Some l0)" by (simp only: src(1))
    then have "min (length src) (nat n) = nat n" using src(2) by simp
    then have le: "n' \<le> length src" by (simp add: n'_def)
    have tk: "take n' src = map Some l0" using src(1) by (simp add: n'_def)
    have nn: "nat (int n' + 1) = Suc n'" by simp
    have cond: "\<not> (int n' < 0 \<or> (0::int) < 0 \<or> int (length (replicate (Suc n') (None :: char option))) < 0 + int n'
        \<or> int (length src) < int n')"
      using le by simp
    have z: "nat (0 + int n') = n'" by simp
    have dr: "drop n' (replicate (Suc n') (None :: char option)) = [None]"
      by (simp only: drop_replicate) simp
    show ?thesis
      unfolding nn memcpy_list_def if_not_P [OF cond] nat_int tk z dr by simp
  qed
  have e8: "aset (map Some l0 @ [None]) (int n') NUL = Some B"
  proof -
    have "length (map Some l0) = n'" using inn by simp
    from aset_mid [OF this] show ?thesis by (simp add: B_def)
  qed
  have e9: "aset W (int at') (int n') = Some (W[at' := Some (int n')])"
    using ia nX W(2) by (simp add: aset_def)
  have run: "buffer_insert_line_mem m at src n = Some m'"
    by (simp only: buffer_insert_line_mem_def ia(1) inn(1) e0 if_False e1 e2 e3 e4 e5 e6 e7 e8 e9
        Option.bind.simps prod.case m'_def)
  have bh: "blk_holds B l0" by (simp add: blk_holds_iff B_def)
  have "mem_rep m' (take at' ls @ l0 # drop at' ls)"
    using rep _ _ _ bh
  proof (rule mem_rep_insert_row)
    show "at' \<le> length ls" using ia by (simp add: n0_def)
    show "heap m' = (heap m)(brk m \<mapsto> B)" by (simp add: m'_def m2_def m1_def)
    show "brk m' = Suc (brk m)" by (simp add: m'_def m2_def m1_def)
    show "int (length ls) + 1 \<le> m_cap m'" using c' sz by (simp add: m'_def m2_def m1_def)
    show "length (m_lines m') = nat (m_cap m')" using Y(2) lX by (simp add: m'_def m2_def m1_def)
    show "length (m_len m') = nat (m_cap m')" using W(2) lX by (simp add: m'_def m2_def m1_def)
    show "take (Suc (length ls)) (m_lines m') =
        take at' (take (length ls) (m_lines m)) @ Some (Addr (brk m)) # drop at' (take (length ls) (m_lines m))"
    proof -
      have "m_lines m' = Y[at' := Some (Addr (brk m))]" by (simp add: m'_def m2_def m1_def)
      then show ?thesis unfolding n0_def [symmetric] using Y(3) [unfolded tX] by simp
    qed
    show "take (Suc (length ls)) (m_len m') =
        take at' (take (length ls) (m_len m)) @ Some (int (length l0)) # drop at' (take (length ls) (m_len m))"
    proof -
      have "m_len m' = W[at' := Some (int n')]" by (simp add: m'_def m2_def m1_def)
      then show ?thesis unfolding n0_def [symmetric] inn(2) using W(3) [unfolded tX] by simp
    qed
    show "m_count m' = m_count m + 1" by (simp add: m'_def m2_def m1_def)
  qed
  with run c' show ?thesis by (auto simp: m'_def m2_def m1_def at'_def)
qed


lemma buffer_insert_line_mem_noop:
  "at < 0 \<or> at > m_count m \<Longrightarrow> buffer_insert_line_mem m at src n = Some m"
  by (simp add: buffer_insert_line_mem_def)

lemma truncate_block:
  assumes "k \<le> length l"
  shows "\<exists>rest2. aset (map Some l @ Some NUL # rest1) (int k) NUL
       = Some (map Some (take k l) @ Some NUL # rest2)"
proof (cases "drop k l")
  case Nil
  with assms have kl: "length l = k" by simp
  then have "length (map Some l) = k" by simp
  then have "aset (map Some l @ Some NUL # rest1) (int k) NUL = Some (map Some l @ Some NUL # rest1)"
    by (rule aset_mid)
  moreover from kl have "take k l = l" by simp
  ultimately show ?thesis by simp
next
  case (Cons y ys)
  have "map Some (take k l @ drop k l) = map Some (take k l) @ Some y # map Some ys"
    unfolding Cons by simp
  then have ml: "map Some l = map Some (take k l) @ Some y # map Some ys"
    by (simp only: append_take_drop_id)
  have "length (map Some (take k l)) = k" using assms by simp
  then have "aset (map Some (take k l) @ Some y # (map Some ys @ Some NUL # rest1)) (int k) NUL
      = Some (map Some (take k l) @ Some NUL # (map Some ys @ Some NUL # rest1))"
    by (rule aset_mid)
  then have "aset (map Some l @ Some NUL # rest1) (int k) NUL
      = Some (map Some (take k l) @ Some NUL # (map Some ys @ Some NUL # rest1))"
    unfolding ml by simp
  then show ?thesis by blast
qed

lemma deref_live: "heap m a = Some blk \<Longrightarrow> deref m (Addr a) = Some (a, blk)"
  by (simp add: deref_def)

lemma split_lines:
  assumes "r < length ls"
  shows "(take (Suc r) ls @ y # drop (Suc r) ls)[r := x] = take r ls @ x # y # drop (Suc r) ls"
    and "(take (Suc r) ls @ y # drop (Suc r) ls) ! r = ls ! r"
  using assms by (simp_all add: take_Suc_conv_app_nth list_update_append nth_append)

lemma buffer_split_line_mem_rep:
  assumes rep: "mem_rep m ls" and r: "0 \<le> row" "row < int (length ls)"
  shows "\<exists>m'. buffer_split_line_mem m row col = Some m'
     \<and> mem_rep m' (take (nat row) ls @ take (nat col) (ls ! nat row) #
                   drop (nat col) (ls ! nat row) # drop (Suc (nat row)) ls)
     \<and> m_dirty m' \<and> m_cap m \<le> m_cap m'"
proof -
  let ?l = "ls ! nat row"
  let ?k = "clamp_col col (int (length ?l))"
  from rep r obtain a rest where g1: "aget (m_lines m) row = Some (Addr a)"
    and g2: "aget (m_len m) row = Some (int (length ?l))"
    and g3: "heap m a = Some (map Some ?l @ Some NUL # rest)"
    by (rule mem_rep_row)
  define k where "k = nat ?k"
  have k3: "k = min (nat col) (length ?l)" by (simp add: k_def clamp_col_nat(3))
  then have k1: "k \<le> length ?l" by simp
  have k2: "?k = int k" using clamp_col_nat(1) [of col "length ?l"] by (simp add: k_def)
  have tk: "take (nat col) ?l = take k ?l" "drop (nat col) ?l = drop k ?l"
    unfolding k3 by (simp_all add: min_def)
  define r' where "r' = nat row"
  have r': "r' < length ls" "row = int r'" "nat (row + 1) = Suc r'" using r by (simp_all add: r'_def)
  define B0 where "B0 = map Some ?l @ Some NUL # rest"
  define src where "src = drop k B0"
  define ls1 where "ls1 = take (Suc r') ls @ drop k ?l # drop (Suc r') ls"
  have s1: "take (nat (int (length ?l) - int k)) src = map Some (drop k ?l)"
    using k1 by (simp add: src_def B0_def drop_map nat_diff_distrib)
  have s2: "length (drop k ?l) = nat (int (length ?l) - int k)" using k1 by (simp add: nat_diff_distrib)
  have s3: "0 \<le> int (length ?l) - int k" using k1 by simp
  have a1: "0 \<le> row + 1" "row + 1 \<le> int (length ls)" using r by simp_all
  from buffer_insert_line_mem_rep [OF rep a1 s1 s2 s3] obtain m1 where
    i1: "buffer_insert_line_mem m (row + 1) src (int (length ?l) - int k) = Some m1"
    and rep1: "mem_rep m1 ls1" and d1: "m_dirty m1 = m_dirty m" and c1: "m_cap m \<le> m_cap m1"
    unfolding r'(3) ls1_def by blast
  have row1: "row < int (length ls1)" using r' by (simp add: ls1_def)
  have l1: "ls1 ! nat row = ?l" unfolding ls1_def r'_def [symmetric] using split_lines(2) [OF r'(1)]
    by (simp add: r'_def)
  from rep1 r(1) row1 obtain a1 rest1 where h1: "aget (m_lines m1) row = Some (Addr a1)"
    and h2: "aget (m_len m1) row = Some (int (length ?l))"
    and h3: "heap m1 a1 = Some (map Some ?l @ Some NUL # rest1)" and h4: "a1 < brk m1"
    unfolding l1 [symmetric] by (rule mem_rep_row)
  from rep1 have sz: "m_count m1 = int (length ls1)" "m_count m1 \<le> m_cap m1"
    "length (m_lines m1) = nat (m_cap m1)" "length (m_len m1) = nat (m_cap m1)"
    by (auto simp: mem_rep_def)
  with r row1 have rb: "nat row < length (m_lines m1)" "nat row < length (m_len m1)" by simp_all
  define B1 where "B1 = map Some ?l @ Some NUL # rest1"
  from truncate_block [OF k1] obtain rest2 where
    tb: "aset B1 (int k) NUL = Some (map Some (take k ?l) @ Some NUL # rest2)"
    unfolding B1_def by blast
  define B2 where "B2 = map Some (take k ?l) @ Some NUL # rest2"
  define NS where "NS = (m_len m1)[nat row := Some (int k)]"
  define m' where "m' = m1\<lparr>heap := (heap m1)(a1 \<mapsto> B2), m_len := NS, m_dirty := True\<rparr>"
  have c0: "\<not> (int k < 0 \<or> int (length B0) < int k)" using k1 by (simp add: B0_def)
  have e1: "deref m (Addr a) = Some (a, B0)" unfolding B0_def using g3 by (rule deref_live)
  have e2: "buffer_insert_line_mem m (row + 1) (drop (nat (int k)) B0) (int (length ?l) - int k) = Some m1"
    using i1 by (simp add: src_def)
  have e3: "deref m1 (Addr a1) = Some (a1, B1)" unfolding B1_def using h3 by (rule deref_live)
  have e4: "aset B1 (int k) NUL = Some B2" using tb by (simp add: B2_def)
  have e5: "aset (m_len m1) row (int k) = Some NS" using r rb by (simp add: aset_def NS_def)
  have run: "buffer_split_line_mem m row col = Some m'"
    by (simp only: buffer_split_line_mem_def g1 g2 k2 c0 e1 e2 h1 e3 e4 e5 Option.bind.simps
        prod.case if_False m'_def)
  have bh: "blk_holds B2 (take k ?l)" by (simp add: blk_holds_iff B2_def)
  from h1 r rb have old: "m_lines m1 ! nat row = Some (Addr a1)"
    by (simp add: aget_def split: if_splits)
  have "mem_rep m' (ls1[nat row := take k ?l])"
    using rep1 _ old _ bh
  proof (rule mem_rep_update_row)
    show "nat row < length ls1" using row1 r by simp
    show "a1 = a1 \<or> brk m1 \<le> a1" by simp
    show "heap m' = (heap m1)(a1 := None, a1 \<mapsto> B2)" by (simp add: m'_def)
    show "a1 < brk m'" "brk m1 \<le> brk m'" using h4 by (simp_all add: m'_def)
    have "(m_lines m1)[nat row := Some (Addr a1)] = m_lines m1"
      using old by (metis list_update_id)
    then show "m_lines m' = (m_lines m1)[nat row := Some (Addr a1)]" by (simp add: m'_def)
    show "m_len m' = (m_len m1)[nat row := Some (int (length (take k ?l)))]"
      using k1 by (simp add: m'_def NS_def min_def)
    show "m_count m' = m_count m1" "m_cap m' = m_cap m1" by (simp_all add: m'_def)
  qed
  then have "mem_rep m' (take r' ls @ take k ?l # drop k ?l # drop (Suc r') ls)"
    unfolding ls1_def r'_def [symmetric] split_lines(1) [OF r'(1)] .
  with run c1 show ?thesis unfolding tk r'_def by (auto simp: m'_def)
qed


text \<open>A row is removed and its block freed.\<close>

lemma mem_rep_remove_row:
  assumes rep: "mem_rep m ls" and r: "r < length ls" and two: "1 < length ls"
    and old: "m_lines m ! r = Some (Addr a)"
    and hp: "heap m' = (heap m)(a := None)" and bk: "brk m' = brk m"
    and cap: "m_cap m' = m_cap m" "length (m_lines m') = nat (m_cap m')"
      "length (m_len m') = nat (m_cap m')"
    and ml: "take (length ls - 1) (m_lines m') =
        take r (take (length ls) (m_lines m)) @ drop (Suc r) (take (length ls) (m_lines m))"
    and mn: "take (length ls - 1) (m_len m') =
        take r (take (length ls) (m_len m)) @ drop (Suc r) (take (length ls) (m_len m))"
    and mc: "m_count m' = m_count m - 1"
  shows "mem_rep m' (take r ls @ drop (Suc r) ls)"
proof -
  from mem_rep_addrs [OF rep] obtain as
    where as: "take (length ls) (m_lines m) = map (\<lambda>a. Some (Addr a)) as"
    and d: "distinct as" and la: "length as = length ls"
    and h: "\<And>j. j < length ls \<Longrightarrow> \<exists>blk. heap m (as ! j) = Some blk \<and> blk_holds blk (ls ! j)"
    by blast
  from rep have sz: "ls \<noteq> []" "m_count m = int (length ls)" "m_count m \<le> m_cap m"
    and ln: "take (length ls) (m_len m) = map (\<lambda>l. Some (int (length l))) ls"
    and hb: "\<forall>a. brk m \<le> a \<longrightarrow> heap m a = None"
    by (auto simp: mem_rep_def)
  let ?as = "take r as @ drop (Suc r) as"
  let ?ls = "take r ls @ drop (Suc r) ls"
  have len: "length ?ls = length ls - 1" using r by simp
  have "take (length ls) (m_lines m) ! r = Some (Addr (as ! r))" unfolding as using r la by simp
  with r old have ar: "as ! r = a" by simp
  have dd: "distinct ?as"
    using d set_take_disj_set_drop_if_distinct [OF d, of r "Suc r"]
    by (auto dest: in_set_takeD in_set_dropD)
  have nin: "a \<notin> set ?as"
  proof -
    have "as = take r as @ as ! r # drop (Suc r) as" using r la by (simp add: id_take_nth_drop)
    then have "distinct (take r as @ a # drop (Suc r) as)" using d ar by simp
    then show ?thesis by auto
  qed
  have al: "list_all2 (\<lambda>a l. \<exists>blk. heap m a = Some blk \<and> blk_holds blk l) as ls"
    using la h by (auto simp: list_all2_conv_all_nth)
  have al1: "list_all2 (\<lambda>a l. \<exists>blk. heap m a = Some blk \<and> blk_holds blk l) ?as ?ls"
    using al by (intro list_all2_appendI list_all2_takeI list_all2_dropI)
  have al': "list_all2 (\<lambda>a l. \<exists>blk. heap m' a = Some blk \<and> blk_holds blk l) ?as ?ls"
    using al1
  proof (rule list.rel_mono_strong)
    fix x l assume "x \<in> set ?as" "\<exists>blk. heap m x = Some blk \<and> blk_holds blk l"
    with nin show "\<exists>blk. heap m' x = Some blk \<and> blk_holds blk l" by (auto simp: hp)
  qed
  have t1: "take (length ?ls) (m_lines m') = map (\<lambda>a. Some (Addr a)) ?as"
    unfolding len ml as by (simp add: take_map drop_map)
  have t2: "take (length ?ls) (m_len m') = map (\<lambda>l. Some (int (length l))) ?ls"
    unfolding len mn ln by (simp add: take_map drop_map)
  have hb': "\<forall>x. brk m' \<le> x \<longrightarrow> heap m' x = None" using hb by (auto simp: hp bk)
  show ?thesis
    unfolding mem_rep_def
  proof (intro conjI)
    show "?ls \<noteq> []" using two r by (cases ls) auto
    show "m_count m' = int (length ?ls)" unfolding len using sz mc two by simp
    show "m_count m' \<le> m_cap m'" using sz mc cap by simp
    show "length (m_lines m') = nat (m_cap m')" by (rule cap)
    show "length (m_len m') = nat (m_cap m')" by (rule cap)
    show "take (length ?ls) (m_len m') = map (\<lambda>l. Some (int (length l))) ?ls" by (rule t2)
    show "\<exists>as. take (length ?ls) (m_lines m') = map (\<lambda>a. Some (Addr a)) as \<and> distinct as \<and>
        list_all2 (\<lambda>a l. \<exists>blk. heap m' a = Some blk \<and> blk_holds blk l) as ?ls"
      using t1 dd al' by blast
    show "\<forall>a. brk m' \<le> a \<longrightarrow> heap m' a = None" by (rule hb')
  qed
qed


lemma buffer_join_with_prev_mem_noop:
  "row \<le> 0 \<or> row \<ge> m_count m \<Longrightarrow> buffer_join_with_prev_mem m row = Some m"
  by (simp add: buffer_join_with_prev_mem_def)

lemma mem_rep_rows_differ:
  assumes rep: "mem_rep m ls" and "i < length ls" "j < length ls" "i \<noteq> j"
  shows "m_lines m ! i \<noteq> m_lines m ! j"
proof -
  from mem_rep_addrs [OF rep] obtain as
    where as: "take (length ls) (m_lines m) = map (\<lambda>a. Some (Addr a)) as"
    and d: "distinct as" and la: "length as = length ls"
    by blast
  have "take (length ls) (m_lines m) ! i = Some (Addr (as ! i))"
    "take (length ls) (m_lines m) ! j = Some (Addr (as ! j))"
    unfolding as using assms la by simp_all
  then have "m_lines m ! i = Some (Addr (as ! i))" "m_lines m ! j = Some (Addr (as ! j))"
    using assms by simp_all
  moreover have "as ! i \<noteq> as ! j" using d assms la by (simp add: nth_eq_iff_index_eq)
  ultimately show ?thesis by simp
qed

lemma regrown_block:
  "\<exists>J. take (length lp + k + 1) (map Some lp @ Some NUL # rest)
         @ replicate (length lp + k + 1 - length (map Some lp @ Some NUL # rest)) None
       = map Some lp @ J \<and> length J = k + 1"
  by (intro exI [of _ "take (k + 1) (Some NUL # rest) @ replicate (k - length rest) None"]) auto

lemma join_block:
  assumes "length J = length lc + 1"
  shows "memcpy_list (map Some lp @ J) (int (length lp)) (map Some lc @ Some NUL # rest)
       (int (length lc) + 1) = Some (map Some (lp @ lc) @ [Some NUL])"
proof -
  have a: "nat (int (length lc) + 1) = Suc (length lc)"
    "nat (int (length lp) + (int (length lc) + 1)) = length lp + length lc + 1"
    by simp_all
  have cond: "\<not> (int (length lc) + 1 < 0 \<or> int (length lp) < 0
      \<or> int (length (map Some lp @ J)) < int (length lp) + (int (length lc) + 1)
      \<or> int (length (map Some lc @ Some NUL # rest)) < int (length lc) + 1)"
    using assms by simp
  have b: "take (length lp) (map Some lp @ J) = map Some lp" by simp
  have c: "take (Suc (length lc)) (map Some lc @ Some NUL # rest) = map Some lc @ [Some NUL]"
    by simp
  have d: "drop (length lp + length lc + 1) (map Some lp @ J) = []" using assms by simp
  show ?thesis
    unfolding memcpy_list_def if_not_P [OF cond] a nat_int b c d by simp
qed

lemma join_lines:
  assumes "0 < r" "r < length ls"
  shows "take r (ls[r - 1 := x]) @ drop (Suc r) (ls[r - 1 := x]) = take (r - 1) ls @ x # drop (Suc r) ls"
proof -
  from assms have "take r (ls[r - 1 := x]) = take (r - 1) ls @ [x]"
    by (cases r) (simp_all add: take_Suc_conv_app_nth)
  with assms show ?thesis by simp
qed

lemma buffer_join_with_prev_mem_rep:
  assumes rep: "mem_rep m ls" and row: "0 < row" "row < int (length ls)"
  shows "\<exists>m'. buffer_join_with_prev_mem m row = Some m'
     \<and> mem_rep m' (take (nat row - 1) ls @ (ls ! (nat row - 1) @ ls ! nat row) #
                   drop (Suc (nat row)) ls)
     \<and> m_dirty m' \<and> m_cap m' = m_cap m"
proof -
  define r where "r = nat row"
  define n0 where "n0 = length ls"
  have r: "0 < r" "r < length ls" "row = int r" "nat (int r - 1) = r - 1" "nat (int r) = r"
    using row by (simp_all add: r_def)
  let ?lp = "ls ! (r - 1)" and ?lc = "ls ! r"
  from rep have sz: "m_count m = int (length ls)" "m_count m \<le> m_cap m"
    "length (m_lines m) = nat (m_cap m)" "length (m_len m) = nat (m_cap m)"
    by (auto simp: mem_rep_def)
  have cnt: "m_count m = int n0" using sz by (simp add: n0_def)
  have rb: "r < length (m_lines m)" "r < length (m_len m)" "r - 1 < length (m_lines m)"
    "r - 1 < length (m_len m)" "n0 \<le> length (m_lines m)" "n0 \<le> length (m_len m)"
    using r sz by (simp_all add: n0_def)
  have p0: "0 \<le> int r - 1" "int r - 1 < int (length ls)" using r by simp_all
  obtain ap restp where gp1: "aget (m_lines m) (int r - 1) = Some (Addr ap)"
    and gp2: "aget (m_len m) (int r - 1) = Some (int (length ?lp))"
    and gp3: "heap m ap = Some (map Some ?lp @ Some NUL # restp)" and gp4: "ap < brk m"
    by (rule mem_rep_row [OF rep p0, unfolded r(4)])
  have c0: "0 \<le> int r" "int r < int (length ls)" using r by simp_all
  obtain ac restc where gc1: "aget (m_lines m) (int r) = Some (Addr ac)"
    and gc2: "aget (m_len m) (int r) = Some (int (length ?lc))"
    and gc3: "heap m ac = Some (map Some ?lc @ Some NUL # restc)" and gc4: "ac < brk m"
    by (rule mem_rep_row [OF rep c0, unfolded nat_int])
  from gp1 rb r have oldp: "m_lines m ! (r - 1) = Some (Addr ap)"
    by (simp add: aget_def split: if_splits)
  from gc1 rb r have oldc: "m_lines m ! r = Some (Addr ac)"
    by (simp add: aget_def split: if_splits)
  from mem_rep_rows_differ [OF rep, of "r - 1" r] r oldp oldc have ne: "ap \<noteq> ac" by auto
  obtain J where J: "take (length ?lp + length ?lc + 1) (map Some ?lp @ Some NUL # restp)
         @ replicate (length ?lp + length ?lc + 1 - length (map Some ?lp @ Some NUL # restp)) None
       = map Some ?lp @ J" "length J = length ?lc + 1"
    using regrown_block by blast
  define D0 where "D0 = map Some ?lp @ J"
  define D1 where "D1 = map Some (?lp @ ?lc) @ [Some NUL]"
  define Bc where "Bc = map Some ?lc @ Some NUL # restc"
  define m1 where "m1 = m\<lparr>heap := (heap m)(ap := None, brk m \<mapsto> D0), brk := Suc (brk m)\<rparr>"
  define LS where "LS = (m_lines m)[r - 1 := Some (Addr (brk m))]"
  define NS where "NS = (m_len m)[r - 1 := Some (int (length ?lp) + int (length ?lc))]"
  define m2 where "m2 = m1\<lparr>heap := (heap m)(ap := None, brk m \<mapsto> D1, ac := None)\<rparr>"
  obtain LS1 where LS1: "memmove_list LS (int r) (int r + 1) (int n0 - int r - 1) = Some LS1"
    "length LS1 = length LS"
    "take (n0 - 1) LS1 = take r (take n0 LS) @ drop (Suc r) (take n0 LS)"
    using shift_del [of r n0 LS] r rb by (auto simp: LS_def n0_def)
  obtain NS1 where NS1: "memmove_list NS (int r) (int r + 1) (int n0 - int r - 1) = Some NS1"
    "length NS1 = length NS"
    "take (n0 - 1) NS1 = take r (take n0 NS) @ drop (Suc r) (take n0 NS)"
    using shift_del [of r n0 NS] r rb by (auto simp: NS_def n0_def)
  define m' where "m' = m2\<lparr>m_lines := LS1, m_len := NS1, m_count := int n0 - 1, m_dirty := True\<rparr>"
  have g0: "\<not> (int r \<le> 0 \<or> int r \<ge> int n0)" using r by (simp add: n0_def)
  have e1: "realloc m (Addr ap) (int (length ?lp) + int (length ?lc) + 1) = Some (brk m, m1)"
  proof -
    have n2: "nat (int (length ?lp) + int (length ?lc) + 1) = length ?lp + length ?lc + 1" by simp
    have "0 < int (length ?lp) + int (length ?lc) + 1" by simp
    from realloc_live [OF gp3 this, unfolded n2 J] show ?thesis by (simp add: m1_def D0_def)
  qed
  have e2: "aset (m_lines m1) (int r - 1) (Addr (brk m)) = Some LS"
    using r rb by (simp add: aset_def m1_def LS_def)
  have e3: "heap m1 (brk m) = Some D0" by (simp add: m1_def)
  have e4: "aget LS (int r) = Some (Addr ac)"
    using r rb oldc by (simp add: aget_def LS_def)
  have e5: "deref m1 (Addr ac) = Some (ac, Bc)"
    unfolding Bc_def using ne gc3 gc4 by (intro deref_live) (simp add: m1_def)
  have e6: "memcpy_list D0 (int (length ?lp)) Bc (int (length ?lc) + 1) = Some D1"
    unfolding D0_def Bc_def D1_def by (rule join_block [OF J(2)])
  have e7: "aset (m_len m1) (int r - 1) (int (length ?lp) + int (length ?lc)) = Some NS"
    using r rb by (simp add: aset_def m1_def NS_def)
  have e8: "free (m1\<lparr>heap := (heap m1)(brk m \<mapsto> D1)\<rparr>) (Addr ac) = Some m2"
    using ne gc3 gc4 by (simp add: free_def m1_def m2_def)
  have run: "buffer_join_with_prev_mem m row = Some m'"
    by (simp only: buffer_join_with_prev_mem_def r(3) cnt g0 if_False gp1 gp2 gc2 e1 e2 e3 e4 e5
        e6 e7 e8 LS1(1) NS1(1) Option.bind.simps prod.case m'_def)
  let ?ls1 = "ls[r - 1 := ?lp @ ?lc]"
  define ma where "ma = m\<lparr>heap := (heap m)(ap := None, brk m \<mapsto> D1), brk := Suc (brk m),
      m_lines := LS, m_len := NS\<rparr>"
  have bh: "blk_holds D1 (?lp @ ?lc)" by (simp add: blk_holds_iff D1_def)
  have repa: "mem_rep ma ?ls1"
    using rep _ oldp _ bh
  proof (rule mem_rep_update_row)
    show "r - 1 < length ls" using r by simp
    show "brk m = ap \<or> brk m \<le> brk m" by simp
    show "heap ma = (heap m)(ap := None, brk m \<mapsto> D1)" by (simp add: ma_def)
    show "brk m < brk ma" "brk m \<le> brk ma" by (simp_all add: ma_def)
    show "m_lines ma = (m_lines m)[r - 1 := Some (Addr (brk m))]" by (simp add: ma_def LS_def)
    show "m_len ma = (m_len m)[r - 1 := Some (int (length (?lp @ ?lc)))]"
      by (simp add: ma_def NS_def)
    show "m_count ma = m_count m" "m_cap ma = m_cap m" by (simp_all add: ma_def)
  qed
  have la: "length ?ls1 = n0" by (simp add: n0_def)
  have "mem_rep m' (take r ?ls1 @ drop (Suc r) ?ls1)"
    using repa
  proof (rule mem_rep_remove_row)
    show "r < length ?ls1" using r by simp
    show "1 < length ?ls1" using r by simp
    show "m_lines ma ! r = Some (Addr ac)" using r oldc by (simp add: ma_def LS_def)
    show "heap m' = (heap ma)(ac := None)" by (simp add: m'_def m2_def ma_def)
    show "brk m' = brk ma" by (simp add: m'_def m2_def m1_def ma_def)
    show "m_cap m' = m_cap ma" by (simp add: m'_def m2_def m1_def ma_def)
    show "length (m_lines m') = nat (m_cap m')"
      using LS1(2) sz by (simp add: m'_def m2_def m1_def LS_def)
    show "length (m_len m') = nat (m_cap m')"
      using NS1(2) sz by (simp add: m'_def m2_def m1_def NS_def)
    show "take (length ?ls1 - 1) (m_lines m') =
        take r (take (length ?ls1) (m_lines ma)) @ drop (Suc r) (take (length ?ls1) (m_lines ma))"
      unfolding la using LS1(3) by (simp add: m'_def ma_def)
    show "take (length ?ls1 - 1) (m_len m') =
        take r (take (length ?ls1) (m_len ma)) @ drop (Suc r) (take (length ?ls1) (m_len ma))"
      unfolding la using NS1(3) by (simp add: m'_def ma_def)
    show "m_count m' = m_count ma - 1" using cnt by (simp add: m'_def ma_def)
  qed
  then have "mem_rep m' (take (r - 1) ls @ (?lp @ ?lc) # drop (Suc r) ls)"
    unfolding join_lines [OF r(1,2)] .
  with run show ?thesis unfolding r_def by (auto simp: m'_def m2_def m1_def)
qed

section \<open>Loading, in memory\<close>

text \<open>The loop of \<open>buffer_free\<close> (version 0.3) and of the reset in \<open>editor_open\<close>
  (version 0.1): \<^verbatim>\<open>for (i = 0; i < count; i++) free(lines[i]);\<close>. The two arrays are
  freed as well; \<open>buffer_init\<close> allocates new ones.\<close>

fun free_all :: "Mem \<Rightarrow> ptr option list \<Rightarrow> Mem option" where
  "free_all m [] = Some m"
| "free_all m (p # ps) = do { q \<leftarrow> p; m1 \<leftarrow> free m q; free_all m1 ps }"

definition buffer_free_mem :: "Mem \<Rightarrow> Mem option" where
  "buffer_free_mem m =
     (if int (length (m_lines m)) < m_count m then None
      else free_all m (take (nat (m_count m)) (m_lines m)))"

text \<open>The body of the \<open>getline\<close> loop of \<open>editor_open\<close>.\<close>

fun load_lines_mem :: "Mem \<Rightarrow> bool \<Rightarrow> string list \<Rightarrow> Mem option" where
  "load_lines_mem m first [] = Some m"
| "load_lines_mem m first (line # rest) =
     (if first then
        do {
          p \<leftarrow> aget (m_lines m) 0;
          m1 \<leftarrow> free m p;
          (a, m2) \<leftarrow> malloc m1 (int (strip_eol line (length line)) + 1);
          ls \<leftarrow> aset (m_lines m2) 0 (Addr a);
          blk \<leftarrow> heap m2 a;
          blk1 \<leftarrow> memcpy_list blk 0 (map Some line) (int (strip_eol line (length line)));
          blk2 \<leftarrow> aset blk1 (int (strip_eol line (length line))) NUL;
          ns \<leftarrow> aset (m_len m2) 0 (int (strip_eol line (length line)));
          load_lines_mem (m2\<lparr>heap := (heap m2)(a \<mapsto> blk2), m_lines := ls, m_len := ns\<rparr>) False rest
        }
      else
        do {
          m1 \<leftarrow> buffer_insert_line_mem m (m_count m) (map Some line)
                  (int (strip_eol line (length line)));
          load_lines_mem m1 False rest
        })"

text \<open>\<open>editor_open\<close> on the buffer; \<open>file\<close> is what \<open>fopen\<close> finds.\<close>

definition editor_open_mem :: "Mem \<Rightarrow> string option \<Rightarrow> Mem option" where
  "editor_open_mem m file =
     (case file of
        None \<Rightarrow> Some m
      | Some data \<Rightarrow>
          do {
            m1 \<leftarrow> buffer_free_mem m;
            m2 \<leftarrow> load_lines_mem (buffer_init_mem m1) True (getlines [] data);
            Some (m2\<lparr>m_dirty := False\<rparr>)
          })"

text \<open>Version 0.1 guards the row in the three functions that version 0.3 leaves
  unguarded.\<close>

definition buffer_insert_char_mem_v1 :: "Mem \<Rightarrow> int \<Rightarrow> int \<Rightarrow> char \<Rightarrow> Mem option" where
  "buffer_insert_char_mem_v1 m row col c =
     (if row < 0 \<or> row \<ge> m_count m then Some m else buffer_insert_char_mem m row col c)"

definition buffer_delete_char_mem_v1 :: "Mem \<Rightarrow> int \<Rightarrow> int \<Rightarrow> Mem option" where
  "buffer_delete_char_mem_v1 m row col =
     (if row < 0 \<or> row \<ge> m_count m then Some m else buffer_delete_char_mem m row col)"

definition buffer_split_line_mem_v1 :: "Mem \<Rightarrow> int \<Rightarrow> int \<Rightarrow> Mem option" where
  "buffer_split_line_mem_v1 m row col =
     (if row < 0 \<or> row \<ge> m_count m then Some m else buffer_split_line_mem m row col)"

lemma free_all_live:
  "distinct as \<Longrightarrow> \<forall>a \<in> set as. heap m a \<noteq> None \<Longrightarrow>
     \<exists>h'. free_all m (map (\<lambda>a. Some (Addr a)) as) = Some (m\<lparr>heap := h'\<rparr>)
        \<and> (\<forall>a. heap m a = None \<longrightarrow> h' a = None)"
proof (induction as arbitrary: m)
  case Nil
  show ?case by (intro exI [of _ "heap m"]) simp
next
  case (Cons a as)
  from Cons.prems obtain blk where live: "heap m a = Some blk" by auto
  define m1 where "m1 = m\<lparr>heap := (heap m)(a := None)\<rparr>"
  have f: "free m (Addr a) = Some m1" by (simp add: free_def live m1_def)
  have "distinct as" "\<forall>x \<in> set as. heap m1 x \<noteq> None"
    using Cons.prems by (auto simp: m1_def)
  from Cons.IH [OF this] obtain h' where
    h': "free_all m1 (map (\<lambda>a. Some (Addr a)) as) = Some (m1\<lparr>heap := h'\<rparr>)"
    "\<forall>x. heap m1 x = None \<longrightarrow> h' x = None" by blast
  have "free_all m (map (\<lambda>a. Some (Addr a)) (a # as)) = Some (m\<lparr>heap := h'\<rparr>)"
    using f h'(1) by (simp add: m1_def)
  moreover have "\<forall>x. heap m x = None \<longrightarrow> h' x = None"
    using h'(2) by (auto simp: m1_def)
  ultimately show ?case by blast
qed

lemma buffer_init_mem_rep:
  assumes "\<forall>a. brk m \<le> a \<longrightarrow> heap m a = None"
  shows "mem_rep (buffer_init_mem m) [[]]"
proof -
  have r: "replicate 64 v = v # replicate 63 v" for v :: "'a"
    by (simp flip: replicate_Suc)
  have a: "take (length [[] :: string]) (m_lines (buffer_init_mem m)) =
      map (\<lambda>a. Some (Addr a)) [brk m]"
    by (simp add: buffer_init_mem_def r)
  have b: "take (length [[] :: string]) (m_len (buffer_init_mem m)) =
      map (\<lambda>l. Some (int (length l))) [[] :: string]"
    by (simp add: buffer_init_mem_def r)
  have c: "list_all2 (\<lambda>a l. \<exists>blk. heap (buffer_init_mem m) a = Some blk \<and> blk_holds blk l)
      [brk m] [[] :: string]"
    by (simp add: buffer_init_mem_def blk_holds_def)
  have d: "\<forall>a. brk (buffer_init_mem m) \<le> a \<longrightarrow> heap (buffer_init_mem m) a = None"
    using assms by (simp add: buffer_init_mem_def)
  show ?thesis
    unfolding mem_rep_def
  proof (intro conjI)
    show "\<exists>as. take (length [[] :: string]) (m_lines (buffer_init_mem m)) = map (\<lambda>a. Some (Addr a)) as
        \<and> distinct as
        \<and> list_all2 (\<lambda>a l. \<exists>blk. heap (buffer_init_mem m) a = Some blk \<and> blk_holds blk l) as [[] :: string]"
      using a c by (intro exI [of _ "[brk m]"]) simp
    show "take (length [[] :: string]) (m_len (buffer_init_mem m)) =
        map (\<lambda>l. Some (int (length l))) [[] :: string]" by (rule b)
    show "\<forall>a. brk (buffer_init_mem m) \<le> a \<longrightarrow> heap (buffer_init_mem m) a = None" by (rule d)
  qed (simp_all add: buffer_init_mem_def)
qed

lemma buffer_free_mem_rep:
  assumes "mem_rep m ls"
  shows "\<exists>h'. buffer_free_mem m = Some (m\<lparr>heap := h'\<rparr>) \<and> (\<forall>a. brk m \<le> a \<longrightarrow> h' a = None)"
proof -
  from mem_rep_addrs [OF assms] obtain as
    where as: "take (length ls) (m_lines m) = map (\<lambda>a. Some (Addr a)) as"
    and d: "distinct as" and la: "length as = length ls"
    and h: "\<And>j. j < length ls \<Longrightarrow> \<exists>blk. heap m (as ! j) = Some blk \<and> blk_holds blk (ls ! j)"
    by blast
  from assms have sz: "m_count m = int (length ls)" "m_count m \<le> m_cap m"
    "length (m_lines m) = nat (m_cap m)"
    and hb: "\<forall>a. brk m \<le> a \<longrightarrow> heap m a = None"
    by (auto simp: mem_rep_def)
  have live: "\<forall>a \<in> set as. heap m a \<noteq> None"
  proof
    fix a assume "a \<in> set as"
    then obtain j where "j < length as" "as ! j = a" by (auto simp: in_set_conv_nth)
    with h [of j] la show "heap m a \<noteq> None" by auto
  qed
  from free_all_live [OF d live] obtain h' where
    "free_all m (map (\<lambda>a. Some (Addr a)) as) = Some (m\<lparr>heap := h'\<rparr>)"
    "\<forall>a. heap m a = None \<longrightarrow> h' a = None" by blast
  with sz hb show ?thesis by (auto simp: buffer_free_mem_def as [symmetric])
qed

lemma fill_block:
  fixes src :: "char option list"
  assumes tk: "take n' src = map Some l0" and ln: "length l0 = n'"
  shows "memcpy_list (replicate (nat (int n' + 1)) None) 0 src (int n') = Some (map Some l0 @ [None])"
proof -
  have "length (take n' src) = length (map Some l0)" by (simp only: tk)
  then have "min (length src) n' = n'" using ln by simp
  then have le: "n' \<le> length src" by simp
  have nn: "nat (int n' + 1) = Suc n'" by simp
  have cond: "\<not> (int n' < 0 \<or> (0::int) < 0 \<or> int (length (replicate (Suc n') (None :: char option))) < 0 + int n'
      \<or> int (length src) < int n')"
    using le by simp
  have z: "nat (0 + int n') = n'" by simp
  have dr: "drop n' (replicate (Suc n') (None :: char option)) = [None]"
    by (simp only: drop_replicate) simp
  show ?thesis
    unfolding nn memcpy_list_def if_not_P [OF cond] nat_int tk z dr by simp
qed

lemma nul_free_update: "nul_free ls \<Longrightarrow> NUL \<notin> set l \<Longrightarrow> nul_free (ls[i := l])"
  by (auto simp: nul_free_def dest: set_update_subset_insert [THEN subsetD])

lemma nul_free_insert:
  "nul_free ls \<Longrightarrow> NUL \<notin> set l \<Longrightarrow> nul_free (take at ls @ l # drop at ls)"
  by (auto simp: nul_free_def dest: in_set_takeD in_set_dropD)

lemma nul_free_nth: "nul_free ls \<Longrightarrow> i < length ls \<Longrightarrow> NUL \<notin> set (ls ! i)"
  by (simp add: nul_free_def)

lemma load_first_step:
  assumes rep: "mem_rep m ls"
  shows "\<exists>ma. load_lines_mem m True (line # rest) = load_lines_mem ma False rest
     \<and> mem_rep ma (ls[0 := take (strip_eol line (length line)) line])
     \<and> m_dirty ma = m_dirty m"
proof -
  define n where "n = strip_eol line (length line)"
  have n: "n \<le> length line" unfolding n_def by (rule strip_eol_le)
  define l0 where "l0 = take n line"
  have src: "take n (map Some line) = map Some l0" "length l0 = n"
    using n by (simp_all add: l0_def take_map)
  from rep have sz: "ls \<noteq> []" "m_count m = int (length ls)" "m_count m \<le> m_cap m"
    "length (m_lines m) = nat (m_cap m)" "length (m_len m) = nat (m_cap m)"
    by (auto simp: mem_rep_def)
  have z: "(0::int) \<le> 0" "0 < int (length ls)" using sz by simp_all
  from rep z obtain a0 rest0 where g1: "aget (m_lines m) 0 = Some (Addr a0)"
    and g3: "heap m a0 = Some (map Some (ls ! nat 0) @ Some NUL # rest0)" and g4: "a0 < brk m"
    by (rule mem_rep_row)
  from sz have "0 < length ls" by simp
  with sz have "0 < m_cap m" by linarith
  with sz have rb: "0 < length (m_lines m)" "0 < length (m_len m)" by simp_all
  define m1 where "m1 = m\<lparr>heap := (heap m)(a0 := None)\<rparr>"
  define m2 where "m2 = m1\<lparr>heap := (heap m1)(brk m1 \<mapsto> replicate (nat (int n + 1)) None),
      brk := Suc (brk m1)\<rparr>"
  define B where "B = map Some l0 @ [Some NUL]"
  define LS where "LS = (m_lines m)[0 := Some (Addr (brk m))]"
  define NS where "NS = (m_len m)[0 := Some (int n)]"
  define ma where "ma = m2\<lparr>heap := (heap m2)(brk m1 \<mapsto> B), m_lines := LS, m_len := NS\<rparr>"
  have e1: "free m (Addr a0) = Some m1" using g3 by (simp add: free_def m1_def)
  have e2: "malloc m1 (int n + 1) = Some (brk m1, m2)" by (simp add: malloc_def m2_def)
  have e3: "aset (m_lines m2) 0 (Addr (brk m1)) = Some LS"
    using rb by (simp add: aset_def m2_def m1_def LS_def)
  have e4: "heap m2 (brk m1) = Some (replicate (nat (int n + 1)) None)" by (simp add: m2_def)
  have e5: "memcpy_list (replicate (nat (int n + 1)) None) 0 (map Some line) (int n)
      = Some (map Some l0 @ [None])"
    by (rule fill_block [OF src])
  have e6: "aset (map Some l0 @ [None]) (int n) NUL = Some B"
  proof -
    have "length (map Some l0) = n" using src by simp
    from aset_mid [OF this] show ?thesis by (simp add: B_def)
  qed
  have e7: "aset (m_len m2) 0 (int n) = Some NS"
    using rb by (simp add: aset_def m2_def m1_def NS_def)
  have run: "load_lines_mem m True (line # rest) = load_lines_mem ma False rest"
    by (simp only: load_lines_mem.simps if_True n_def [symmetric] g1 e1 e2 e3 e4 e5 e6 e7
        Option.bind.simps prod.case ma_def)
  have bh: "blk_holds B l0" by (simp add: blk_holds_iff B_def)
  from g1 rb have old: "m_lines m ! 0 = Some (Addr a0)" by (simp add: aget_def)
  have repa: "mem_rep ma (ls[0 := l0])"
    using rep _ old _ bh
  proof (rule mem_rep_update_row)
    show "0 < length ls" using sz by simp
    show "brk m = a0 \<or> brk m \<le> brk m" by simp
    show "heap ma = (heap m)(a0 := None, brk m \<mapsto> B)" by (simp add: ma_def m2_def m1_def)
    show "brk m < brk ma" "brk m \<le> brk ma" by (simp_all add: ma_def m2_def m1_def)
    show "m_lines ma = (m_lines m)[0 := Some (Addr (brk m))]" by (simp add: ma_def LS_def)
    show "m_len ma = (m_len m)[0 := Some (int (length l0))]" using src by (simp add: ma_def NS_def)
    show "m_count ma = m_count m" "m_cap ma = m_cap m" by (simp_all add: ma_def m2_def m1_def)
  qed
  have "m_dirty ma = m_dirty m" by (simp add: ma_def m2_def m1_def)
  with run repa show ?thesis unfolding l0_def n_def by blast
qed

lemma load_lines_mem_rep:
  assumes "mem_rep m ls"
  shows "\<exists>m' ls'. load_lines_mem m first lns = Some m' \<and> mem_rep m' ls'
     \<and> (nul_free ls \<and> nul_free lns \<longrightarrow> nul_free ls')"
  using assms
proof (induction lns arbitrary: m ls first)
  case Nil
  then show ?case by auto
next
  case (Cons line rest)
  define n where "n = strip_eol line (length line)"
  have n: "n \<le> length line" unfolding n_def by (rule strip_eol_le)
  define l0 where "l0 = take n line"
  have src: "take n (map Some line) = map Some l0" "length l0 = n"
    using n by (simp_all add: l0_def take_map)
  have nf0: "nul_free (line # rest) \<Longrightarrow> NUL \<notin> set l0 \<and> nul_free rest"
    by (auto simp: nul_free_def l0_def dest: in_set_takeD)
  note rep = Cons.prems
  from rep have sz: "ls \<noteq> []" "m_count m = int (length ls)" "m_count m \<le> m_cap m"
    by (auto simp: mem_rep_def)
  show ?case
  proof (cases first)
    case True
    from load_first_step [OF rep, of line rest] obtain ma where
      run: "load_lines_mem m True (line # rest) = load_lines_mem ma False rest"
      and repa: "mem_rep ma (ls[0 := l0])"
      unfolding l0_def n_def by blast
    from Cons.IH [OF repa, of False] obtain m' ls' where
      r: "load_lines_mem ma False rest = Some m'" "mem_rep m' ls'"
      "nul_free (ls[0 := l0]) \<and> nul_free rest \<longrightarrow> nul_free ls'" by blast
    have "nul_free ls \<and> nul_free (line # rest) \<longrightarrow> nul_free ls'"
      using r(3) nf0 nul_free_update [of ls l0 0] by blast
    with run r True show ?thesis by auto
  next
    case False
    have at: "0 \<le> m_count m" "m_count m \<le> int (length ls)" using sz by simp_all
    have s: "take (nat (int n)) (map Some line) = map Some l0" "length l0 = nat (int n)" "0 \<le> int n"
      using src by simp_all
    from buffer_insert_line_mem_rep [OF rep at s] obtain m1 where
      i1: "buffer_insert_line_mem m (m_count m) (map Some line) (int n) = Some m1"
      and rep1: "mem_rep m1 (take (nat (m_count m)) ls @ l0 # drop (nat (m_count m)) ls)"
      by blast
    from Cons.IH [OF rep1, of False] obtain m' ls' where
      r: "load_lines_mem m1 False rest = Some m'" "mem_rep m' ls'"
      "nul_free (take (nat (m_count m)) ls @ l0 # drop (nat (m_count m)) ls) \<and> nul_free rest
          \<longrightarrow> nul_free ls'" by blast
    have run: "load_lines_mem m first (line # rest) = Some m'"
      using False i1 r(1) by (simp add: n_def)
    have "nul_free ls \<and> nul_free (line # rest) \<longrightarrow> nul_free ls'"
      using r(3) nf0 nul_free_insert [of ls l0 "nat (m_count m)"] by blast
    with run r show ?thesis by auto
  qed
qed

lemma getlines_set: "l \<in> set (getlines cur data) \<Longrightarrow> set l \<subseteq> set cur \<union> set data"
proof (induction data arbitrary: cur)
  case Nil
  then show ?case by (auto split: if_splits)
next
  case (Cons c cs)
  show ?case
  proof (cases "c = LF")
    case True
    with Cons.prems have "l = cur @ [c] \<or> l \<in> set (getlines [] cs)" by simp
    then show ?thesis
    proof
      assume "l = cur @ [c]"
      then show ?thesis by auto
    next
      assume "l \<in> set (getlines [] cs)"
      from Cons.IH [OF this] show ?thesis by auto
    qed
  next
    case False
    with Cons.prems have "l \<in> set (getlines (cur @ [c]) cs)" by simp
    from Cons.IH [OF this] show ?thesis by auto
  qed
qed

lemma getlines_nul_free: "NUL \<notin> set data \<Longrightarrow> nul_free (getlines [] data)"
  using getlines_set [of _ "[]" data] by (auto simp: nul_free_def)

lemma editor_open_mem_rep:
  assumes "mem_rep m ls"
  shows "\<exists>m' ls'. editor_open_mem m file = Some m' \<and> mem_rep m' ls'
     \<and> (file = None \<longrightarrow> ls' = ls)
     \<and> ((\<forall>data. file = Some data \<longrightarrow> NUL \<notin> set data) \<longrightarrow> nul_free ls \<longrightarrow> nul_free ls')"
proof (cases "file")
  case None
  with assms show ?thesis by (auto simp: editor_open_mem_def)
next
  case (Some data)
  from buffer_free_mem_rep [OF assms] obtain h' where
    f: "buffer_free_mem m = Some (m\<lparr>heap := h'\<rparr>)" "\<forall>a. brk m \<le> a \<longrightarrow> h' a = None" by blast
  have "mem_rep (buffer_init_mem (m\<lparr>heap := h'\<rparr>)) [[]]"
    using f(2) by (intro buffer_init_mem_rep) simp
  from load_lines_mem_rep [OF this, of True "getlines [] data"] obtain m2 ls2 where
    l: "load_lines_mem (buffer_init_mem (m\<lparr>heap := h'\<rparr>)) True (getlines [] data) = Some m2"
    "mem_rep m2 ls2" "nul_free [[]] \<and> nul_free (getlines [] data) \<longrightarrow> nul_free ls2"
    by blast
  have run: "editor_open_mem m file = Some (m2\<lparr>m_dirty := False\<rparr>)"
    using Some f(1) l(1) by (simp add: editor_open_mem_def)
  have rep': "mem_rep (m2\<lparr>m_dirty := False\<rparr>) ls2" using l(2) by (simp add: mem_rep_def)
  have nf1: "nul_free [[]]" by (simp add: nul_free_def)
  have nf: "NUL \<notin> set data \<Longrightarrow> nul_free ls2"
    using l(3) nf1 getlines_nul_free [of data] by blast
  show ?thesis
  proof (intro exI conjI)
    show "editor_open_mem m file = Some (m2\<lparr>m_dirty := False\<rparr>)" by (rule run)
    show "mem_rep (m2\<lparr>m_dirty := False\<rparr>) ls2" by (rule rep')
    show "file = None \<longrightarrow> ls2 = ls" using Some by simp
    show "(\<forall>data. file = Some data \<longrightarrow> NUL \<notin> set data) \<longrightarrow> nul_free ls \<longrightarrow> nul_free ls2"
      using Some nf by simp
  qed
qed

section \<open>The list of lines and the memory\<close>

text \<open>The sections before \<open>The buffer in memory\<close> describe the buffer by the list of
  its lines. \<open>mem_models m e\<close> says that the memory \<open>m\<close> holds the document of the
  editor state \<open>e\<close>. Every buffer function, called at a row of the document, takes
  related states to related states: on these calls the list of lines tells what the
  memory holds.\<close>

definition mem_models :: "Mem \<Rightarrow> editor \<Rightarrow> bool" where
  "mem_models m e \<longleftrightarrow> mem_rep m (lines (buf e)) \<and> buffer_ok (buf e) \<and> m_dirty m = dirty e"

lemma mem_models_init:
  "mem_models (buffer_init_mem mem0) (e\<lparr>buf := buffer_init, dirty := False\<rparr>)"
proof -
  have "mem_rep (buffer_init_mem mem0) [[]]"
    by (rule buffer_init_mem_rep) (simp add: mem0_def)
  moreover have "lines buffer_init = [[]]" by (simp add: buffer_init_def)
  moreover have "m_dirty (buffer_init_mem mem0) = False"
    by (simp add: buffer_init_mem_def mem0_def)
  ultimately show ?thesis by (simp add: mem_models_def buffer_init_ok)
qed

lemma mem_models_rows:
  assumes "mem_models m e"
  shows "m_count m = count (buf e)" "lines (buf e) \<noteq> []"
    "int (length (lines (buf e))) = count (buf e)" "count (buf e) \<le> cap (buf e)"
  using assms by (auto simp: mem_models_def mem_rep_def buffer_ok_def)

lemma sim_insert_char:
  assumes mm: "mem_models m e" and row: "row_ok (buf e) row"
  shows "\<exists>m' e'. buffer_insert_char_mem m row col c = Some m'
     \<and> buffer_insert_char e row col c = Some e' \<and> mem_models m' e'"
proof -
  from mm have rep: "mem_rep m (lines (buf e))" and ok: "buffer_ok (buf e)"
    by (simp_all add: mem_models_def)
  note sz = mem_models_rows [OF mm]
  from row sz have r: "0 \<le> row" "row < int (length (lines (buf e)))"
    by (simp_all add: row_ok_def)
  from buffer_insert_char_mem_rep [OF rep r, of col c] obtain m' where
    run: "buffer_insert_char_mem m row col c = Some m'"
    and rep': "mem_rep m' ((lines (buf e))[nat row :=
        take (nat col) (lines (buf e) ! nat row) @ c # drop (nat col) (lines (buf e) ! nat row)])"
    and d: "m_dirty m'" by blast
  note a = buffer_insert_char_eq [OF ok row, of col c]
  have "mem_models m' (e\<lparr>buf := mk_buffer ((lines (buf e))[nat row :=
        take (nat col) (lines (buf e) ! nat row) @ c # drop (nat col) (lines (buf e) ! nat row)])
        (cap (buf e)), dirty := True\<rparr>)"
    using rep' d sz by (simp add: mem_models_def buffer_ok_mk)
  with run a show ?thesis by blast
qed

lemma sim_delete_char:
  assumes mm: "mem_models m e" and row: "row_ok (buf e) row"
  shows "\<exists>m' e'. buffer_delete_char_mem m row col = Some m'
     \<and> buffer_delete_char e row col = Some e' \<and> mem_models m' e'"
proof -
  from mm have rep: "mem_rep m (lines (buf e))" and ok: "buffer_ok (buf e)"
    by (simp_all add: mem_models_def)
  note sz = mem_models_rows [OF mm]
  from row sz have r: "0 \<le> row" "row < int (length (lines (buf e)))"
    by (simp_all add: row_ok_def)
  show ?thesis
  proof (cases "col \<le> 0 \<or> col > int (length (lines (buf e) ! nat row))")
    case True
    from buffer_delete_char_mem_noop [OF rep r True] buffer_delete_char_noop [OF ok row True] mm
    show ?thesis by blast
  next
    case False
    then have col: "0 < col" "col \<le> int (length (lines (buf e) ! nat row))" by simp_all
    from buffer_delete_char_mem_rep [OF rep r col] obtain m' where
      run: "buffer_delete_char_mem m row col = Some m'"
      and rep': "mem_rep m' ((lines (buf e))[nat row :=
          take (nat col - 1) (lines (buf e) ! nat row) @ drop (nat col) (lines (buf e) ! nat row)])"
      and d: "m_dirty m'" by blast
    note a = buffer_delete_char_eq [OF ok row col]
    have "mem_models m' (e\<lparr>buf := mk_buffer ((lines (buf e))[nat row :=
          take (nat col - 1) (lines (buf e) ! nat row) @ drop (nat col) (lines (buf e) ! nat row)])
          (cap (buf e)), dirty := True\<rparr>)"
      using rep' d sz by (simp add: mem_models_def buffer_ok_mk)
    with run a show ?thesis by blast
  qed
qed

lemma sim_insert_line:
  assumes mm: "mem_models m e" and n: "0 \<le> n" "n \<le> int (length s)"
  shows "\<exists>m' e'. buffer_insert_line_mem m at (map Some s) n = Some m'
     \<and> buffer_insert_line e at s n = Some e' \<and> mem_models m' e'"
proof -
  from mm have rep: "mem_rep m (lines (buf e))" and ok: "buffer_ok (buf e)"
    and dd: "m_dirty m = dirty e"
    by (simp_all add: mem_models_def)
  note sz = mem_models_rows [OF mm]
  show ?thesis
  proof (cases "at < 0 \<or> at > count (buf e)")
    case True
    then have "buffer_insert_line e at s n = Some e"
      by (auto simp: buffer_insert_line_def)
    moreover from True sz have "buffer_insert_line_mem m at (map Some s) n = Some m"
      by (intro buffer_insert_line_mem_noop) simp
    ultimately show ?thesis using mm by blast
  next
    case False
    then have at: "0 \<le> at" "at \<le> count (buf e)" by simp_all
    from at sz have at': "0 \<le> at" "at \<le> int (length (lines (buf e)))" by simp_all
    have src: "take (nat n) (map Some s) = map Some (take (nat n) s)"
      "length (take (nat n) s) = nat n" "0 \<le> n"
      using n by (simp_all add: take_map)
    from buffer_insert_line_mem_rep [OF rep at' src] obtain m' where
      run: "buffer_insert_line_mem m at (map Some s) n = Some m'"
      and rep': "mem_rep m' (take (nat at) (lines (buf e)) @ take (nat n) s # drop (nat at) (lines (buf e)))"
      and d: "m_dirty m' = m_dirty m" by blast
    from buffer_insert_line_eq [OF ok at n] obtain c' where
      a: "buffer_insert_line e at s n =
        Some (e\<lparr>buf := mk_buffer (take (nat at) (lines (buf e)) @ take (nat n) s # drop (nat at) (lines (buf e))) c'\<rparr>)"
      and c': "count (buf e) + 1 \<le> c'" by blast
    have "int (length (take (nat at) (lines (buf e)) @ take (nat n) s # drop (nat at) (lines (buf e)))) \<le> c'"
      using c' sz at by simp
    then have "mem_models m' (e\<lparr>buf := mk_buffer (take (nat at) (lines (buf e)) @ take (nat n) s # drop (nat at) (lines (buf e))) c'\<rparr>)"
      using rep' d dd by (simp add: mem_models_def buffer_ok_mk)
    with run a show ?thesis by blast
  qed
qed

lemma sim_split_line:
  assumes mm: "mem_models m e" and row: "row_ok (buf e) row"
  shows "\<exists>m' e'. buffer_split_line_mem m row col = Some m'
     \<and> buffer_split_line e row col = Some e' \<and> mem_models m' e'"
proof -
  from mm have rep: "mem_rep m (lines (buf e))" and ok: "buffer_ok (buf e)"
    by (simp_all add: mem_models_def)
  note sz = mem_models_rows [OF mm]
  from row sz have r: "0 \<le> row" "row < int (length (lines (buf e)))"
    by (simp_all add: row_ok_def)
  from buffer_split_line_mem_rep [OF rep r, of col] obtain m' where
    run: "buffer_split_line_mem m row col = Some m'"
    and rep': "mem_rep m' (take (nat row) (lines (buf e)) @ take (nat col) (lines (buf e) ! nat row) #
                   drop (nat col) (lines (buf e) ! nat row) # drop (Suc (nat row)) (lines (buf e)))"
    and d: "m_dirty m'" by blast
  from buffer_split_line_eq [OF ok row, of col] obtain c' where
    a: "buffer_split_line e row col =
     Some (e\<lparr>buf := mk_buffer (take (nat row) (lines (buf e)) @
                 take (nat col) (lines (buf e) ! nat row) #
                 drop (nat col) (lines (buf e) ! nat row) #
                 drop (Suc (nat row)) (lines (buf e))) c',
           dirty := True\<rparr>)" and c': "count (buf e) + 1 \<le> c'" by blast
  have "int (length (take (nat row) (lines (buf e)) @ take (nat col) (lines (buf e) ! nat row) #
                   drop (nat col) (lines (buf e) ! nat row) # drop (Suc (nat row)) (lines (buf e)))) \<le> c'"
    using c' sz r by simp
  then have "mem_models m' (e\<lparr>buf := mk_buffer (take (nat row) (lines (buf e)) @
                 take (nat col) (lines (buf e) ! nat row) #
                 drop (nat col) (lines (buf e) ! nat row) #
                 drop (Suc (nat row)) (lines (buf e))) c',
           dirty := True\<rparr>)"
    using rep' d by (simp add: mem_models_def buffer_ok_mk)
  with run a show ?thesis by blast
qed

lemma sim_join_with_prev:
  assumes mm: "mem_models m e"
  shows "\<exists>m' e'. buffer_join_with_prev_mem m row = Some m'
     \<and> buffer_join_with_prev e row = Some e' \<and> mem_models m' e'"
proof -
  from mm have rep: "mem_rep m (lines (buf e))" and ok: "buffer_ok (buf e)"
    by (simp_all add: mem_models_def)
  note sz = mem_models_rows [OF mm]
  show ?thesis
  proof (cases "row \<le> 0 \<or> row \<ge> count (buf e)")
    case True
    then have "buffer_join_with_prev e row = Some e" by (rule buffer_join_with_prev_noop)
    moreover from True sz have "buffer_join_with_prev_mem m row = Some m"
      by (intro buffer_join_with_prev_mem_noop) simp
    ultimately show ?thesis using mm by blast
  next
    case False
    then have row: "0 < row" "row < count (buf e)" by simp_all
    from row sz have r: "0 < row" "row < int (length (lines (buf e)))" by simp_all
    from buffer_join_with_prev_mem_rep [OF rep r] obtain m' where
      run: "buffer_join_with_prev_mem m row = Some m'"
      and rep': "mem_rep m' (take (nat row - 1) (lines (buf e)) @
          (lines (buf e) ! (nat row - 1) @ lines (buf e) ! nat row) #
          drop (Suc (nat row)) (lines (buf e)))"
      and d: "m_dirty m'" by blast
    note a = buffer_join_with_prev_eq [OF ok row]
    have "int (length (take (nat row - 1) (lines (buf e)) @
          (lines (buf e) ! (nat row - 1) @ lines (buf e) ! nat row) #
          drop (Suc (nat row)) (lines (buf e)))) \<le> cap (buf e)"
      using sz r by simp
    then have "mem_models m' (e\<lparr>buf := mk_buffer (take (nat row - 1) (lines (buf e)) @
                 (lines (buf e) ! (nat row - 1) @ lines (buf e) ! nat row) #
                 drop (Suc (nat row)) (lines (buf e))) (cap (buf e)),
           dirty := True\<rparr>)"
      using rep' d by (simp add: mem_models_def buffer_ok_mk)
    with run a show ?thesis by blast
  qed
qed

lemma sim_load_lines:
  "mem_models m e \<Longrightarrow> \<exists>m' e'. load_lines_mem m first lns = Some m'
     \<and> load_lines e first lns = Some e' \<and> mem_models m' e'"
proof (induction lns arbitrary: m e first)
  case Nil
  then show ?case by simp
next
  case (Cons line rest)
  note mm = Cons.prems
  define k where "k = strip_eol line (length line)"
  have k: "k \<le> length line" unfolding k_def by (rule strip_eol_le)
  from mm have rep: "mem_rep m (lines (buf e))" and ok: "buffer_ok (buf e)"
    and dd: "m_dirty m = dirty e"
    by (simp_all add: mem_models_def)
  note sz = mem_models_rows [OF mm]
  show ?case
  proof (cases first)
    case True
    define e1 where "e1 = e\<lparr>buf := (buf e)\<lparr>
            lines := (lines (buf e))[0 := take k line],
            len := (len (buf e))[0 := int k]\<rparr>\<rparr>"
    from load_first_step [OF rep, of line rest] obtain ma where
      run: "load_lines_mem m True (line # rest) = load_lines_mem ma False rest"
      and repa: "mem_rep ma ((lines (buf e))[0 := take k line])"
      and da: "m_dirty ma = m_dirty m"
      unfolding k_def by blast
    have a: "load_lines e True (line # rest) = load_lines e1 False rest"
      by (simp add: Let_def e1_def k_def)
    have "buffer_ok (buf e1)"
      using ok k by (simp add: buffer_ok_def e1_def map_update min_def)
    with repa da dd have "mem_models ma e1" by (simp add: mem_models_def e1_def)
    from Cons.IH [OF this, of False] run a True show ?thesis by simp
  next
    case False
    have n: "0 \<le> int k" "int k \<le> int (length line)" using k by simp_all
    from sim_insert_line [OF mm n, of "count (buf e)"] obtain m1 e1 where
      r1: "buffer_insert_line_mem m (count (buf e)) (map Some line) (int k) = Some m1"
      and a1: "buffer_insert_line e (count (buf e)) line (int k) = Some e1"
      and mm1: "mem_models m1 e1" by blast
    have run: "load_lines_mem m False (line # rest) = load_lines_mem m1 False rest"
      using r1 sz by (simp add: k_def)
    have a: "load_lines e False (line # rest) = load_lines e1 False rest"
      using a1 by (simp add: Let_def k_def)
    from Cons.IH [OF mm1, of False] run a False show ?thesis by simp
  qed
qed

lemma sim_open:
  assumes mm: "mem_models m e"
  shows "\<exists>m' e'. editor_open_mem m file = Some m'
     \<and> editor_open e path file = Some e' \<and> mem_models m' e'"
proof (cases "file")
  case None
  with mm show ?thesis by (simp add: editor_open_mem_def editor_open_def mem_models_def)
next
  case (Some data)
  from mm have rep: "mem_rep m (lines (buf e))" and dd: "m_dirty m = dirty e"
    by (simp_all add: mem_models_def)
  from buffer_free_mem_rep [OF rep] obtain h' where
    f: "buffer_free_mem m = Some (m\<lparr>heap := h'\<rparr>)" "\<forall>a. brk m \<le> a \<longrightarrow> h' a = None" by blast
  have "mem_rep (buffer_init_mem (m\<lparr>heap := h'\<rparr>)) [[]]"
    using f(2) by (intro buffer_init_mem_rep) simp
  moreover have "lines buffer_init = [[]]" by (simp add: buffer_init_def)
  moreover have "m_dirty (buffer_init_mem (m\<lparr>heap := h'\<rparr>)) = dirty e"
    using dd by (simp add: buffer_init_mem_def)
  ultimately have "mem_models (buffer_init_mem (m\<lparr>heap := h'\<rparr>)) (e\<lparr>buf := buffer_init\<rparr>)"
    by (simp add: mem_models_def buffer_init_ok)
  from sim_load_lines [OF this, of True "getlines [] data"] obtain m2 e2 where
    l: "load_lines_mem (buffer_init_mem (m\<lparr>heap := h'\<rparr>)) True (getlines [] data) = Some m2"
    and a: "load_lines (e\<lparr>buf := buffer_init\<rparr>) True (getlines [] data) = Some e2"
    and mm2: "mem_models m2 e2" by blast
  have run: "editor_open_mem m file = Some (m2\<lparr>m_dirty := False\<rparr>)"
    using Some f(1) l by (simp add: editor_open_mem_def)
  have run': "editor_open e path file = Some (e2\<lparr>filename := take 255 path, dirty := False\<rparr>)"
    using Some a by (simp add: editor_open_def)
  have "mem_models (m2\<lparr>m_dirty := False\<rparr>) (e2\<lparr>filename := take 255 path, dirty := False\<rparr>)"
    using mm2 by (simp add: mem_models_def mem_rep_def)
  with run run' show ?thesis by blast
qed

section \<open>The buffer invariant, in memory\<close>

text \<open>The memory states reachable from the initial buffer by the buffer operations of
  either version and by loading a file. The three operations that version 0.3 leaves
  unguarded are applied at rows of the document, \<open>0 \<le> row < count\<close>, as every caller in
  the editor does; the other operations check their row themselves. With \<open>t\<close> set, no
  NUL byte is inserted or loaded.\<close>

inductive mem_reachable :: "bool \<Rightarrow> Mem \<Rightarrow> bool" for t :: bool where
  init: "mem_reachable t (buffer_init_mem mem0)"
| insert_line: "mem_reachable t m \<Longrightarrow> (t \<longrightarrow> NUL \<notin> set (take (nat n) s)) \<Longrightarrow>
    buffer_insert_line_mem m at (map Some s) n = Some m' \<Longrightarrow> mem_reachable t m'"
| insert_char: "mem_reachable t m \<Longrightarrow> 0 \<le> row \<Longrightarrow> row < m_count m \<Longrightarrow> (t \<longrightarrow> c \<noteq> NUL) \<Longrightarrow>
    buffer_insert_char_mem m row col c = Some m' \<Longrightarrow> mem_reachable t m'"
| insert_char_v1: "mem_reachable t m \<Longrightarrow> (t \<longrightarrow> c \<noteq> NUL) \<Longrightarrow>
    buffer_insert_char_mem_v1 m row col c = Some m' \<Longrightarrow> mem_reachable t m'"
| delete_char: "mem_reachable t m \<Longrightarrow> 0 \<le> row \<Longrightarrow> row < m_count m \<Longrightarrow>
    buffer_delete_char_mem m row col = Some m' \<Longrightarrow> mem_reachable t m'"
| delete_char_v1: "mem_reachable t m \<Longrightarrow>
    buffer_delete_char_mem_v1 m row col = Some m' \<Longrightarrow> mem_reachable t m'"
| split_line: "mem_reachable t m \<Longrightarrow> 0 \<le> row \<Longrightarrow> row < m_count m \<Longrightarrow>
    buffer_split_line_mem m row col = Some m' \<Longrightarrow> mem_reachable t m'"
| split_line_v1: "mem_reachable t m \<Longrightarrow>
    buffer_split_line_mem_v1 m row col = Some m' \<Longrightarrow> mem_reachable t m'"
| join_with_prev: "mem_reachable t m \<Longrightarrow>
    buffer_join_with_prev_mem m row = Some m' \<Longrightarrow> mem_reachable t m'"
| load: "mem_reachable t m \<Longrightarrow> (t \<longrightarrow> (\<forall>data. file = Some data \<longrightarrow> NUL \<notin> set data)) \<Longrightarrow>
    editor_open_mem m file = Some m' \<Longrightarrow> mem_reachable t m'"

lemma buffer_insert_line_mem_Some:
  "buffer_insert_line_mem m at src n = Some m' \<Longrightarrow> 0 \<le> at \<Longrightarrow> at \<le> m_count m \<Longrightarrow>
     0 \<le> n \<and> n \<le> int (length src)"
  by (auto simp: buffer_insert_line_mem_def bind_eq_Some_conv malloc_def memcpy_list_def
      split: if_splits)

lemma nul_free_split:
  "nul_free ls \<Longrightarrow> r < length ls \<Longrightarrow>
     nul_free (take r ls @ take k (ls ! r) # drop k (ls ! r) # drop (Suc r) ls)"
proof -
  assume nf: "nul_free ls" and r: "r < length ls"
  then have "NUL \<notin> set (ls ! r)" by (rule nul_free_nth)
  then have "NUL \<notin> set (take k (ls ! r))" "NUL \<notin> set (drop k (ls ! r))"
    by (auto dest: in_set_takeD in_set_dropD)
  with nf show ?thesis by (auto simp: nul_free_def dest: in_set_takeD in_set_dropD)
qed

lemma nul_free_join:
  "nul_free ls \<Longrightarrow> 0 < r \<Longrightarrow> r < length ls \<Longrightarrow>
     nul_free (take (r - 1) ls @ (ls ! (r - 1) @ ls ! r) # drop (Suc r) ls)"
proof -
  assume nf: "nul_free ls" and r: "0 < r" "r < length ls"
  then have "NUL \<notin> set (ls ! r)" "NUL \<notin> set (ls ! (r - 1))" by (simp_all add: nul_free_nth)
  with nf show ?thesis by (auto simp: nul_free_def dest: in_set_takeD in_set_dropD)
qed

lemma mem_rep_count: "mem_rep m ls \<Longrightarrow> m_count m = int (length ls)"
  by (simp add: mem_rep_def)

lemma insert_char_step:
  assumes rep: "mem_rep m ls" and nf: "t \<longrightarrow> nul_free ls"
    and r: "0 \<le> row" "row < m_count m" and c: "t \<longrightarrow> c \<noteq> NUL"
    and run: "buffer_insert_char_mem m row col c = Some m'"
  shows "\<exists>ls'. mem_rep m' ls' \<and> (t \<longrightarrow> nul_free ls')"
proof -
  let ?l = "ls ! nat row"
  let ?ls' = "ls[nat row := take (nat col) ?l @ c # drop (nat col) ?l]"
  from r rep have r': "row < int (length ls)" by (simp add: mem_rep_count)
  from buffer_insert_char_mem_rep [OF rep r(1) r', of col c] run have rep': "mem_rep m' ?ls'"
    by auto
  have "t \<longrightarrow> nul_free ?ls'"
  proof
    assume t
    with nf c have nfl: "nul_free ls" and cn: "c \<noteq> NUL" by simp_all
    from nfl r r' have "NUL \<notin> set ?l" by (intro nul_free_nth) simp_all
    with cn have "NUL \<notin> set (take (nat col) ?l @ c # drop (nat col) ?l)"
      by (auto dest: in_set_takeD in_set_dropD)
    with nfl show "nul_free ?ls'" by (rule nul_free_update)
  qed
  with rep' show ?thesis by blast
qed

lemma delete_char_step:
  assumes rep: "mem_rep m ls" and nf: "t \<longrightarrow> nul_free ls"
    and r: "0 \<le> row" "row < m_count m"
    and run: "buffer_delete_char_mem m row col = Some m'"
  shows "\<exists>ls'. mem_rep m' ls' \<and> (t \<longrightarrow> nul_free ls')"
proof -
  let ?l = "ls ! nat row"
  from r rep have r': "row < int (length ls)" by (simp add: mem_rep_count)
  show ?thesis
  proof (cases "col \<le> 0 \<or> col > int (length ?l)")
    case True
    from buffer_delete_char_mem_noop [OF rep r(1) r' True] run have "m' = m" by simp
    with rep nf show ?thesis by blast
  next
    case False
    then have col: "0 < col" "col \<le> int (length ?l)" by simp_all
    let ?ls' = "ls[nat row := take (nat col - 1) ?l @ drop (nat col) ?l]"
    from buffer_delete_char_mem_rep [OF rep r(1) r' col] run have rep': "mem_rep m' ?ls'"
      by auto
    have "t \<longrightarrow> nul_free ?ls'"
    proof
      assume t
      with nf have nfl: "nul_free ls" by simp
      from nfl r r' have "NUL \<notin> set ?l" by (intro nul_free_nth) simp_all
      then have "NUL \<notin> set (take (nat col - 1) ?l @ drop (nat col) ?l)"
        by (auto dest: in_set_takeD in_set_dropD)
      with nfl show "nul_free ?ls'" by (rule nul_free_update)
    qed
    with rep' show ?thesis by blast
  qed
qed

lemma split_line_step:
  assumes rep: "mem_rep m ls" and nf: "t \<longrightarrow> nul_free ls"
    and r: "0 \<le> row" "row < m_count m"
    and run: "buffer_split_line_mem m row col = Some m'"
  shows "\<exists>ls'. mem_rep m' ls' \<and> (t \<longrightarrow> nul_free ls')"
proof -
  let ?l = "ls ! nat row"
  let ?ls' = "take (nat row) ls @ take (nat col) ?l # drop (nat col) ?l # drop (Suc (nat row)) ls"
  from r rep have r': "row < int (length ls)" by (simp add: mem_rep_count)
  from buffer_split_line_mem_rep [OF rep r(1) r', of col] run have rep': "mem_rep m' ?ls'"
    by auto
  have "t \<longrightarrow> nul_free ?ls'"
  proof
    assume t
    with nf have "nul_free ls" by simp
    then show "nul_free ?ls'" using r r' by (intro nul_free_split) simp_all
  qed
  with rep' show ?thesis by blast
qed

lemma join_with_prev_step:
  assumes rep: "mem_rep m ls" and nf: "t \<longrightarrow> nul_free ls"
    and run: "buffer_join_with_prev_mem m row = Some m'"
  shows "\<exists>ls'. mem_rep m' ls' \<and> (t \<longrightarrow> nul_free ls')"
proof (cases "row \<le> 0 \<or> row \<ge> m_count m")
  case True
  from buffer_join_with_prev_mem_noop [OF True] run have "m' = m" by simp
  with rep nf show ?thesis by blast
next
  case False
  with rep have r: "0 < row" "row < int (length ls)" by (simp_all add: mem_rep_count)
  let ?ls' = "take (nat row - 1) ls @ (ls ! (nat row - 1) @ ls ! nat row) # drop (Suc (nat row)) ls"
  from buffer_join_with_prev_mem_rep [OF rep r] run have rep': "mem_rep m' ?ls'" by auto
  have "t \<longrightarrow> nul_free ?ls'"
  proof
    assume t
    with nf have "nul_free ls" by simp
    then show "nul_free ?ls'" using r by (intro nul_free_join) simp_all
  qed
  with rep' show ?thesis by blast
qed

lemma insert_line_step:
  assumes rep: "mem_rep m ls" and nf: "t \<longrightarrow> nul_free ls"
    and s: "t \<longrightarrow> NUL \<notin> set (take (nat n) s)"
    and run: "buffer_insert_line_mem m at (map Some s) n = Some m'"
  shows "\<exists>ls'. mem_rep m' ls' \<and> (t \<longrightarrow> nul_free ls')"
proof (cases "at < 0 \<or> at > m_count m")
  case True
  from buffer_insert_line_mem_noop [OF True] run have "m' = m" by simp
  with rep nf show ?thesis by blast
next
  case False
  then have at: "0 \<le> at" "at \<le> m_count m" by simp_all
  from buffer_insert_line_mem_Some [OF run at] have n: "0 \<le> n" "n \<le> int (length s)" by simp_all
  from at rep have at': "at \<le> int (length ls)" by (simp add: mem_rep_count)
  let ?l0 = "take (nat n) s"
  let ?ls' = "take (nat at) ls @ ?l0 # drop (nat at) ls"
  have src: "take (nat n) (map Some s) = map Some ?l0" "length ?l0 = nat n"
    using n by (simp_all add: take_map)
  from buffer_insert_line_mem_rep [OF rep at(1) at' src n(1)] run have rep': "mem_rep m' ?ls'"
    by auto
  have "t \<longrightarrow> nul_free ?ls'" using nf s by (auto intro: nul_free_insert)
  with rep' show ?thesis by blast
qed

lemma mem0_heap: "\<forall>a. brk mem0 \<le> a \<longrightarrow> heap mem0 a = None"
  by (simp add: mem0_def)

lemma mem_reachable_rep: "mem_reachable t m \<Longrightarrow> \<exists>ls. mem_rep m ls \<and> (t \<longrightarrow> nul_free ls)"
proof (induction rule: mem_reachable.induct)
  case init
  have "mem_rep (buffer_init_mem mem0) [[]]" using mem0_heap by (rule buffer_init_mem_rep)
  moreover have "nul_free [[]]" by (simp add: nul_free_def)
  ultimately show ?case by blast
next
  case (insert_line m n s at m')
  then show ?case by (blast intro: insert_line_step)
next
  case (insert_char m row c col m')
  then show ?case by (blast intro: insert_char_step)
next
  case (insert_char_v1 m c row col m')
  then obtain ls where ls: "mem_rep m ls" "t \<longrightarrow> nul_free ls" by blast
  show ?case
  proof (cases "row < 0 \<or> row \<ge> m_count m")
    case True
    with insert_char_v1.hyps have "m' = m" by (simp add: buffer_insert_char_mem_v1_def)
    with ls show ?thesis by blast
  next
    case False
    with insert_char_v1.hyps have "buffer_insert_char_mem m row col c = Some m'"
      "0 \<le> row" "row < m_count m" by (simp_all add: buffer_insert_char_mem_v1_def)
    with ls insert_char_v1.hyps(2) show ?thesis by (blast intro: insert_char_step)
  qed
next
  case (delete_char m row col m')
  then show ?case by (blast intro: delete_char_step)
next
  case (delete_char_v1 m row col m')
  then obtain ls where ls: "mem_rep m ls" "t \<longrightarrow> nul_free ls" by blast
  show ?case
  proof (cases "row < 0 \<or> row \<ge> m_count m")
    case True
    with delete_char_v1.hyps have "m' = m" by (simp add: buffer_delete_char_mem_v1_def)
    with ls show ?thesis by blast
  next
    case False
    with delete_char_v1.hyps have "buffer_delete_char_mem m row col = Some m'"
      "0 \<le> row" "row < m_count m" by (simp_all add: buffer_delete_char_mem_v1_def)
    with ls show ?thesis by (blast intro: delete_char_step)
  qed
next
  case (split_line m row col m')
  then show ?case by (blast intro: split_line_step)
next
  case (split_line_v1 m row col m')
  then obtain ls where ls: "mem_rep m ls" "t \<longrightarrow> nul_free ls" by blast
  show ?case
  proof (cases "row < 0 \<or> row \<ge> m_count m")
    case True
    with split_line_v1.hyps have "m' = m" by (simp add: buffer_split_line_mem_v1_def)
    with ls show ?thesis by blast
  next
    case False
    with split_line_v1.hyps have "buffer_split_line_mem m row col = Some m'"
      "0 \<le> row" "row < m_count m" by (simp_all add: buffer_split_line_mem_v1_def)
    with ls show ?thesis by (blast intro: split_line_step)
  qed
next
  case (join_with_prev m row m')
  then show ?case by (blast intro: join_with_prev_step)
next
  case (load m fl m')
  then obtain ls where ls: "mem_rep m ls" "t \<longrightarrow> nul_free ls" by blast
  from editor_open_mem_rep [OF ls(1), of fl] load.hyps(3) obtain ls' where
    r: "mem_rep m' ls'" "fl = None \<longrightarrow> ls' = ls"
    "(\<forall>data. fl = Some data \<longrightarrow> NUL \<notin> set data) \<longrightarrow> nul_free ls \<longrightarrow> nul_free ls'"
    by auto
  with ls(2) load.hyps(2) have "t \<longrightarrow> nul_free ls'" by blast
  with r(1) show ?case by blast
qed

lemma strlen_le: "strlen l \<le> length l"
  by (simp add: strlen_def c_str_length)

lemma strlen_nul_free: "NUL \<notin> set l \<Longrightarrow> strlen l = length l"
  by (simp add: strlen_def c_str_id)

lemma mem_rep_returns:
  assumes rep: "mem_rep m ls"
  shows "0 \<le> row \<and> row < m_count m \<longrightarrow>
          (\<exists>m'. buffer_insert_char_mem m row col c = Some m')
          \<and> (\<exists>m'. buffer_delete_char_mem m row col = Some m')
          \<and> (\<exists>m'. buffer_split_line_mem m row col = Some m')"
    and "\<exists>m'. buffer_insert_char_mem_v1 m row col c = Some m'"
    and "\<exists>m'. buffer_delete_char_mem_v1 m row col = Some m'"
    and "\<exists>m'. buffer_split_line_mem_v1 m row col = Some m'"
    and "\<exists>m'. buffer_join_with_prev_mem m row = Some m'"
    and "0 \<le> n \<and> n \<le> int (length s) \<longrightarrow>
          (\<exists>m'. buffer_insert_line_mem m at (map Some s) n = Some m')"
    and "\<exists>m'. editor_open_mem m file = Some m'"
proof -
  note cnt = mem_rep_count [OF rep]
  have ic: "\<exists>m'. buffer_insert_char_mem m row col c = Some m'"
    if "0 \<le> row" "row < m_count m" for row col c
    using buffer_insert_char_mem_rep [OF rep, of row col c] that cnt by auto
  have dc: "\<exists>m'. buffer_delete_char_mem m row col = Some m'"
    if r: "0 \<le> row" "row < m_count m" for row col
  proof (cases "col \<le> 0 \<or> col > int (length (ls ! nat row))")
    case True
    from r cnt have "row < int (length ls)" by simp
    from buffer_delete_char_mem_noop [OF rep r(1) this True] show ?thesis by blast
  next
    case False
    then have col: "0 < col" "col \<le> int (length (ls ! nat row))" by simp_all
    from r cnt have "row < int (length ls)" by simp
    from buffer_delete_char_mem_rep [OF rep r(1) this col] show ?thesis by blast
  qed
  have sl: "\<exists>m'. buffer_split_line_mem m row col = Some m'"
    if "0 \<le> row" "row < m_count m" for row col
    using buffer_split_line_mem_rep [OF rep, of row col] that cnt by auto
  from ic dc sl show "0 \<le> row \<and> row < m_count m \<longrightarrow>
          (\<exists>m'. buffer_insert_char_mem m row col c = Some m')
          \<and> (\<exists>m'. buffer_delete_char_mem m row col = Some m')
          \<and> (\<exists>m'. buffer_split_line_mem m row col = Some m')" by blast
  show "\<exists>m'. buffer_insert_char_mem_v1 m row col c = Some m'"
    using ic [of row col c] by (auto simp: buffer_insert_char_mem_v1_def)
  show "\<exists>m'. buffer_delete_char_mem_v1 m row col = Some m'"
    using dc [of row col] by (auto simp: buffer_delete_char_mem_v1_def)
  show "\<exists>m'. buffer_split_line_mem_v1 m row col = Some m'"
    using sl [of row col] by (auto simp: buffer_split_line_mem_v1_def)
  show "\<exists>m'. buffer_join_with_prev_mem m row = Some m'"
  proof (cases "row \<le> 0 \<or> row \<ge> m_count m")
    case True
    from buffer_join_with_prev_mem_noop [OF this] show ?thesis by blast
  next
    case False
    with cnt have "0 < row" "row < int (length ls)" by simp_all
    from buffer_join_with_prev_mem_rep [OF rep this] show ?thesis by blast
  qed
  show "0 \<le> n \<and> n \<le> int (length s) \<longrightarrow>
          (\<exists>m'. buffer_insert_line_mem m at (map Some s) n = Some m')"
  proof
    assume n: "0 \<le> n \<and> n \<le> int (length s)"
    show "\<exists>m'. buffer_insert_line_mem m at (map Some s) n = Some m'"
    proof (cases "at < 0 \<or> at > m_count m")
      case True
      from buffer_insert_line_mem_noop [OF this] show ?thesis by blast
    next
      case False
      with cnt have at: "0 \<le> at" "at \<le> int (length ls)" by simp_all
      from n have n': "0 \<le> n" "n \<le> int (length s)" by simp_all
      have src: "take (nat n) (map Some s) = map Some (take (nat n) s)"
        "length (take (nat n) s) = nat n" "0 \<le> n"
        using n' by (simp_all add: take_map)
      from buffer_insert_line_mem_rep [OF rep at src] show ?thesis by blast
    qed
  qed
  show "\<exists>m'. editor_open_mem m file = Some m'"
    using editor_open_mem_rep [OF rep, of "file"] by blast
qed

text \<open>Claim C2, for operations applied at rows of the document. In every memory state
  reachable from the initial buffer by the buffer operations (insert line, insert char,
  delete char, split line, join with previous) and by loading, the three unguarded
  operations of version 0.3 being applied at rows \<open>0 \<le> row < count\<close>, the line count is at
  least 1, and every slot \<open>i < count\<close> points to a live block that holds \<open>len[i]\<close> bytes
  followed by a NUL terminator. The C string in the block is never longer than
  \<open>len[i]\<close>, and it has exactly that length when no NUL byte was inserted or loaded.
  In such a state every operation returns: the three unguarded ones at every row of the
  document, the guarded ones of version 0.1 and the join at every row, the insertion of
  a line for every byte count within the bytes given, and loading for every file.\<close>

theorem buffer_invariant:
  "mem_reachable t m \<Longrightarrow>
     1 \<le> m_count m
     \<and> (\<forall>i. 0 \<le> i \<and> i < m_count m \<longrightarrow>
          (\<exists>a blk l. aget (m_lines m) i = Some (Addr a) \<and> heap m a = Some blk
             \<and> aget (m_len m) i = Some (int (length l)) \<and> blk_holds blk l
             \<and> strlen l \<le> length l \<and> (t \<longrightarrow> strlen l = length l)))
     \<and> (\<forall>row col c. 0 \<le> row \<and> row < m_count m \<longrightarrow>
          (\<exists>m'. buffer_insert_char_mem m row col c = Some m')
          \<and> (\<exists>m'. buffer_delete_char_mem m row col = Some m')
          \<and> (\<exists>m'. buffer_split_line_mem m row col = Some m'))
     \<and> (\<forall>row col c.
          (\<exists>m'. buffer_insert_char_mem_v1 m row col c = Some m')
          \<and> (\<exists>m'. buffer_delete_char_mem_v1 m row col = Some m')
          \<and> (\<exists>m'. buffer_split_line_mem_v1 m row col = Some m')
          \<and> (\<exists>m'. buffer_join_with_prev_mem m row = Some m'))
     \<and> (\<forall>at s n. 0 \<le> n \<and> n \<le> int (length s) \<longrightarrow>
          (\<exists>m'. buffer_insert_line_mem m at (map Some s) n = Some m'))
     \<and> (\<forall>file. \<exists>m'. editor_open_mem m file = Some m')"
proof -
  assume "mem_reachable t m"
  then obtain ls where rep: "mem_rep m ls" and nf: "t \<longrightarrow> nul_free ls"
    using mem_reachable_rep by blast
  from rep have c: "m_count m = int (length ls)" "ls \<noteq> []" by (simp_all add: mem_rep_def)
  then have one: "1 \<le> m_count m" by (cases ls) simp_all
  have rows: "\<exists>a blk l. aget (m_lines m) i = Some (Addr a) \<and> heap m a = Some blk
           \<and> aget (m_len m) i = Some (int (length l)) \<and> blk_holds blk l
           \<and> strlen l \<le> length l \<and> (t \<longrightarrow> strlen l = length l)"
    if i: "0 \<le> i \<and> i < m_count m" for i
  proof -
    from i c have i': "0 \<le> i" "i < int (length ls)" by simp_all
    from rep i' obtain a rest where g: "aget (m_lines m) i = Some (Addr a)"
      "aget (m_len m) i = Some (int (length (ls ! nat i)))"
      "heap m a = Some (map Some (ls ! nat i) @ Some NUL # rest)"
      by (rule mem_rep_row)
    have bh: "blk_holds (map Some (ls ! nat i) @ Some NUL # rest) (ls ! nat i)"
      by (auto simp: blk_holds_iff)
    have "t \<longrightarrow> strlen (ls ! nat i) = length (ls ! nat i)"
    proof
      assume t
      with nf i' have "NUL \<notin> set (ls ! nat i)" by (intro nul_free_nth) simp_all
      then show "strlen (ls ! nat i) = length (ls ! nat i)" by (rule strlen_nul_free)
    qed
    with g bh strlen_le [of "ls ! nat i"] show ?thesis by blast
  qed
  note ret = mem_rep_returns [OF rep]
  show ?thesis
  proof (intro conjI allI)
    show "1 \<le> m_count m" by (rule one)
    show "0 \<le> i \<and> i < m_count m \<longrightarrow>
          (\<exists>a blk l. aget (m_lines m) i = Some (Addr a) \<and> heap m a = Some blk
             \<and> aget (m_len m) i = Some (int (length l)) \<and> blk_holds blk l
             \<and> strlen l \<le> length l \<and> (t \<longrightarrow> strlen l = length l))" for i
      using rows [of i] by blast
    show "0 \<le> row \<and> row < m_count m \<longrightarrow>
          (\<exists>m'. buffer_insert_char_mem m row col c = Some m')
          \<and> (\<exists>m'. buffer_delete_char_mem m row col = Some m')
          \<and> (\<exists>m'. buffer_split_line_mem m row col = Some m')" for row col c
      by (rule ret(1))
    show "\<exists>m'. buffer_insert_char_mem_v1 m row col c = Some m'" for row col c by (rule ret(2))
    show "\<exists>m'. buffer_delete_char_mem_v1 m row col = Some m'" for row col by (rule ret(3))
    show "\<exists>m'. buffer_split_line_mem_v1 m row col = Some m'" for row col by (rule ret(4))
    show "\<exists>m'. buffer_join_with_prev_mem m row = Some m'" for row by (rule ret(5))
    show "0 \<le> n \<and> n \<le> int (length s) \<longrightarrow>
          (\<exists>m'. buffer_insert_line_mem m at (map Some s) n = Some m')" for at s n
      by (rule ret(6))
    show "\<exists>m'. editor_open_mem m fl = Some m'" for fl by (rule ret(7))
  qed
qed

text \<open>A file of two lines, \<open>ab\<close> (closed by carriage return and line feed) and \<open>c\<close>,
  loaded into the initial buffer.\<close>

definition mem_ab_c :: Mem where
  "mem_ab_c = the (editor_open_mem (buffer_init_mem mem0) (Some (''ab'' @ [CR, LF] @ ''c'')))"

lemma mem_ab_c_loaded:
  "editor_open_mem (buffer_init_mem mem0) (Some (''ab'' @ [CR, LF] @ ''c'')) = Some mem_ab_c"
proof -
  have "editor_open_mem (buffer_init_mem mem0) (Some (''ab'' @ [CR, LF] @ ''c'')) \<noteq> None"
    by code_simp
  then show ?thesis unfolding mem_ab_c_def by simp
qed

lemma mem_ab_c_rows:
  "m_count mem_ab_c = 2 \<and> aget (m_len mem_ab_c) 0 = Some 2 \<and> aget (m_len mem_ab_c) 1 = Some 1
   \<and> row_block mem_ab_c 0 = Some [Some (CHR ''a''), Some (CHR ''b''), Some NUL]
   \<and> row_block mem_ab_c 1 = Some [Some (CHR ''c''), Some NUL]"
  unfolding mem_ab_c_def by code_simp

theorem buffer_invariant_witness:
  "mem_reachable True mem_ab_c \<and> 1 \<le> m_count mem_ab_c
   \<and> (\<exists>a blk l. aget (m_lines mem_ab_c) 1 = Some (Addr a) \<and> heap mem_ab_c a = Some blk
         \<and> aget (m_len mem_ab_c) 1 = Some (int (length l)) \<and> blk_holds blk l
         \<and> strlen l = length l)
   \<and> m_count mem_ab_c = 2 \<and> aget (m_len mem_ab_c) 1 = Some 1
   \<and> row_block mem_ab_c 1 = Some [Some (CHR ''c''), Some NUL]
   \<and> (\<exists>m'. buffer_delete_char_mem mem_ab_c 1 1 = Some m')
   \<and> (\<exists>m'. buffer_insert_line_mem mem_ab_c 2 (map Some ''de'') 2 = Some m')"
proof -
  have nn: "True \<longrightarrow> (\<forall>data. Some (''ab'' @ [CR, LF] @ ''c'') = Some data \<longrightarrow> NUL \<notin> set data)"
    by (simp add: NUL_def CR_def LF_def)
  have r: "mem_reachable True mem_ab_c"
    using mem_reachable.init nn mem_ab_c_loaded by (rule mem_reachable.load)
  have i: "(0::int) \<le> 1 \<and> 1 < m_count mem_ab_c" using mem_ab_c_rows by simp
  have n: "(0::int) \<le> 2 \<and> 2 \<le> int (length ''de'')" by simp
  from buffer_invariant [OF r] have a: "1 \<le> m_count mem_ab_c"
    and b: "\<forall>i. 0 \<le> i \<and> i < m_count mem_ab_c \<longrightarrow>
        (\<exists>a blk l. aget (m_lines mem_ab_c) i = Some (Addr a) \<and> heap mem_ab_c a = Some blk
           \<and> aget (m_len mem_ab_c) i = Some (int (length l)) \<and> blk_holds blk l
           \<and> strlen l \<le> length l \<and> (True \<longrightarrow> strlen l = length l))"
    and c: "\<forall>row col c. 0 \<le> row \<and> row < m_count mem_ab_c \<longrightarrow>
          (\<exists>m'. buffer_insert_char_mem mem_ab_c row col c = Some m')
          \<and> (\<exists>m'. buffer_delete_char_mem mem_ab_c row col = Some m')
          \<and> (\<exists>m'. buffer_split_line_mem mem_ab_c row col = Some m')"
    and d: "\<forall>at s n. 0 \<le> n \<and> n \<le> int (length s) \<longrightarrow>
          (\<exists>m'. buffer_insert_line_mem mem_ab_c at (map Some s) n = Some m')"
    by blast+
  from b i have "\<exists>a blk l. aget (m_lines mem_ab_c) 1 = Some (Addr a) \<and> heap mem_ab_c a = Some blk
           \<and> aget (m_len mem_ab_c) 1 = Some (int (length l)) \<and> blk_holds blk l
           \<and> strlen l = length l"
    by blast
  moreover from c i have "\<exists>m'. buffer_delete_char_mem mem_ab_c 1 1 = Some m'" by blast
  moreover from d n have "\<exists>m'. buffer_insert_line_mem mem_ab_c 2 (map Some ''de'') 2 = Some m'"
    by blast
  ultimately show ?thesis using r a mem_ab_c_rows by blast
qed

text \<open>Two runs of version 0.3 that leave these bounds.

  A stale slot. The document gets the lines \<open>ab\<close> and \<open>cd\<close> after its empty first line,
  and row 1 is joined with row 0: two lines are left, \<open>ab\<close> and \<open>cd\<close>, and slot 2 of the
  arrays, now unused, still holds the pointer and the length of \<open>cd\<close>. Version 0.3 then
  deletes a character at row 2, column 1. The call returns; it has moved the bytes in
  the block of line 1, whose cached length is still 2 while the C string it holds is
  \<open>d\<close>.

  A NUL byte. The file holds \<open>a\<close>, NUL, \<open>b\<close> and a line feed. Loading it gives one line
  of cached length 3 whose C string is \<open>a\<close>.\<close>

definition stale1 :: Mem where
  "stale1 = the (buffer_insert_line_mem (buffer_init_mem mem0) 1 (map Some ''ab'') 2)"

definition stale2 :: Mem where
  "stale2 = the (buffer_insert_line_mem stale1 2 (map Some ''cd'') 2)"

definition stale3 :: Mem where
  "stale3 = the (buffer_join_with_prev_mem stale2 1)"

definition stale4 :: Mem where
  "stale4 = the (buffer_delete_char_mem stale3 2 1)"

definition mem_nul :: Mem where
  "mem_nul = the (editor_open_mem (buffer_init_mem mem0) (Some [CHR ''a'', NUL, CHR ''b'', LF]))"

theorem stale_slot_breaks_invariant:
  "buffer_insert_line_mem (buffer_init_mem mem0) 1 (map Some ''ab'') 2 = Some stale1
   \<and> buffer_insert_line_mem stale1 2 (map Some ''cd'') 2 = Some stale2
   \<and> buffer_join_with_prev_mem stale2 1 = Some stale3
   \<and> m_count stale3 = 2
   \<and> row_block stale3 0 = Some [Some (CHR ''a''), Some (CHR ''b''), Some NUL]
   \<and> row_block stale3 1 = Some [Some (CHR ''c''), Some (CHR ''d''), Some NUL]
   \<and> buffer_delete_char_mem stale3 2 1 = Some stale4
   \<and> m_count stale4 = 2 \<and> aget (m_len stale4) 1 = Some 2
   \<and> row_block stale4 1 = Some [Some (CHR ''d''), Some NUL, Some NUL]
   \<and> strlen [CHR ''d'', NUL] = 1
   \<and> editor_open_mem (buffer_init_mem mem0) (Some [CHR ''a'', NUL, CHR ''b'', LF]) = Some mem_nul
   \<and> m_count mem_nul = 1 \<and> aget (m_len mem_nul) 0 = Some 3
   \<and> row_block mem_nul 0 = Some [Some (CHR ''a''), Some NUL, Some (CHR ''b''), Some NUL]
   \<and> strlen [CHR ''a'', NUL, CHR ''b''] = 1"
proof -
  have "buffer_insert_line_mem (buffer_init_mem mem0) 1 (map Some ''ab'') 2 \<noteq> None"
    by code_simp
  then have s1: "buffer_insert_line_mem (buffer_init_mem mem0) 1 (map Some ''ab'') 2 = Some stale1"
    unfolding stale1_def by simp
  have "buffer_insert_line_mem stale1 2 (map Some ''cd'') 2 \<noteq> None"
    unfolding stale1_def by code_simp
  then have s2: "buffer_insert_line_mem stale1 2 (map Some ''cd'') 2 = Some stale2"
    unfolding stale2_def by simp
  have "buffer_join_with_prev_mem stale2 1 \<noteq> None"
    unfolding stale2_def stale1_def by code_simp
  then have s3: "buffer_join_with_prev_mem stale2 1 = Some stale3"
    unfolding stale3_def by simp
  have r3: "m_count stale3 = 2
     \<and> row_block stale3 0 = Some [Some (CHR ''a''), Some (CHR ''b''), Some NUL]
     \<and> row_block stale3 1 = Some [Some (CHR ''c''), Some (CHR ''d''), Some NUL]"
    unfolding stale3_def stale2_def stale1_def by code_simp
  have "buffer_delete_char_mem stale3 2 1 \<noteq> None"
    unfolding stale3_def stale2_def stale1_def by code_simp
  then have s4: "buffer_delete_char_mem stale3 2 1 = Some stale4"
    unfolding stale4_def by simp
  have r4: "m_count stale4 = 2 \<and> aget (m_len stale4) 1 = Some 2
     \<and> row_block stale4 1 = Some [Some (CHR ''d''), Some NUL, Some NUL]"
    unfolding stale4_def stale3_def stale2_def stale1_def by code_simp
  have l1: "strlen [CHR ''d'', NUL] = 1" "strlen [CHR ''a'', NUL, CHR ''b''] = 1"
    by (simp_all add: strlen_def c_str_def NUL_def)
  have "editor_open_mem (buffer_init_mem mem0) (Some [CHR ''a'', NUL, CHR ''b'', LF]) \<noteq> None"
    by code_simp
  then have s5: "editor_open_mem (buffer_init_mem mem0) (Some [CHR ''a'', NUL, CHR ''b'', LF]) = Some mem_nul"
    unfolding mem_nul_def by simp
  have r5: "m_count mem_nul = 1 \<and> aget (m_len mem_nul) 0 = Some 3
     \<and> row_block mem_nul 0 = Some [Some (CHR ''a''), Some NUL, Some (CHR ''b''), Some NUL]"
    unfolding mem_nul_def by code_simp
  from s1 s2 s3 r3 s4 r4 l1 s5 r5 show ?thesis by blast
qed

end
